(* ===== verification/Prelude.thy ===== *)
theory Prelude
  imports Main "HOL-Library.Word" "HOL-Library.Monad_Syntax" "HOL-Library.Multiset"
begin

unbundle bit_operations_syntax

text \<open>
  Shared vocabulary of the development.

  \<^item> Bytes are \<^typ>\<open>char\<close> (HOL's \<^typ>\<open>char\<close> is exactly an 8-bit value), so a Rust
    \<^verbatim>\<open>[u8]\<close> is a \<^typ>\<open>string\<close> and \<^verbatim>\<open>b"SET"\<close> is \<open>''SET''\<close>.
  \<^item> A Rust function that can panic or loop forever is an \<^typ>\<open>'a option\<close>: \<^const>\<open>None\<close> is
    "does not return" (an out-of-range index, an unsigned subtraction below zero, a loop that
    never ends) and \<^term>\<open>Some x\<close> is a normal return.
  \<^item> \<open>returns c Q\<close> is total correctness: \<open>c\<close> does return, and its result satisfies \<open>Q\<close>. Every
    component proves its operations in this form, so no theorem is of the kind
    "if it returns, the result is right".
\<close>

type_synonym bytes = string
type_synonym u64 = "64 word"

section \<open>Computations that may not return\<close>

definition returns :: "'a option \<Rightarrow> ('a \<Rightarrow> bool) \<Rightarrow> bool" where
  "returns c Q \<longleftrightarrow> (case c of None \<Rightarrow> False | Some x \<Rightarrow> Q x)"

named_theorems returns_simps \<open>weakest preconditions of the program constructs\<close>

lemma returns_Some [simp, returns_simps]: "returns (Some x) Q \<longleftrightarrow> Q x"
  by (simp add: returns_def)

lemma returns_None [simp, returns_simps]: "\<not> returns None Q"
  by (simp add: returns_def)

lemma returns_bind [returns_simps]:
  "returns (Option.bind c f) Q \<longleftrightarrow> returns c (\<lambda>x. returns (f x) Q)"
  by (cases c) (auto simp: returns_def)

lemma returns_conseq: "returns c P \<Longrightarrow> (\<And>x. P x \<Longrightarrow> Q x) \<Longrightarrow> returns c Q"
  by (cases c) (auto simp: returns_def)

lemma returns_bindI:
  "returns c P \<Longrightarrow> (\<And>x. P x \<Longrightarrow> returns (f x) Q) \<Longrightarrow> returns (Option.bind c f) Q"
  by (auto simp: returns_bind intro: returns_conseq)

lemma returns_iff: "returns c Q \<longleftrightarrow> (\<exists>x. c = Some x \<and> Q x)"
  by (cases c) (auto simp: returns_def)

lemma returnsE:
  assumes "returns c Q" obtains x where "c = Some x" "Q x"
  using assms by (auto simp: returns_iff)

text \<open>Unsigned subtraction: below zero it panics (debug) or wraps (release); neither is a
  normal return here, so proving that an operation returns proves that it never underflows.\<close>

definition usub :: "nat \<Rightarrow> nat \<Rightarrow> nat option" where
  "usub a b = (if b \<le> a then Some (a - b) else None)"

lemma usub_Some [simp]: "b \<le> a \<Longrightarrow> usub a b = Some (a - b)"
  by (simp add: usub_def)

lemma returns_usub [returns_simps]: "returns (usub a b) Q \<longleftrightarrow> b \<le> a \<and> Q (a - b)"
  by (simp add: usub_def)

text \<open>Indexing a slice or a vector: out of range it panics.\<close>

definition idx :: "'a list \<Rightarrow> nat \<Rightarrow> 'a option" where
  "idx xs i = (if i < length xs then Some (xs ! i) else None)"

lemma idx_Some [simp]: "i < length xs \<Longrightarrow> idx xs i = Some (xs ! i)"
  by (simp add: idx_def)

lemma returns_idx [returns_simps]: "returns (idx xs i) Q \<longleftrightarrow> i < length xs \<and> Q (xs ! i)"
  by (simp add: idx_def)

section \<open>Power-of-two rings\<close>

text \<open>Index masking, \<^verbatim>\<open>x & (cap - 1)\<close>, is reduction modulo a power-of-two capacity.\<close>

lemma and_mask_mod: "(x::nat) AND (2 ^ k - 1) = x mod 2 ^ k"
  using take_bit_eq_mask [of k x] unfolding mask_eq_exp_minus_1 take_bit_eq_mod by (rule sym)

definition pow2 :: "nat \<Rightarrow> bool" where
  "pow2 n \<longleftrightarrow> (\<exists>k. n = 2 ^ k)"

lemma pow2_mask: "pow2 n \<Longrightarrow> x AND (n - 1) = x mod n"
  unfolding pow2_def using and_mask_mod by blast

lemma pow2_pos: "pow2 n \<Longrightarrow> 0 < n"
  by (auto simp: pow2_def)

lemma pow2_double: "pow2 n \<Longrightarrow> pow2 (2 * n)"
  by (metis pow2_def power_Suc)

lemma pow2_16: "pow2 16"
  unfolding pow2_def by (rule exI [of _ 4]) simp

lemma pow2_ge_16_dvd: "pow2 n \<Longrightarrow> 16 \<le> n \<Longrightarrow> 8 dvd n"
proof -
  assume "pow2 n" "16 \<le> n"
  then obtain k where k: "n = 2 ^ k" by (auto simp: pow2_def)
  have "3 \<le> k"
  proof (rule ccontr)
    assume "\<not> 3 \<le> k"
    then have "(2::nat) ^ k \<le> 2 ^ 2" by (intro power_increasing) auto
    with k \<open>16 \<le> n\<close> show False by simp
  qed
  then have "(2::nat) ^ 3 dvd 2 ^ k" by (rule le_imp_power_dvd)
  then show ?thesis by (simp add: k)
qed

text \<open>The distance from \<open>a\<close> forwards to \<open>b\<close> on a ring of size \<open>n\<close>, and the next position.
  Both are written with a case distinction, so that linear arithmetic decides ring goals.\<close>

definition cdist :: "nat \<Rightarrow> nat \<Rightarrow> nat \<Rightarrow> nat" where
  "cdist n a b = (if a \<le> b then b - a else b + n - a)"

definition csucc :: "nat \<Rightarrow> nat \<Rightarrow> nat" where
  "csucc n i = (if i + 1 = n then 0 else i + 1)"

lemmas ring_defs = cdist_def csucc_def

lemma mask_csucc: "pow2 n \<Longrightarrow> i < n \<Longrightarrow> (i + 1) AND (n - 1) = csucc n i"
  unfolding pow2_mask by (auto simp: csucc_def)

lemma csucc_less [simp]: "i < n \<Longrightarrow> csucc n i < n"
  by (auto simp: csucc_def)

lemma cdist_less: "a < n \<Longrightarrow> b < n \<Longrightarrow> cdist n a b < n"
  by (auto simp: cdist_def)

lemma cdist_self [simp]: "cdist n a a = 0"
  by (simp add: cdist_def)

lemma cdist_inj: "a < n \<Longrightarrow> b < n \<Longrightarrow> c < n \<Longrightarrow> cdist n a b = cdist n a c \<Longrightarrow> b = c"
  by (auto simp: cdist_def split: if_splits)

lemma cdist_csucc:
  "a < n \<Longrightarrow> i < n \<Longrightarrow> z < n \<Longrightarrow> cdist n a i < cdist n a z \<Longrightarrow>
   cdist n a (csucc n i) = Suc (cdist n a i)"
  by (auto simp: ring_defs split: if_splits)

lemma cdist_csucc_closer:
  "i < n \<Longrightarrow> z < n \<Longrightarrow> i \<noteq> z \<Longrightarrow> Suc (cdist n (csucc n i) z) = cdist n i z"
  by (auto simp: ring_defs split: if_splits)

text \<open>Coordinates relative to a fixed position \<open>z\<close>: seen from \<open>z\<close>, a ring interval that does not
  cross \<open>z\<close> is an ordinary interval.\<close>

lemma cdist_rotate:
  "a < n \<Longrightarrow> x < n \<Longrightarrow> z < n \<Longrightarrow> cdist n (cdist n z a) (cdist n z x) = cdist n a x"
  unfolding cdist_def by (cases "z \<le> a"; cases "z \<le> x"; cases "a \<le> x"; simp)

lemma ring_rel:
  assumes "a < n" "x < n" "j < n" "z < n" "cdist n z a \<le> cdist n z j"
  shows "cdist n a x < cdist n a j \<longleftrightarrow> cdist n z a \<le> cdist n z x \<and> cdist n z x < cdist n z j"
proof -
  have "cdist n z a < n" "cdist n z x < n" "cdist n z j < n"
    using assms by (simp_all add: cdist_less)
  then have "cdist n (cdist n z a) (cdist n z x) < cdist n (cdist n z a) (cdist n z j)
      \<longleftrightarrow> cdist n z a \<le> cdist n z x \<and> cdist n z x < cdist n z j"
    using assms(5) by (auto simp: cdist_def [of n "cdist n z a"])
  then show ?thesis using assms by (simp add: cdist_rotate)
qed

lemma ring_chain_le:
  "a < n \<Longrightarrow> j < n \<Longrightarrow> z < n \<Longrightarrow> z \<noteq> j \<Longrightarrow> \<not> cdist n a z < cdist n a j \<Longrightarrow>
   cdist n z a \<le> cdist n z j"
  unfolding cdist_def by (cases "a \<le> z"; cases "a \<le> j"; cases "z \<le> j"; simp)

lemma csucc_rel:
  "i < n \<Longrightarrow> z < n \<Longrightarrow> csucc n i = z \<or> cdist n z (csucc n i) = Suc (cdist n z i)"
  by (auto simp: ring_defs split: if_splits)

lemma csucc_rel_last:
  "i < n \<Longrightarrow> z < n \<Longrightarrow> csucc n i = z \<Longrightarrow> x < n \<Longrightarrow> cdist n z x \<le> cdist n z i"
  by (auto simp: ring_defs split: if_splits)

end
