(* ===== verification/Map_Interface.thy ===== *)
theory Map_Interface
  imports Prelude
begin

text \<open>
  The interface of the index structure that \<^verbatim>\<open>s3fifo.rs\<close> and \<^verbatim>\<open>store.rs\<close> program against: a map
  from byte strings with lookup, in-place update, insertion, removal, iteration and a size.
  The laws are total-correctness laws over the abstract map \<open>\<alpha> m\<close>; the flat hash table of
  \<^verbatim>\<open>map.rs\<close> is shown to satisfy them in theory \<open>Flat_Map\<close>.
\<close>

section \<open>Sequences of map operations\<close>

datatype 'v map_op = OpInsert bytes 'v | OpRemove bytes | OpGet bytes

text \<open>The same sequence run on an implementation and on a mathematical map, with the value
  each operation answers.\<close>

fun impl_run ::
  "('m \<Rightarrow> bytes \<Rightarrow> 'v option option) \<Rightarrow> ('m \<Rightarrow> bytes \<Rightarrow> 'v \<Rightarrow> ('m \<times> 'v option) option) \<Rightarrow>
   ('m \<Rightarrow> bytes \<Rightarrow> ('m \<times> 'v option) option) \<Rightarrow> 'm \<Rightarrow> 'v map_op list \<Rightarrow> ('m \<times> 'v option list) option"
where
  "impl_run get ins rem m [] = Some (m, [])"
| "impl_run get ins rem m (OpInsert k v # ops) =
     do { (m, r) \<leftarrow> ins m k v; (m, rs) \<leftarrow> impl_run get ins rem m ops; Some (m, r # rs) }"
| "impl_run get ins rem m (OpRemove k # ops) =
     do { (m, r) \<leftarrow> rem m k; (m, rs) \<leftarrow> impl_run get ins rem m ops; Some (m, r # rs) }"
| "impl_run get ins rem m (OpGet k # ops) =
     do { r \<leftarrow> get m k; (m, rs) \<leftarrow> impl_run get ins rem m ops; Some (m, r # rs) }"

fun map_run :: "(bytes \<rightharpoonup> 'v) \<Rightarrow> 'v map_op list \<Rightarrow> (bytes \<rightharpoonup> 'v) \<times> 'v option list" where
  "map_run f [] = (f, [])"
| "map_run f (OpInsert k v # ops) = (let (g, rs) = map_run (f(k \<mapsto> v)) ops in (g, f k # rs))"
| "map_run f (OpRemove k # ops) = (let (g, rs) = map_run (f(k := None)) ops in (g, f k # rs))"
| "map_run f (OpGet k # ops) = (let (g, rs) = map_run f ops in (g, f k # rs))"

section \<open>Sums over finite maps\<close>

definition msum :: "('k \<Rightarrow> 'v \<Rightarrow> nat) \<Rightarrow> ('k \<rightharpoonup> 'v) \<Rightarrow> nat" where
  "msum f m = (\<Sum>k \<in> dom m. f k (the (m k)))"

lemma msum_empty [simp]: "msum f Map.empty = 0"
  by (simp add: msum_def)

text \<open>How a sum over a map changes when one key is written or removed.\<close>

lemma msum_upd:
  assumes "finite (dom m)" "m k = None"
  shows "msum f (m(k \<mapsto> v)) = f k v + msum f m"
proof -
  have k: "k \<notin> dom m" using assms(2) by auto
  then have "(\<Sum>x \<in> dom m. f x (the ((m(k \<mapsto> v)) x))) = (\<Sum>x \<in> dom m. f x (the (m x)))"
    by (intro sum.cong) auto
  then show ?thesis using assms(1) k by (simp add: msum_def)
qed

lemma msum_remove:
  assumes "finite (dom m)" "m k = Some v"
  shows "msum f m = f k v + msum f (m(k := None))"
proof -
  have "finite (dom (m(k := None)))" "(m(k := None)) k = None" using assms by auto
  from msum_upd [OF this, of f v] show ?thesis
    by (simp only: fun_upd_upd fun_upd_idem [of m, OF assms(2)])
qed

lemma msum_replace:
  assumes "finite (dom m)" "m k = Some v"
  shows "msum f (m(k \<mapsto> w)) + f k v = msum f m + f k w"
proof -
  have "finite (dom (m(k := None)))" "(m(k := None)) k = None" using assms by auto
  from msum_upd [OF this, of f w] msum_remove [OF assms, of f] show ?thesis
    by (simp only: fun_upd_upd)
qed

lemma msum_ge: "finite (dom m) \<Longrightarrow> m k = Some v \<Longrightarrow> f k v \<le> msum f m"
  by (simp add: msum_remove)

section \<open>The interface\<close>

locale byte_map =
  fixes minv :: "'m \<Rightarrow> bool"
    and \<alpha> :: "'m \<Rightarrow> bytes \<rightharpoonup> 'v"
    and get :: "'m \<Rightarrow> bytes \<Rightarrow> 'v option option"
    and get_mut :: "'m \<Rightarrow> bytes \<Rightarrow> ('v \<Rightarrow> 'v) \<Rightarrow> 'm option"
    and ins :: "'m \<Rightarrow> bytes \<Rightarrow> 'v \<Rightarrow> ('m \<times> 'v option) option"
    and rem :: "'m \<Rightarrow> bytes \<Rightarrow> ('m \<times> 'v option) option"
    and iter :: "'m \<Rightarrow> (bytes \<times> 'v) list"
    and sz :: "'m \<Rightarrow> nat"
  assumes get_law: "minv m \<Longrightarrow> get m k = Some (\<alpha> m k)"
    and get_mut_law: "minv m \<Longrightarrow> returns (get_mut m k f)
      (\<lambda>m'. minv m' \<and> \<alpha> m' = (\<alpha> m)(k := map_option f (\<alpha> m k)))"
    and ins_law: "minv m \<Longrightarrow> returns (ins m k v)
      (\<lambda>(m', old). minv m' \<and> \<alpha> m' = (\<alpha> m)(k \<mapsto> v) \<and> old = \<alpha> m k)"
    and rem_law: "minv m \<Longrightarrow> returns (rem m k)
      (\<lambda>(m', old). minv m' \<and> \<alpha> m' = (\<alpha> m)(k := None) \<and> old = \<alpha> m k)"
    and iter_law: "minv m \<Longrightarrow> distinct (map fst (iter m)) \<and> map_of (iter m) = \<alpha> m"
    and sz_law: "minv m \<Longrightarrow> sz m = length (iter m)"
begin

text \<open>The laws as elimination rules, for clients that follow the code step by step.\<close>

lemma get_mutE:
  assumes "minv m"
  obtains m' where "get_mut m k f = Some m'" "minv m'" "\<alpha> m' = (\<alpha> m)(k := map_option f (\<alpha> m k))"
  using get_mut_law [OF assms, of k f] by (auto elim: returnsE)

lemma insE:
  assumes "minv m"
  obtains m' where "ins m k v = Some (m', \<alpha> m k)" "minv m'" "\<alpha> m' = (\<alpha> m)(k \<mapsto> v)"
  using ins_law [OF assms, of k v] by (auto elim: returnsE)

lemma remE:
  assumes "minv m"
  obtains m' where "rem m k = Some (m', \<alpha> m k)" "minv m'" "\<alpha> m' = (\<alpha> m)(k := None)"
  using rem_law [OF assms, of k] by (auto elim: returnsE)

lemma dom_iter: "minv m \<Longrightarrow> dom (\<alpha> m) = fst ` set (iter m)"
  using iter_law [of m] by (metis dom_map_of_conv_image_fst)

lemma finite_dom: "minv m \<Longrightarrow> finite (dom (\<alpha> m))"
  by (simp add: dom_iter)

lemma sz_card: "minv m \<Longrightarrow> sz m = card (dom (\<alpha> m))"
  using iter_law [of m]
  by (simp add: sz_law dom_iter) (metis distinct_card length_map list.set_map)

lemma sz_0_iff: "minv m \<Longrightarrow> sz m = 0 \<longleftrightarrow> \<alpha> m = Map.empty"
  using finite_dom [of m] by (simp add: sz_card)

lemma in_iter_iff: "minv m \<Longrightarrow> (k, v) \<in> set (iter m) \<longleftrightarrow> \<alpha> m k = Some v"
  using iter_law [of m] by (metis map_of_eq_Some_iff)

text \<open>A sum over the iteration is a sum over the abstract map, whatever the table order.\<close>

lemma sum_iter: "minv m \<Longrightarrow> sum_list (map (\<lambda>(k, v). f k v) (iter m)) = msum f (\<alpha> m)"
proof -
  assume inv: "minv m"
  from iter_law [OF inv] have d: "distinct (map fst (iter m))" and m: "map_of (iter m) = \<alpha> m" by auto
  have "sum_list (map (\<lambda>(k, v). f k v) (iter m)) = (\<Sum>(k, v) \<in> set (iter m). f k v)"
    using d by (simp add: sum_list_distinct_conv_sum_set distinct_map)
  also have "\<dots> = msum f (\<alpha> m)"
    unfolding msum_def dom_iter [OF inv]
  proof (rule sum.reindex_cong [symmetric, of fst])
    show "inj_on fst (set (iter m))" using d by (simp add: distinct_map)
    show "f (fst p) (the (\<alpha> m (fst p))) = (case p of (k, v) \<Rightarrow> f k v)" if "p \<in> set (iter m)" for p
      using that in_iter_iff [OF inv, of "fst p" "snd p"] by (simp add: case_prod_beta)
  qed simp
  finally show ?thesis .
qed

lemma run_refines:
  "minv m \<Longrightarrow> returns (impl_run get ins rem m ops)
     (\<lambda>(m', rs). minv m' \<and> map_run (\<alpha> m) ops = (\<alpha> m', rs))"
proof (induction ops arbitrary: m)
  case (Cons x ops)
  have step: "returns (do { (m, rs) \<leftarrow> impl_run get ins rem m1 ops; Some (m, r # rs) })
      (\<lambda>(m', rs'). minv m' \<and> (let (g, rs) = map_run (\<alpha> m1) ops in (g, r # rs)) = (\<alpha> m', rs'))"
    if "minv m1" for m1 r
    by (rule returns_bindI [OF Cons.IH [OF that]]) auto
  show ?case
  proof (cases x)
    case (OpInsert k v)
    show ?thesis unfolding OpInsert impl_run.simps map_run.simps
      by (rule returns_bindI [OF ins_law [OF Cons.prems]]) (use step in force)
  next
    case (OpRemove k)
    show ?thesis unfolding OpRemove impl_run.simps map_run.simps
      by (rule returns_bindI [OF rem_law [OF Cons.prems]]) (use step in force)
  next
    case (OpGet k)
    then show ?thesis using step [OF Cons.prems] by (simp add: get_law [OF Cons.prems])
  qed
qed simp

end

end
