(* ===== verification/Flat_Map.thy ===== *)
theory Flat_Map
  imports Map_Interface
begin

unbundle bit_operations_syntax

text \<open>
  \<^verbatim>\<open>crates/core/src/map.rs\<close>: the flat open-addressing hash table with linear probing and
  backward-shift deletion that indexes every shard and the eviction metadata.
\<close>

section \<open>Data\<close>

definition LOAD_NUM :: nat where "LOAD_NUM = 7"
definition LOAD_DEN :: nat where "LOAD_DEN = 8"
definition MIN_CAP :: nat where "MIN_CAP = 16"

record 'v fm_entry =
  e_hash :: u64
  e_key :: bytes
  e_value :: 'v

text \<open>The hasher (\<^verbatim>\<open>ahash::RandomState\<close>, a third-party crate) is an arbitrary function from
  keys to 64-bit words, drawn when the map is created.\<close>

record 'v flat_map =
  fm_slots :: "'v fm_entry option list"
  fm_len :: nat
  fm_mask :: nat
  fm_hasher :: "bytes \<Rightarrow> u64"

section \<open>Operations\<close>

definition fm_new :: "(bytes \<Rightarrow> u64) \<Rightarrow> 'v flat_map" where
  "fm_new h = \<lparr>fm_slots = [], fm_len = 0, fm_mask = 0, fm_hasher = h\<rparr>"

definition fm_alloc :: "'v flat_map \<Rightarrow> nat \<Rightarrow> 'v flat_map" where
  "fm_alloc m raw_cap = m\<lparr>fm_slots := replicate raw_cap None, fm_mask := raw_cap - 1\<rparr>"

text \<open>\<^verbatim>\<open>usize::next_power_of_two\<close>: the least power of two that is at least \<open>n\<close>.\<close>

function npot_from :: "nat \<Rightarrow> nat \<Rightarrow> nat" where
  "npot_from n p = (if p = 0 \<or> n \<le> p then p else npot_from n (2 * p))"
  by pat_completeness auto
termination by (relation "measure (\<lambda>(n, p). n - p)") auto

declare npot_from.simps [simp del]

definition next_power_of_two :: "nat \<Rightarrow> nat" where
  "next_power_of_two n = npot_from n 1"

definition fm_with_capacity :: "(bytes \<Rightarrow> u64) \<Rightarrow> nat \<Rightarrow> 'v flat_map" where
  "fm_with_capacity h cap =
     (let m = fm_new h in
      if cap > 0
      then fm_alloc m (max (next_power_of_two (cap * LOAD_DEN div LOAD_NUM + 1)) MIN_CAP)
      else m)"

definition fm_is_empty :: "'v flat_map \<Rightarrow> bool" where
  "fm_is_empty m \<longleftrightarrow> fm_len m = 0"

definition fm_capacity :: "'v flat_map \<Rightarrow> nat" where
  "fm_capacity m = length (fm_slots m)"

definition fm_hash_key :: "'v flat_map \<Rightarrow> bytes \<Rightarrow> u64" where
  "fm_hash_key m key = fm_hasher m key"

definition fm_grow_threshold :: "'v flat_map \<Rightarrow> nat" where
  "fm_grow_threshold m = length (fm_slots m) div LOAD_DEN * LOAD_NUM"

text \<open>The probe loop of \<^verbatim>\<open>get_pre\<close>, \<^verbatim>\<open>get_mut_pre\<close>, \<^verbatim>\<open>insert_pre\<close> and \<^verbatim>\<open>remove_pre\<close>: the index
  where it stops, with the matching entry or with the empty slot it ran into.\<close>

partial_function (option) fm_probe ::
  "'v fm_entry option list \<Rightarrow> nat \<Rightarrow> u64 \<Rightarrow> bytes \<Rightarrow> nat \<Rightarrow> (nat \<times> 'v fm_entry option) option"
where
  "fm_probe sl msk hash key i =
     (case idx sl i of
        None \<Rightarrow> None
      | Some None \<Rightarrow> Some (i, None)
      | Some (Some e) \<Rightarrow>
          if e_hash e = hash \<and> e_key e = key then Some (i, Some e)
          else fm_probe sl msk hash key ((i + 1) AND msk))"

declare fm_probe.simps [code]

definition fm_get_pre :: "'v flat_map \<Rightarrow> u64 \<Rightarrow> bytes \<Rightarrow> 'v option option" where
  "fm_get_pre m hash key =
     (if fm_slots m = [] then Some None
      else do {
        (i, found) \<leftarrow> fm_probe (fm_slots m) (fm_mask m) hash key (unat hash AND fm_mask m);
        Some (map_option e_value found)
      })"

definition fm_get :: "'v flat_map \<Rightarrow> bytes \<Rightarrow> 'v option option" where
  "fm_get m key = fm_get_pre m (fm_hash_key m key) key"

text \<open>\<^verbatim>\<open>get_mut\<close> hands out a \<^verbatim>\<open>&mut V\<close>; what the caller writes through it is the function \<open>f\<close>.\<close>

definition fm_get_mut_pre :: "'v flat_map \<Rightarrow> u64 \<Rightarrow> bytes \<Rightarrow> ('v \<Rightarrow> 'v) \<Rightarrow> 'v flat_map option" where
  "fm_get_mut_pre m hash key f =
     (if fm_slots m = [] then Some m
      else do {
        (i, found) \<leftarrow> fm_probe (fm_slots m) (fm_mask m) hash key (unat hash AND fm_mask m);
        Some (case found of
            None \<Rightarrow> m
          | Some e \<Rightarrow>
              m\<lparr>fm_slots := (fm_slots m)[i := Some (e\<lparr>e_value := f (e_value e)\<rparr>)]\<rparr>)
      })"

definition fm_get_mut :: "'v flat_map \<Rightarrow> bytes \<Rightarrow> ('v \<Rightarrow> 'v) \<Rightarrow> 'v flat_map option" where
  "fm_get_mut m key f = fm_get_mut_pre m (fm_hash_key m key) key f"

definition fm_contains_key :: "'v flat_map \<Rightarrow> bytes \<Rightarrow> bool option" where
  "fm_contains_key m key = do { r \<leftarrow> fm_get m key; Some (r \<noteq> None) }"

text \<open>\<^verbatim>\<open>grow\<close>: double the table and re-place every entry by linear probing.\<close>

partial_function (option) fm_free ::
  "'v fm_entry option list \<Rightarrow> nat \<Rightarrow> nat \<Rightarrow> nat option"
where
  "fm_free sl msk i =
     (case idx sl i of
        None \<Rightarrow> None
      | Some None \<Rightarrow> Some i
      | Some (Some e) \<Rightarrow> fm_free sl msk ((i + 1) AND msk))"

declare fm_free.simps [code]

fun fm_replace_all ::
  "nat \<Rightarrow> 'v fm_entry option list \<Rightarrow> 'v fm_entry option list \<Rightarrow> 'v fm_entry option list option"
where
  "fm_replace_all msk [] sl = Some sl"
| "fm_replace_all msk (None # old) sl = fm_replace_all msk old sl"
| "fm_replace_all msk (Some slot # old) sl =
     do {
       i \<leftarrow> fm_free sl msk (unat (e_hash slot) AND msk);
       fm_replace_all msk old (sl[i := Some slot])
     }"

definition fm_grow :: "'v flat_map \<Rightarrow> 'v flat_map option" where
  "fm_grow m =
     (let new_cap = max (2 * length (fm_slots m)) MIN_CAP in
      do {
        sl \<leftarrow> fm_replace_all (new_cap - 1) (fm_slots m) (replicate new_cap None);
        Some (m\<lparr>fm_slots := sl, fm_mask := new_cap - 1\<rparr>)
      })"

definition fm_insert_pre ::
  "'v flat_map \<Rightarrow> u64 \<Rightarrow> bytes \<Rightarrow> 'v \<Rightarrow> ('v flat_map \<times> 'v option) option" where
  "fm_insert_pre m0 hash key v =
     do {
       m \<leftarrow> (if fm_slots m0 = [] then Some (fm_alloc m0 MIN_CAP)
            else if fm_len m0 \<ge> fm_grow_threshold m0 then fm_grow m0
            else Some m0);
       (i, found) \<leftarrow> fm_probe (fm_slots m) (fm_mask m) hash key (unat hash AND fm_mask m);
       Some (case found of
           None \<Rightarrow>
             (m\<lparr>fm_slots := (fm_slots m)[i := Some \<lparr>e_hash = hash, e_key = key, e_value = v\<rparr>],
                fm_len := fm_len m + 1\<rparr>, None)
         | Some e \<Rightarrow>
             (m\<lparr>fm_slots := (fm_slots m)[i := Some (e\<lparr>e_value := v\<rparr>)]\<rparr>, Some (e_value e)))
     }"

definition fm_insert :: "'v flat_map \<Rightarrow> bytes \<Rightarrow> 'v \<Rightarrow> ('v flat_map \<times> 'v option) option" where
  "fm_insert m key v = fm_insert_pre m (fm_hash_key m key) key v"

definition cyclic_in :: "nat \<Rightarrow> nat \<Rightarrow> nat \<Rightarrow> bool" where
  "cyclic_in a b x = (if a < b then a < x \<and> x \<le> b else x > a \<or> x \<le> b)"

partial_function (option) fm_backward_shift ::
  "nat \<Rightarrow> 'v fm_entry option list \<Rightarrow> nat \<Rightarrow> nat \<Rightarrow> 'v fm_entry option list option"
where
  "fm_backward_shift msk sl hole i0 =
     (let i = (i0 + 1) AND msk in
      case idx sl i of
        None \<Rightarrow> None
      | Some None \<Rightarrow> Some sl
      | Some (Some e) \<Rightarrow>
          let ideal = unat (e_hash e) AND msk in
          if \<not> cyclic_in hole i ideal
          then fm_backward_shift msk (sl[hole := sl ! i, i := None]) i i
          else fm_backward_shift msk sl hole i)"

declare fm_backward_shift.simps [code]

definition fm_remove_pre ::
  "'v flat_map \<Rightarrow> u64 \<Rightarrow> bytes \<Rightarrow> ('v flat_map \<times> 'v option) option" where
  "fm_remove_pre m hash key =
     (if fm_slots m = [] then Some (m, None)
      else do {
        (i, found) \<leftarrow> fm_probe (fm_slots m) (fm_mask m) hash key (unat hash AND fm_mask m);
        (case found of
           None \<Rightarrow> Some (m, None)
         | Some e \<Rightarrow> do {
             n \<leftarrow> usub (fm_len m) 1;
             sl \<leftarrow> fm_backward_shift (fm_mask m) ((fm_slots m)[i := None]) i i;
             Some (m\<lparr>fm_slots := sl, fm_len := n\<rparr>, Some (e_value e))
           })
      })"

definition fm_remove :: "'v flat_map \<Rightarrow> bytes \<Rightarrow> ('v flat_map \<times> 'v option) option" where
  "fm_remove m key = fm_remove_pre m (fm_hash_key m key) key"

text \<open>\<^verbatim>\<open>iter\<close>: the occupied slots in table order.\<close>

definition fm_entries :: "'v fm_entry option list \<Rightarrow> 'v fm_entry list" where
  "fm_entries sl = map the (filter (\<lambda>s. s \<noteq> None) sl)"

definition fm_iter :: "'v flat_map \<Rightarrow> (bytes \<times> 'v) list" where
  "fm_iter m = map (\<lambda>e. (e_key e, e_value e)) (fm_entries (fm_slots m))"

section \<open>Invariant and abstraction\<close>

definition ideal :: "nat \<Rightarrow> 'v fm_entry \<Rightarrow> nat" where
  "ideal n e = unat (e_hash e) mod n"

definition matches :: "u64 \<Rightarrow> bytes \<Rightarrow> 'v fm_entry \<Rightarrow> bool" where
  "matches hash key e \<longleftrightarrow> e_hash e = hash \<and> e_key e = key"

definition chained :: "'v fm_entry option list \<Rightarrow> bool" where
  "chained sl \<longleftrightarrow>
     (\<forall>j < length sl. \<forall>e. sl ! j = Some e \<longrightarrow>
        (\<forall>x < length sl. cdist (length sl) (ideal (length sl) e) x
            < cdist (length sl) (ideal (length sl) e) j \<longrightarrow> sl ! x \<noteq> None))"

definition keys_ok :: "(bytes \<Rightarrow> u64) \<Rightarrow> 'v fm_entry list \<Rightarrow> bool" where
  "keys_ok h es \<longleftrightarrow> distinct (map e_key es) \<and> (\<forall>e \<in> set es. e_hash e = h (e_key e))"

definition table_ok :: "'v flat_map \<Rightarrow> bool" where
  "table_ok m \<longleftrightarrow> pow2 (length (fm_slots m)) \<and> MIN_CAP \<le> length (fm_slots m)
     \<and> fm_mask m = length (fm_slots m) - 1 \<and> chained (fm_slots m)"

definition fm_inv :: "'v flat_map \<Rightarrow> bool" where
  "fm_inv m \<longleftrightarrow> keys_ok (fm_hasher m) (fm_entries (fm_slots m))
     \<and> fm_len m = length (fm_entries (fm_slots m))
     \<and> (fm_slots m = [] \<or> table_ok m \<and> fm_len m \<le> fm_grow_threshold m)"

definition kv :: "'v fm_entry \<Rightarrow> bytes \<times> 'v" where
  "kv e = (e_key e, e_value e)"

definition fm_map :: "'v flat_map \<Rightarrow> bytes \<rightharpoonup> 'v" where
  "fm_map m = map_of (fm_iter m)"

subsection \<open>Entries of a slot array\<close>

lemma fm_entries_simps [simp]:
  "fm_entries [] = []"
  "fm_entries (None # sl) = fm_entries sl"
  "fm_entries (Some e # sl) = e # fm_entries sl"
  "fm_entries (sl @ sl') = fm_entries sl @ fm_entries sl'"
  "fm_entries (replicate n None) = []"
  by (simp_all add: fm_entries_def)

lemma set_fm_entries: "e \<in> set (fm_entries sl) \<longleftrightarrow> Some e \<in> set sl"
  by (force simp: fm_entries_def)

lemma fm_entries_nth: "j < length sl \<Longrightarrow> sl ! j = Some e \<Longrightarrow> e \<in> set (fm_entries sl)"
  by (metis nth_mem set_fm_entries)

lemma fm_entries_mset: "mset sl = mset sl' \<Longrightarrow> mset (fm_entries sl) = mset (fm_entries sl')"
  by (simp add: fm_entries_def flip: mset_map mset_filter) (simp add: mset_map mset_filter)

lemma fm_entries_split:
  assumes "j < length sl"
  obtains us vs where "\<forall>s. fm_entries (sl[j := s]) = us @ fm_entries [s] @ vs"
    "fm_entries sl = us @ fm_entries [sl ! j] @ vs"
proof
  show upd: "\<forall>s. fm_entries (sl[j := s])
      = fm_entries (take j sl) @ fm_entries [s] @ fm_entries (drop (Suc j) sl)"
    using assms by (simp add: upd_conv_take_nth_drop flip: fm_entries_simps(4))
  show "fm_entries sl = fm_entries (take j sl) @ fm_entries [sl ! j] @ fm_entries (drop (Suc j) sl)"
    using spec [OF upd, of "sl ! j"] by simp
qed

lemma fm_entries_length: "length (fm_entries sl) \<le> length sl"
  by (simp add: fm_entries_def)

lemma fm_entries_vacant:
  assumes "length (fm_entries sl) < length sl"
  obtains z where "z < length sl" "sl ! z = None"
proof -
  have "None \<in> set sl"
  proof (rule ccontr)
    assume "None \<notin> set sl"
    then have "filter (\<lambda>s. s \<noteq> None) sl = sl" by (metis (mono_tags, lifting) filter_True)
    with assms show False by (simp add: fm_entries_def)
  qed
  then show ?thesis using that by (auto simp: in_set_conv_nth)
qed

lemma fm_iter_kv: "fm_iter m = map kv (fm_entries (fm_slots m))"
  by (simp add: fm_iter_def kv_def)

lemma map_kv_fst: "map fst (map kv es) = map e_key es"
  by (simp add: kv_def comp_def)

lemma keys_ok_mset: "mset es = mset es' \<Longrightarrow> keys_ok h es = keys_ok h es'"
  unfolding keys_ok_def
  by (metis mset_eq_imp_distinct_iff mset_eq_setD mset_map)

lemma map_kv_mset:
  assumes "keys_ok h es" "mset es = mset es'"
  shows "map_of (map kv es) = map_of (map kv es')"
proof -
  have "keys_ok h es'" using assms keys_ok_mset by blast
  then have "distinct (map fst (map kv es))" "distinct (map fst (map kv es'))"
    using assms(1) unfolding map_kv_fst keys_ok_def by simp_all
  moreover have "set (map kv es) = set (map kv es')"
    using assms(2) by (metis mset_eq_setD list.set_map)
  ultimately show ?thesis by (simp add: map_of_inject_set)
qed

subsection \<open>Probing\<close>

definition probed :: "'v fm_entry option list \<Rightarrow> ('v fm_entry \<Rightarrow> bool) \<Rightarrow> nat \<Rightarrow> nat \<Rightarrow> bool" where
  "probed sl P a i \<longleftrightarrow> i < length sl \<and>
     (\<forall>x < length sl. cdist (length sl) a x < cdist (length sl) a i \<longrightarrow>
        (\<exists>e. sl ! x = Some e \<and> \<not> P e))"

lemma probed_start: "a < length sl \<Longrightarrow> probed sl P a a"
  by (simp add: probed_def)

lemma probed_step:
  assumes "probed sl P a i" "a < length sl" "sl ! i = Some e" "\<not> P e"
    and z: "z < length sl" "sl ! z = None"
  shows "probed sl P a (csucc (length sl) i)"
    and "Suc (cdist (length sl) (csucc (length sl) i) z) = cdist (length sl) i z"
proof -
  let ?n = "length sl"
  have i: "i < ?n" and "i \<noteq> z" using assms by (auto simp: probed_def)
  have "\<not> cdist ?n a z < cdist ?n a i" using assms by (auto simp: probed_def)
  moreover have "cdist ?n a z \<noteq> cdist ?n a i"
    using cdist_inj assms(2) i z(1) \<open>i \<noteq> z\<close> by metis
  ultimately have "cdist ?n a i < cdist ?n a z" by simp
  from cdist_csucc [OF assms(2) i z(1) this]
  have eq: "cdist ?n a (csucc ?n i) = Suc (cdist ?n a i)" .
  show "probed sl P a (csucc ?n i)" unfolding probed_def eq
  proof (intro conjI allI impI)
    fix x assume x: "x < ?n" "cdist ?n a x < Suc (cdist ?n a i)"
    then consider "cdist ?n a x < cdist ?n a i" | "x = i"
      using cdist_inj [OF assms(2) x(1) i] by linarith
    then show "\<exists>e. sl ! x = Some e \<and> \<not> P e"
      using assms(1,3,4) x(1) by cases (auto simp: probed_def)
  qed (use i in simp)
  show "Suc (cdist ?n (csucc ?n i) z) = cdist ?n i z"
    by (rule cdist_csucc_closer [OF i z(1) \<open>i \<noteq> z\<close>])
qed

lemma fm_probe_returns:
  assumes n: "pow2 (length sl)" and a: "a < length sl" and z: "z < length sl" "sl ! z = None"
  shows "probed sl (matches hash key) a i \<Longrightarrow>
    returns (fm_probe sl (length sl - 1) hash key i)
      (\<lambda>(j, found). probed sl (matches hash key) a j \<and> sl ! j = found \<and>
         (\<forall>e. found = Some e \<longrightarrow> matches hash key e))"
proof (induction "cdist (length sl) i z" arbitrary: i rule: less_induct)
  case less
  then have i: "i < length sl" by (simp add: probed_def)
  show ?case
  proof (cases "sl ! i")
    case None
    with less.prems i show ?thesis by (subst fm_probe.simps) simp
  next
    case (Some e)
    show ?thesis
    proof (cases "matches hash key e")
      case True
      with Some less.prems i show ?thesis by (subst fm_probe.simps) (simp add: matches_def)
    next
      case False
      note st = probed_step [OF less.prems a Some False z]
      have "cdist (length sl) (csucc (length sl) i) z < cdist (length sl) i z" using st(2) by simp
      from less.hyps [OF this st(1)] Some False i show ?thesis
        by (subst fm_probe.simps) (auto simp: matches_def mask_csucc [OF n i, simplified])
    qed
  qed
qed

lemma fm_free_returns:
  assumes n: "pow2 (length sl)" and a: "a < length sl" and z: "z < length sl" "sl ! z = None"
  shows "probed sl (\<lambda>_. False) a i \<Longrightarrow>
    returns (fm_free sl (length sl - 1) i) (\<lambda>j. probed sl (\<lambda>_. False) a j \<and> sl ! j = None)"
proof (induction "cdist (length sl) i z" arbitrary: i rule: less_induct)
  case less
  then have i: "i < length sl" by (simp add: probed_def)
  show ?case
  proof (cases "sl ! i")
    case None
    with less.prems i show ?thesis by (subst fm_free.simps) simp
  next
    case (Some e)
    note st = probed_step [OF less.prems a Some _ z]
    have "cdist (length sl) (csucc (length sl) i) z < cdist (length sl) i z" using st(2) by simp
    from less.hyps [OF this st(1)] Some i show ?thesis
      by (subst fm_free.simps) (simp add: mask_csucc [OF n i, simplified])
  qed
qed

subsection \<open>Lookup\<close>

lemma table_vacant:
  assumes "table_ok m" "fm_len m = length (fm_entries (fm_slots m))" "fm_len m \<le> fm_grow_threshold m"
  obtains z where "z < length (fm_slots m)" "fm_slots m ! z = None"
proof (rule fm_entries_vacant)
  have "fm_grow_threshold m < length (fm_slots m)"
    using assms(1) unfolding table_ok_def fm_grow_threshold_def MIN_CAP_def LOAD_DEN_def LOAD_NUM_def
    by linarith
  with assms show "length (fm_entries (fm_slots m)) < length (fm_slots m)" by linarith
qed

definition found_at :: "'v fm_entry option list \<Rightarrow> (bytes \<Rightarrow> u64) \<Rightarrow> bytes \<Rightarrow> nat \<Rightarrow> 'v fm_entry option \<Rightarrow> bool" where
  "found_at sl h key j found \<longleftrightarrow>
     probed sl (matches (h key) key) (unat (h key) mod length sl) j \<and> sl ! j = found \<and>
     (case found of None \<Rightarrow> key \<notin> e_key ` set (fm_entries sl) | Some e \<Rightarrow> matches (h key) key e)"

lemma chainedD:
  "chained sl \<Longrightarrow> j < length sl \<Longrightarrow> sl ! j = Some e \<Longrightarrow> x < length sl \<Longrightarrow>
   cdist (length sl) (ideal (length sl) e) x < cdist (length sl) (ideal (length sl) e) j \<Longrightarrow>
   sl ! x \<noteq> None"
  unfolding chained_def by blast

lemma probed_absent:
  assumes "chained sl" "keys_ok h (fm_entries sl)" "0 < length sl"
    and pr: "probed sl (matches (h key) key) (unat (h key) mod length sl) j" and "sl ! j = None"
  shows "key \<notin> e_key ` set (fm_entries sl)"
proof
  let ?n = "length sl" and ?a = "unat (h key) mod length sl"
  assume "key \<in> e_key ` set (fm_entries sl)"
  then obtain e where e: "e \<in> set (fm_entries sl)" "e_key e = key" by auto
  then obtain y where y: "y < ?n" "sl ! y = Some e"
    by (meson set_fm_entries in_set_conv_nth)
  have hash: "e_hash e = h key" using assms(2) e by (auto simp: keys_ok_def)
  then have a: "ideal ?n e = ?a" by (simp add: ideal_def)
  have "\<not> cdist ?n ?a y < cdist ?n ?a j"
    using pr y e(2) hash by (auto simp: probed_def matches_def)
  moreover have "\<not> cdist ?n ?a j < cdist ?n ?a y"
    using chainedD [OF assms(1) y, of j] pr \<open>sl ! j = None\<close> unfolding a probed_def by blast
  ultimately have "y = j"
    using cdist_inj [of ?a ?n y j] y(1) pr assms(3) by (auto simp: probed_def)
  with y(2) \<open>sl ! j = None\<close> show False by simp
qed

lemma fm_probe_table:
  assumes "table_ok m" "keys_ok (fm_hasher m) (fm_entries (fm_slots m))"
    and z: "z < length (fm_slots m)" "fm_slots m ! z = None"
  shows "returns (fm_probe (fm_slots m) (fm_mask m) (fm_hasher m key) key
            (unat (fm_hasher m key) AND fm_mask m))
           (\<lambda>(j, found). found_at (fm_slots m) (fm_hasher m) key j found)"
proof -
  let ?sl = "fm_slots m" and ?h = "fm_hasher m key"
  have n: "pow2 (length ?sl)" and msk: "fm_mask m = length ?sl - 1" and ch: "chained ?sl"
    using assms(1) by (auto simp: table_ok_def)
  have start: "unat ?h AND fm_mask m = unat ?h mod length ?sl"
    by (simp only: msk pow2_mask [OF n])
  have a: "unat ?h mod length ?sl < length ?sl" using pow2_pos [OF n] by simp
  have absent: "key \<notin> e_key ` set (fm_entries ?sl)"
    if "probed ?sl (matches ?h key) (unat ?h mod length ?sl) j" "?sl ! j = None" for j
    by (rule probed_absent [OF ch assms(2) _ that]) (use z(1) in linarith)
  show ?thesis unfolding start unfolding msk
    by (rule returns_conseq [OF fm_probe_returns [OF n a z probed_start [OF a]]])
       (use absent in \<open>force simp: found_at_def split: option.splits\<close>)
qed

lemma fm_inv_keys [simp]: "fm_inv m \<Longrightarrow> keys_ok (fm_hasher m) (fm_entries (fm_slots m))"
  by (simp add: fm_inv_def)

lemma fm_inv_probe:
  assumes "fm_inv m" "fm_slots m \<noteq> []"
  shows "returns (fm_probe (fm_slots m) (fm_mask m) (fm_hasher m key) key
            (unat (fm_hasher m key) AND fm_mask m))
           (\<lambda>(j, found). found_at (fm_slots m) (fm_hasher m) key j found)"
proof -
  from assms have t: "table_ok m" "fm_len m = length (fm_entries (fm_slots m))"
      "fm_len m \<le> fm_grow_threshold m" by (auto simp: fm_inv_def)
  obtain z where "z < length (fm_slots m)" "fm_slots m ! z = None" using table_vacant [OF t] .
  then show ?thesis using fm_probe_table [OF t(1)] assms(1) by (simp add: fm_inv_def)
qed

lemma map_of_kv_None: "key \<notin> e_key ` set es \<Longrightarrow> map_of (map kv es) key = None"
  by (force simp: map_of_eq_None_iff kv_def)

lemma map_of_kv_Some: "keys_ok h es \<Longrightarrow> e \<in> set es \<Longrightarrow> map_of (map kv es) (e_key e) = Some (e_value e)"
  by (rule map_of_is_SomeI) (auto simp: keys_ok_def kv_def comp_def)

lemma found_at_map:
  assumes "found_at (fm_slots m) (fm_hasher m) key j found" "keys_ok (fm_hasher m) (fm_entries (fm_slots m))"
  shows "fm_map m key = map_option e_value found"
proof (cases found)
  case None
  with assms(1) show ?thesis by (simp add: found_at_def fm_map_def fm_iter_kv map_of_kv_None)
next
  case (Some e)
  with assms(1) have "e \<in> set (fm_entries (fm_slots m))" "e_key e = key"
    by (auto simp: found_at_def probed_def matches_def intro: fm_entries_nth)
  with assms(2) Some map_of_kv_Some show ?thesis by (force simp: fm_map_def fm_iter_kv)
qed

lemma fm_map_Nil: "fm_slots m = [] \<Longrightarrow> fm_map m = Map.empty"
  by (simp add: fm_map_def fm_iter_def)

lemma fm_get_eq: "fm_inv m \<Longrightarrow> fm_get m key = Some (fm_map m key)"
proof (cases "fm_slots m = []")
  case True
  then show ?thesis by (simp add: fm_get_def fm_get_pre_def fm_map_Nil)
next
  case False
  assume inv: "fm_inv m"
  obtain j found where "fm_probe (fm_slots m) (fm_mask m) (fm_hasher m key) key
      (unat (fm_hasher m key) AND fm_mask m) = Some (j, found)"
    and "found_at (fm_slots m) (fm_hasher m) key j found"
    using fm_inv_probe [OF inv False, of key] by (auto elim: returnsE)
  then show ?thesis
    using inv False found_at_map [of m key j found]
    by (simp add: fm_get_def fm_get_pre_def fm_hash_key_def)
qed

subsection \<open>Changing one slot\<close>

lemma chained_fill:
  assumes "chained sl" "j < length sl"
    and "\<And>x. x < length sl \<Longrightarrow> cdist (length sl) (ideal (length sl) e) x
           < cdist (length sl) (ideal (length sl) e) j \<Longrightarrow> sl ! x \<noteq> None"
  shows "chained (sl[j := Some e])"
  using assms unfolding chained_def by (auto simp: nth_list_update)

lemma keys_ok_replace:
  "keys_ok h (us @ e # vs) \<Longrightarrow> e_key e' = e_key e \<Longrightarrow> e_hash e' = e_hash e \<Longrightarrow> keys_ok h (us @ e' # vs)"
  by (auto simp: keys_ok_def)

lemma map_of_kv_insert:
  assumes "e_key e \<notin> e_key ` set us"
  shows "map_of (map kv (us @ e # vs)) = (map_of (map kv (us @ vs)))(e_key e \<mapsto> e_value e)"
proof -
  have "e_key e \<notin> dom (map_of (map kv us))" using map_of_kv_None [OF assms] by auto
  then show ?thesis by (simp add: kv_def [of e] map_add_upd_left)
qed

lemma map_of_kv_remove:
  assumes "keys_ok h (us @ e # vs)"
  shows "map_of (map kv (us @ vs)) = (map_of (map kv (us @ e # vs)))(e_key e := None)"
proof -
  have "e_key e \<notin> e_key ` set (us @ vs)" and us: "e_key e \<notin> e_key ` set us"
    using assms by (force simp: keys_ok_def)+
  from map_of_kv_None [OF this(1)] have "map_of (map kv (us @ vs)) (e_key e) = None" .
  then show ?thesis by (simp only: map_of_kv_insert [OF us] fun_upd_upd fun_upd_idem)
qed

lemma found_at_set_value:
  fixes v :: 'v
  assumes inv: "fm_inv m" and at: "found_at (fm_slots m) (fm_hasher m) key j (Some e)"
  defines "m' \<equiv> m\<lparr>fm_slots := (fm_slots m)[j := Some (e\<lparr>e_value := v\<rparr>)]\<rparr>"
  shows "fm_inv m' \<and> fm_map m' = (fm_map m)(key \<mapsto> v)"
proof -
  let ?e = "e\<lparr>e_value := v\<rparr>"
  have j: "j < length (fm_slots m)" "fm_slots m ! j = Some e" and key: "e_key e = key"
    using at by (auto simp: found_at_def probed_def matches_def)
  obtain us vs where upd: "\<forall>s. fm_entries ((fm_slots m)[j := s]) = us @ fm_entries [s] @ vs"
    and old: "fm_entries (fm_slots m) = us @ fm_entries [fm_slots m ! j] @ vs"
    by (rule fm_entries_split [OF j(1)])
  have keys: "keys_ok (fm_hasher m) (us @ e # vs)" using inv old j(2) by (simp add: fm_inv_def)
  then have us: "e_key ?e \<notin> e_key ` set us" by (auto simp: keys_ok_def)
  have "chained (fm_slots m) \<Longrightarrow> chained ((fm_slots m)[j := Some ?e])"
    by (rule chained_fill) (use chainedD j in \<open>auto simp: ideal_def\<close>)
  then have "fm_inv m'"
    using inv old spec [OF upd, of "Some ?e"] j(2) keys_ok_replace [OF keys, of ?e]
    by (auto simp: fm_inv_def table_ok_def fm_grow_threshold_def m'_def)
  moreover have "fm_map m' = (fm_map m)(key \<mapsto> v)"
    using old spec [OF upd, of "Some ?e"] j(2) map_of_kv_insert [of e us vs] map_of_kv_insert [of ?e us vs] us key
    by (simp add: fm_map_def fm_iter_kv m'_def)
  ultimately show ?thesis by simp
qed

lemma fm_get_mut_returns:
  assumes inv: "fm_inv m"
  shows "returns (fm_get_mut m key f)
    (\<lambda>m'. fm_inv m' \<and> fm_map m' = (fm_map m)(key := map_option f (fm_map m key)))"
proof (cases "fm_slots m = []")
  case True
  with inv show ?thesis by (simp add: fm_get_mut_def fm_get_mut_pre_def fm_map_Nil fun_eq_iff)
next
  case False
  note keys = fm_inv_keys [OF inv]
  show ?thesis using False
    by (simp add: fm_get_mut_def fm_get_mut_pre_def fm_hash_key_def)
       (rule returns_bindI [OF fm_inv_probe [OF inv False]],
        use found_at_map [OF _ keys] found_at_set_value [OF inv] inv in
          \<open>auto simp: fun_upd_idem split: option.splits\<close>)
qed

subsection \<open>Growth\<close>

lemma fm_replace_all_returns:
  assumes "pow2 (length sl)" "chained sl"
    "length (fm_entries sl) + length (fm_entries old) < length sl"
  shows "returns (fm_replace_all (length sl - 1) old sl)
    (\<lambda>sl'. length sl' = length sl \<and> chained sl' \<and>
       mset (fm_entries sl') = mset (fm_entries sl) + mset (fm_entries old))"
  using assms
proof (induction "length sl - 1" old sl rule: fm_replace_all.induct)
  case (3 slot old sl)
  let ?n = "length sl"
  have n: "pow2 ?n" using "3.prems" by simp
  have start: "unat (e_hash slot) AND (?n - 1) = ideal ?n slot"
    by (simp only: pow2_mask [OF n] ideal_def)
  have a: "ideal ?n slot < ?n" using pow2_pos [OF n] by (simp add: ideal_def)
  obtain z where z: "z < ?n" "sl ! z = None"
    by (rule fm_entries_vacant [of sl]) (use "3.prems"(3) in auto)
  obtain j where free: "fm_free sl (?n - 1) (unat (e_hash slot) AND (?n - 1)) = Some j"
    and pr: "probed sl (\<lambda>_. False) (ideal ?n slot) j" and j: "sl ! j = None"
    using fm_free_returns [OF n a z probed_start [OF a]] unfolding start by (auto elim: returnsE)
  have jn: "j < ?n" using pr by (simp add: probed_def)
  have ch: "chained (sl[j := Some slot])"
    by (rule chained_fill [OF "3.prems"(2) jn]) (use pr in \<open>auto simp: probed_def\<close>)
  obtain us vs where upd: "\<forall>s. fm_entries (sl[j := s]) = us @ fm_entries [s] @ vs"
    and old: "fm_entries sl = us @ fm_entries [sl ! j] @ vs"
    by (rule fm_entries_split [OF jn])
  have es: "mset (fm_entries (sl[j := Some slot])) = add_mset slot (mset (fm_entries sl))"
    and len: "length (fm_entries (sl[j := Some slot])) = Suc (length (fm_entries sl))"
    using spec [OF upd, of "Some slot"] old j by simp_all
  have "returns (fm_replace_all (?n - 1) old (sl[j := Some slot]))
    (\<lambda>sl'. length sl' = length (sl[j := Some slot]) \<and> chained sl' \<and>
       mset (fm_entries sl') = mset (fm_entries (sl[j := Some slot])) + mset (fm_entries old))"
    using "3.hyps" [of j] free ch n "3.prems"(3) len by simp
  then show ?case using free es by (simp del: One_nat_def)
qed auto

lemma chained_replicate [simp]: "chained (replicate n None)"
  by (simp add: chained_def)

lemma fm_grow_returns:
  assumes inv: "fm_inv m" and ne: "fm_slots m \<noteq> []"
  shows "returns (fm_grow m) (\<lambda>m'. fm_hasher m' = fm_hasher m \<and> fm_len m' = fm_len m \<and>
     length (fm_slots m') = 2 * length (fm_slots m) \<and> table_ok m' \<and>
     mset (fm_entries (fm_slots m')) = mset (fm_entries (fm_slots m)))"
proof -
  let ?n = "2 * length (fm_slots m)"
  have t: "table_ok m" using inv ne by (simp add: fm_inv_def)
  then have n: "pow2 ?n" "MIN_CAP \<le> ?n" and cap: "max ?n MIN_CAP = ?n"
    by (auto simp: table_ok_def pow2_double)
  have "length (fm_entries (fm_slots m)) < ?n"
    using fm_entries_length [of "fm_slots m"] ne
    by (metis le_less_trans length_greater_0_conv less_add_same_cancel1 mult_2)
  then show ?thesis unfolding fm_grow_def cap Let_def
    by (intro returns_bindI [OF fm_replace_all_returns [of "replicate ?n None", simplified length_replicate]])
       (use n in \<open>auto simp: table_ok_def\<close>)
qed

subsection \<open>Insertion\<close>

text \<open>What \<^verbatim>\<open>insert_pre\<close> needs of the table it probes: room for one more entry.\<close>

definition roomy :: "'v flat_map \<Rightarrow> bool" where
  "roomy m \<longleftrightarrow> keys_ok (fm_hasher m) (fm_entries (fm_slots m)) \<and> table_ok m
     \<and> fm_len m = length (fm_entries (fm_slots m)) \<and> fm_len m < fm_grow_threshold m"

lemma roomy_prepare:
  assumes inv: "fm_inv m"
  shows "returns (if fm_slots m = [] then Some (fm_alloc m MIN_CAP)
            else if fm_len m \<ge> fm_grow_threshold m then fm_grow m else Some m)
     (\<lambda>m'. roomy m' \<and> fm_hasher m' = fm_hasher m \<and> fm_map m' = fm_map m)"
proof (cases "fm_slots m = []")
  case True
  with inv show ?thesis
    by (auto simp: roomy_def fm_alloc_def fm_inv_def table_ok_def fm_map_def fm_iter_def
        fm_grow_threshold_def MIN_CAP_def LOAD_DEN_def LOAD_NUM_def pow2_16)
next
  case False
  then have t: "table_ok m" "fm_len m = length (fm_entries (fm_slots m))"
      "fm_len m \<le> fm_grow_threshold m" using inv by (auto simp: fm_inv_def)
  show ?thesis
  proof (cases "fm_len m \<ge> fm_grow_threshold m")
    case grow: True
    have "roomy m' \<and> fm_hasher m' = fm_hasher m \<and> fm_map m' = fm_map m"
      if m': "fm_hasher m' = fm_hasher m" "fm_len m' = fm_len m"
        "length (fm_slots m') = 2 * length (fm_slots m)" "table_ok m'"
        and es: "mset (fm_entries (fm_slots m')) = mset (fm_entries (fm_slots m))" for m'
    proof -
      have "fm_len m < fm_grow_threshold m'"
        using t(1,3) m'(3) unfolding table_ok_def fm_grow_threshold_def LOAD_DEN_def LOAD_NUM_def MIN_CAP_def
        by linarith
      moreover have "length (fm_entries (fm_slots m')) = length (fm_entries (fm_slots m))"
        using es by (metis size_mset)
      ultimately show ?thesis
        using m' t(2) inv keys_ok_mset [OF es]
          map_kv_mset [OF keys_ok_mset [OF es, THEN iffD2, OF fm_inv_keys [OF inv]] es]
        by (auto simp: roomy_def fm_map_def fm_iter_kv)
    qed
    then show ?thesis using False grow by (auto intro: returns_conseq [OF fm_grow_returns [OF inv False]])
  next
    case False
    with \<open>fm_slots m \<noteq> []\<close> t inv show ?thesis by (simp add: roomy_def)
  qed
qed

lemma roomy_insert:
  fixes v :: 'v
  assumes "roomy m" "found_at (fm_slots m) (fm_hasher m) key j None"
  defines "e \<equiv> \<lparr>e_hash = fm_hasher m key, e_key = key, e_value = v\<rparr>"
  defines "m' \<equiv> m\<lparr>fm_slots := (fm_slots m)[j := Some e], fm_len := fm_len m + 1\<rparr>"
  shows "fm_inv m' \<and> fm_map m' = (fm_map m)(key \<mapsto> v)"
proof -
  have j: "j < length (fm_slots m)" "fm_slots m ! j = None"
    and new: "key \<notin> e_key ` set (fm_entries (fm_slots m))"
    using assms(2) by (auto simp: found_at_def probed_def)
  obtain us vs where upd: "\<forall>s. fm_entries ((fm_slots m)[j := s]) = us @ fm_entries [s] @ vs"
    and old: "fm_entries (fm_slots m) = us @ fm_entries [fm_slots m ! j] @ vs"
    by (rule fm_entries_split [OF j(1)])
  have es: "fm_entries (fm_slots m') = us @ e # vs" "fm_entries (fm_slots m) = us @ vs"
    using spec [OF upd, of "Some e"] old j(2) by (simp_all add: m'_def)
  have ch: "chained ((fm_slots m)[j := Some e])"
    by (rule chained_fill)
       (use assms(1,2) j(1) in \<open>auto simp: roomy_def table_ok_def found_at_def probed_def ideal_def e_def\<close>)
  have "e_key e \<notin> e_key ` set us" using new es(2) by (auto simp: e_def)
  from map_of_kv_insert [OF this, of vs]
  have "fm_map m' = (fm_map m)(key \<mapsto> v)" by (simp add: fm_map_def fm_iter_kv es e_def)
  moreover have "keys_ok (fm_hasher m) (us @ e # vs)"
    using assms(1) new unfolding roomy_def keys_ok_def es(2) by (auto simp: e_def)
  ultimately show ?thesis
    using assms(1) es ch by (auto simp: fm_inv_def roomy_def table_ok_def fm_grow_threshold_def m'_def)
qed

lemma roomy_inv: "roomy m \<Longrightarrow> fm_inv m"
  by (auto simp: roomy_def fm_inv_def)

lemma roomy_nonempty: "roomy m \<Longrightarrow> fm_slots m \<noteq> []"
  by (auto simp: roomy_def fm_grow_threshold_def)

lemma fm_insert_returns:
  assumes inv: "fm_inv m0"
  shows "returns (fm_insert m0 key v)
    (\<lambda>(m', old). fm_inv m' \<and> fm_map m' = (fm_map m0)(key \<mapsto> v) \<and> old = fm_map m0 key)"
  unfolding fm_insert_def fm_insert_pre_def fm_hash_key_def
proof (rule returns_bindI [OF roomy_prepare [OF inv]])
  fix m assume m: "roomy m \<and> fm_hasher m = fm_hasher m0 \<and> fm_map m = fm_map m0"
  note keys = fm_inv_keys [OF roomy_inv [OF conjunct1 [OF m]]]
  note probe = fm_inv_probe [OF roomy_inv roomy_nonempty, of m key]
  show "returns (do {
       (i, found) \<leftarrow> fm_probe (fm_slots m) (fm_mask m) (fm_hasher m0 key) key
           (unat (fm_hasher m0 key) AND fm_mask m);
       Some (case found of
           None \<Rightarrow> (m\<lparr>fm_slots := (fm_slots m)[i := Some \<lparr>e_hash = fm_hasher m0 key, e_key = key, e_value = v\<rparr>],
                     fm_len := fm_len m + 1\<rparr>, None)
         | Some e \<Rightarrow> (m\<lparr>fm_slots := (fm_slots m)[i := Some (e\<lparr>e_value := v\<rparr>)]\<rparr>, Some (e_value e)))
     }) (\<lambda>(m', old). fm_inv m' \<and> fm_map m' = (fm_map m0)(key \<mapsto> v) \<and> old = fm_map m0 key)"
    by (rule returns_bindI [OF probe [unfolded m [THEN conjunct2, THEN conjunct1]]])
       (use m found_at_map [OF _ keys] roomy_insert [of m] found_at_set_value [of m] roomy_inv [of m] in
         \<open>auto split: option.splits\<close>)
qed

subsection \<open>Removal\<close>

lemma cyclic_in_rel:
  "hole < n \<Longrightarrow> i < n \<Longrightarrow> a < n \<Longrightarrow> z < n \<Longrightarrow> cdist n z hole < cdist n z i \<Longrightarrow>
   cdist n z a \<le> cdist n z i \<Longrightarrow> cyclic_in hole i a = (cdist n z hole < cdist n z a)"
  unfolding cdist_def cyclic_in_def
  by (cases "z \<le> hole"; cases "z \<le> i"; cases "z \<le> a"; simp; linarith)

text \<open>The loop invariant of \<^verbatim>\<open>backward_shift\<close>, in coordinates relative to a slot \<open>z\<close> that stays empty:
  every entry's chain is unbroken up to the hole, and the entries between the hole and \<open>i\<close>
  do not need the hole.\<close>

definition linked :: "'v fm_entry option list \<Rightarrow> nat \<Rightarrow> nat \<Rightarrow> bool" where
  "linked sl z hole \<longleftrightarrow>
     (\<forall>j < length sl. \<forall>e. sl ! j = Some e \<longrightarrow>
        cdist (length sl) z (ideal (length sl) e) \<le> cdist (length sl) z j \<and>
        (\<forall>x < length sl. cdist (length sl) z (ideal (length sl) e) \<le> cdist (length sl) z x \<longrightarrow>
           cdist (length sl) z x < cdist (length sl) z j \<longrightarrow> sl ! x \<noteq> None \<or> x = hole))"

definition settled :: "'v fm_entry option list \<Rightarrow> nat \<Rightarrow> nat \<Rightarrow> nat \<Rightarrow> bool" where
  "settled sl z hole i \<longleftrightarrow>
     (\<forall>j < length sl. \<forall>e. sl ! j = Some e \<longrightarrow> cdist (length sl) z hole < cdist (length sl) z j \<longrightarrow>
        cdist (length sl) z j \<le> cdist (length sl) z i \<longrightarrow>
        cdist (length sl) z hole < cdist (length sl) z (ideal (length sl) e))"

lemma ideal_less: "0 < n \<Longrightarrow> ideal n e < n"
  by (simp add: ideal_def)

lemma linked_start:
  assumes "chained sl" "z < length sl" "sl ! z = None" "hole < length sl"
  shows "linked (sl[hole := None]) z hole"
  unfolding linked_def
proof (intro allI impI conjI)
  let ?n = "length sl"
  fix j e assume "j < length (sl[hole := None])" "sl[hole := None] ! j = Some e"
  then have j: "j < ?n" "sl ! j = Some e" "z \<noteq> j"
    using assms by (auto simp: nth_list_update split: if_splits)
  have a: "ideal ?n e < ?n" using assms(2) by (intro ideal_less) linarith
  have "\<not> cdist ?n (ideal ?n e) z < cdist ?n (ideal ?n e) j"
    using chainedD [OF assms(1) j(1,2) assms(2)] assms(3) by blast
  then have le: "cdist ?n z (ideal ?n e) \<le> cdist ?n z j"
    by (rule ring_chain_le [OF a j(1) assms(2) j(3)])
  then show "cdist (length (sl[hole := None])) z (ideal (length (sl[hole := None])) e)
      \<le> cdist (length (sl[hole := None])) z j" by simp
  fix x assume x: "x < length (sl[hole := None])"
    "cdist (length (sl[hole := None])) z (ideal (length (sl[hole := None])) e)
       \<le> cdist (length (sl[hole := None])) z x"
    "cdist (length (sl[hole := None])) z x < cdist (length (sl[hole := None])) z j"
  then have "sl ! x \<noteq> None"
    using chainedD [OF assms(1) j(1,2), of x] ring_rel [OF a _ j(1) assms(2) le, of x] by simp
  then show "sl[hole := None] ! x \<noteq> None \<or> x = hole" by auto
qed

lemma linked_finish:
  assumes "linked sl z hole" and n: "z < length sl" "i < length sl" "hole < length sl"
    and stop: "sl ! i = None" "i = z \<or> cdist (length sl) z hole < cdist (length sl) z i"
    and settled: "\<And>j e. j < length sl \<Longrightarrow> sl ! j = Some e \<Longrightarrow> cdist (length sl) z hole < cdist (length sl) z j \<Longrightarrow>
        i = z \<or> cdist (length sl) z j < cdist (length sl) z i \<Longrightarrow>
        cdist (length sl) z hole < cdist (length sl) z (ideal (length sl) e)"
  shows "chained sl"
  unfolding chained_def
proof (intro allI impI)
  let ?n = "length sl"
  fix j e x assume j: "j < ?n" "sl ! j = Some e" and x: "x < ?n"
    and lt: "cdist ?n (ideal ?n e) x < cdist ?n (ideal ?n e) j"
  have a: "ideal ?n e < ?n" using n by (intro ideal_less) linarith
  have le: "cdist ?n z (ideal ?n e) \<le> cdist ?n z j"
    and link: "\<And>y. y < ?n \<Longrightarrow> cdist ?n z (ideal ?n e) \<le> cdist ?n z y \<Longrightarrow> cdist ?n z y < cdist ?n z j \<Longrightarrow>
        sl ! y \<noteq> None \<or> y = hole"
    using assms(1) j unfolding linked_def by auto
  have rx: "cdist ?n z (ideal ?n e) \<le> cdist ?n z x" "cdist ?n z x < cdist ?n z j"
    using lt ring_rel [OF a x j(1) n(1) le] by auto
  show "sl ! x \<noteq> None"
  proof (rule ccontr)
    assume "\<not> sl ! x \<noteq> None"
    then have "x = hole" using link [OF x rx] by simp
    with rx have no: "\<not> (i = z \<or> cdist ?n z j < cdist ?n z i)" using settled [OF j] by force
    then have "cdist ?n z i < cdist ?n z j"
      using j stop(1) cdist_inj [OF n(1) j(1) n(2)] by (metis linorder_cases option.distinct(1))
    moreover have "cdist ?n z hole < cdist ?n z i" using stop(2) no by simp
    ultimately show False using link [OF n(2)] rx \<open>x = hole\<close> stop(1) by fastforce
  qed
qed

lemma linkedD:
  assumes "linked sl z hole" "j < length sl" "sl ! j = Some e"
  shows "cdist (length sl) z (ideal (length sl) e) \<le> cdist (length sl) z j"
    and "x < length sl \<Longrightarrow> cdist (length sl) z (ideal (length sl) e) \<le> cdist (length sl) z x \<Longrightarrow>
       cdist (length sl) z x < cdist (length sl) z j \<Longrightarrow> sl ! x \<noteq> None \<or> x = hole"
  using assms unfolding linked_def by blast+

lemma linked_shift:
  assumes "linked sl z hole" "hole < length sl" "i < length sl" "sl ! hole = None" "sl ! i = Some e"
    and "cdist (length sl) z hole < cdist (length sl) z i"
    and "cdist (length sl) z (ideal (length sl) e) \<le> cdist (length sl) z hole"
  shows "linked (sl[hole := Some e, i := None]) z i"
  unfolding linked_def
proof (intro allI impI conjI)
  let ?n = "length sl" and ?sl = "sl[hole := Some e, i := None]"
  have len: "length ?sl = ?n" by simp
  fix j f assume j: "j < length ?sl" "?sl ! j = Some f"
  have cases: "j = hole \<and> f = e \<or> j < ?n \<and> sl ! j = Some f"
    using j assms(2,3) by (cases "j = i"; cases "j = hole") auto
  then show "cdist (length ?sl) z (ideal (length ?sl) f) \<le> cdist (length ?sl) z j"
    unfolding len using assms(7) linkedD(1) [OF assms(1), of j f] by blast
  fix x assume x: "x < length ?sl" "cdist (length ?sl) z (ideal (length ?sl) f) \<le> cdist (length ?sl) z x"
    "cdist (length ?sl) z x < cdist (length ?sl) z j"
  from cases have "sl ! x \<noteq> None \<or> x = hole"
  proof
    assume moved: "j = hole \<and> f = e"
    then have "cdist ?n z x < cdist ?n z i" using x(3) assms(6) by simp
    then show ?thesis using linkedD(2) [OF assms(1,3,5), of x] x(1,2) moved unfolding len by blast
  next
    assume "j < ?n \<and> sl ! j = Some f"
    then show ?thesis using linkedD(2) [OF assms(1), of j f x] x unfolding len by blast
  qed
  then show "?sl ! x \<noteq> None \<or> x = i"
    using x(1) by (cases "x = i"; cases "x = hole") auto
qed

lemma fm_backward_shift_returns:
  assumes "pow2 (length sl)" "z < length sl" "hole < length sl" "i < length sl"
    and "sl ! z = None" "sl ! hole = None" "hole \<noteq> z"
    and "linked sl z hole" "settled sl z hole i" "cdist (length sl) z hole \<le> cdist (length sl) z i"
  shows "returns (fm_backward_shift (length sl - 1) sl hole i)
     (\<lambda>sl'. length sl' = length sl \<and> chained sl' \<and> mset sl' = mset sl)"
  using assms
proof (induction "length sl - cdist (length sl) z i" arbitrary: sl hole i rule: less_induct)
  case less
  let ?n = "length sl" and ?i = "csucc (length sl) i"
  have next_i: "(i + 1) AND (?n - 1) = ?i" by (rule mask_csucc [OF less.prems(1,4)])
  have i: "?i < ?n" using less.prems(4) by simp
  have adv: "?i = z \<or> cdist ?n z ?i = Suc (cdist ?n z i)" by (rule csucc_rel [OF less.prems(4,2)])
  show ?case
  proof (cases "sl ! ?i")
    case None
    have "chained sl"
    proof (rule linked_finish [OF less.prems(8,2) i less.prems(3) None])
      show "?i = z \<or> cdist ?n z hole < cdist ?n z ?i" using adv less.prems(10) by auto
      fix j e assume j: "j < ?n" "sl ! j = Some e" "cdist ?n z hole < cdist ?n z j"
        "?i = z \<or> cdist ?n z j < cdist ?n z ?i"
      have "cdist ?n z j \<le> cdist ?n z i"
        using j(4) adv csucc_rel_last [OF less.prems(4,2) _ j(1)] by auto
      then show "cdist ?n z hole < cdist ?n z (ideal ?n e)"
        using less.prems(9) j unfolding settled_def by blast
    qed
    with None i show ?thesis by (subst fm_backward_shift.simps) (simp only: next_i, simp)
  next
    case (Some e)
    have nz: "?i \<noteq> z" using Some less.prems(5) by auto
    then have r: "cdist ?n z ?i = Suc (cdist ?n z i)" and lt: "cdist ?n z hole < cdist ?n z ?i"
      using adv less.prems(10) by auto
    have meas: "?n - cdist ?n z ?i < ?n - cdist ?n z i"
      using r cdist_less [OF less.prems(2) i] by linarith
    have a: "ideal ?n e < ?n" using i by (intro ideal_less) linarith
    have ideal: "unat (e_hash e) AND (?n - 1) = ideal ?n e"
      by (simp only: pow2_mask [OF less.prems(1)] ideal_def)
    have le: "cdist ?n z (ideal ?n e) \<le> cdist ?n z ?i"
      using less.prems(8) i Some unfolding linked_def by blast
    note cyc = cyclic_in_rel [OF less.prems(3) i a less.prems(2) lt le]
    show ?thesis
    proof (cases "cyclic_in hole ?i (ideal ?n e)")
      case True
      have settled: "settled sl z hole ?i" unfolding settled_def
      proof (intro allI impI)
        fix j f assume j: "j < ?n" "sl ! j = Some f" "cdist ?n z hole < cdist ?n z j"
          "cdist ?n z j \<le> cdist ?n z ?i"
        show "cdist ?n z hole < cdist ?n z (ideal ?n f)"
        proof (cases "j = ?i")
          case True
          with j(2) Some cyc \<open>cyclic_in hole ?i (ideal ?n e)\<close> show ?thesis by simp
        next
          case False
          then have "cdist ?n z j \<le> cdist ?n z i"
            using cdist_inj [OF less.prems(2) j(1) i] j(4) r by linarith
          then show ?thesis using less.prems(9) j(1-3) unfolding settled_def by blast
        qed
      qed
      from less.hyps [OF meas less.prems(1-3) i less.prems(5-8) settled] lt True Some i show ?thesis
        by (subst fm_backward_shift.simps) (simp only: next_i Let_def idx_Some option.case ideal, simp)
    next
      case False
      let ?sl = "sl[hole := Some e, ?i := None]"
      have ne: "hole \<noteq> ?i" using lt by auto
      have ms: "mset ?sl = mset sl"
        using mset_swap [OF i less.prems(3)] Some less.prems(6) by simp
      have link: "linked ?sl z ?i"
        by (rule linked_shift [OF less.prems(8,3) i less.prems(6) Some lt]) (use False cyc in simp)
      have "returns (fm_backward_shift (length ?sl - 1) ?sl ?i ?i)
         (\<lambda>sl'. length sl' = length ?sl \<and> chained sl' \<and> mset sl' = mset ?sl)"
        by (rule less.hyps) (use meas less.prems(1,2,5,7) i link nz in \<open>auto simp: settled_def nth_list_update\<close>)
      with False Some i ms show ?thesis
        by (subst fm_backward_shift.simps) (simp only: next_i Let_def idx_Some option.case ideal, simp)
    qed
  qed
qed

lemma fm_remove_returns:
  assumes inv: "fm_inv m"
  shows "returns (fm_remove m key)
    (\<lambda>(m', old). fm_inv m' \<and> fm_map m' = (fm_map m)(key := None) \<and> old = fm_map m key)"
proof (cases "fm_slots m = []")
  case True
  with inv show ?thesis by (simp add: fm_remove_def fm_remove_pre_def fm_map_Nil fun_eq_iff)
next
  case False
  from inv False have t: "table_ok m" "fm_len m = length (fm_entries (fm_slots m))"
    "fm_len m \<le> fm_grow_threshold m" and keys: "keys_ok (fm_hasher m) (fm_entries (fm_slots m))"
    by (auto simp: fm_inv_def)
  obtain z where z: "z < length (fm_slots m)" "fm_slots m ! z = None" using table_vacant [OF t] .
  obtain j found where probe: "fm_probe (fm_slots m) (fm_mask m) (fm_hasher m key) key
      (unat (fm_hasher m key) AND fm_mask m) = Some (j, found)"
    and at: "found_at (fm_slots m) (fm_hasher m) key j found"
    using fm_inv_probe [OF inv False, of key] by (auto elim: returnsE)
  note val = found_at_map [OF at keys]
  show ?thesis
  proof (cases found)
    case None
    with inv False probe val show ?thesis
      by (simp add: fm_remove_def fm_remove_pre_def fm_hash_key_def fun_upd_idem)
  next
    case (Some e)
    let ?sl = "(fm_slots m)[j := None]"
    have j: "j < length (fm_slots m)" "fm_slots m ! j = Some e" and key: "e_key e = key"
      using at Some by (auto simp: found_at_def probed_def matches_def)
    obtain us vs where upd: "\<forall>s. fm_entries ((fm_slots m)[j := s]) = us @ fm_entries [s] @ vs"
      and old: "fm_entries (fm_slots m) = us @ fm_entries [fm_slots m ! j] @ vs"
      by (rule fm_entries_split [OF j(1)])
    have es: "fm_entries (fm_slots m) = us @ e # vs" "fm_entries ?sl = us @ vs"
      using old spec [OF upd, of None] j(2) by simp_all
    have "returns (fm_backward_shift (length ?sl - 1) ?sl j j)
        (\<lambda>sl'. length sl' = length ?sl \<and> chained sl' \<and> mset sl' = mset ?sl)"
      by (rule fm_backward_shift_returns [of _ z])
         (use t(1) z j linked_start [OF _ z j(1)] in
           \<open>auto simp: table_ok_def settled_def nth_list_update\<close>)
    then obtain sl' where shift: "fm_backward_shift (fm_mask m) ?sl j j = Some sl'"
      and sl': "length sl' = length (fm_slots m)" "chained sl'" "mset sl' = mset ?sl"
      using t(1) by (auto simp: table_ok_def elim: returnsE)
    let ?m = "m\<lparr>fm_slots := sl', fm_len := fm_len m - 1\<rparr>"
    have ms: "mset (fm_entries sl') = mset (us @ vs)" using fm_entries_mset [OF sl'(3)] es(2) by simp
    have uv: "keys_ok (fm_hasher m) (us @ vs)" using keys es(1) by (auto simp: keys_ok_def)
    have len: "length (fm_entries sl') = length (us @ vs)" using ms by (metis size_mset)
    have keys': "keys_ok (fm_hasher m) (fm_entries sl')" using uv keys_ok_mset [OF ms] by simp
    have "fm_inv ?m"
      using keys' len t sl'(1,2) es(1) False by (auto simp: fm_inv_def table_ok_def fm_grow_threshold_def)
    moreover have "fm_map ?m = (fm_map m)(key := None)"
      using map_kv_mset [OF keys' ms] map_of_kv_remove [OF keys [unfolded es(1)]] key
      by (simp add: fm_map_def fm_iter_kv es(1))
    ultimately show ?thesis
      using False probe Some val shift t(2) es(1)
      by (simp add: fm_remove_def fm_remove_pre_def fm_hash_key_def)
  qed
qed

section \<open>The table implements the map interface\<close>

lemma fm_new_inv [simp]: "fm_inv (fm_new h)" "fm_map (fm_new h) = Map.empty"
  by (simp_all add: fm_inv_def fm_new_def keys_ok_def fm_map_def fm_iter_def)

lemma fm_iter_law: "fm_inv m \<Longrightarrow> distinct (map fst (fm_iter m)) \<and> map_of (fm_iter m) = fm_map m"
  by (simp add: fm_map_def fm_iter_kv kv_def comp_def fm_inv_def keys_ok_def)

lemma fm_len_iter: "fm_inv m \<Longrightarrow> fm_len m = length (fm_iter m)"
  by (simp add: fm_inv_def fm_iter_def)

interpretation fm: byte_map fm_inv fm_map fm_get fm_get_mut fm_insert fm_remove fm_iter fm_len
  by unfold_locales
     (simp_all add: fm_get_eq fm_get_mut_returns fm_insert_returns fm_remove_returns fm_iter_law fm_len_iter)

lemma fm_contains_key_eq: "fm_inv m \<Longrightarrow> fm_contains_key m key = Some (fm_map m key \<noteq> None)"
  by (simp add: fm_contains_key_def fm_get_eq)

subsection \<open>Pre-sizing\<close>

lemma npot_from_pow2: "pow2 p \<Longrightarrow> pow2 (npot_from n p) \<and> n \<le> npot_from n p"
proof (induction n p rule: npot_from.induct)
  case (1 n p)
  then show ?case using pow2_pos [of p] by (subst (1 2) npot_from.simps) (auto simp: pow2_double)
qed

lemma next_power_of_two_ge: "pow2 (next_power_of_two n) \<and> n \<le> next_power_of_two n"
  unfolding next_power_of_two_def by (rule npot_from_pow2) (auto simp: pow2_def intro: exI [of _ 0])

lemma fm_with_capacity_table:
  fixes m :: "'v flat_map"
  assumes "0 < cap" and m: "m = fm_with_capacity h cap"
  shows "roomy m" "fm_len m = 0" "cap < fm_grow_threshold m"
proof -
  let ?r = "max (next_power_of_two (cap * LOAD_DEN div LOAD_NUM + 1)) MIN_CAP"
  have m: "m = fm_alloc (fm_new h) ?r"
    using assms by (simp add: fm_with_capacity_def)
  have p: "pow2 ?r" using next_power_of_two_ge by (simp add: max_def MIN_CAP_def pow2_16)
  have ge: "cap * 8 div 7 + 1 \<le> ?r"
    using next_power_of_two_ge [of "cap * 8 div 7 + 1"] by (simp add: LOAD_DEN_def LOAD_NUM_def max_def)
  have "8 dvd ?r" by (rule pow2_ge_16_dvd [OF p]) (simp add: MIN_CAP_def)
  then obtain q where q: "?r = 8 * q" by blast
  have "fm_grow_threshold m = q * 7"
    unfolding m fm_grow_threshold_def fm_alloc_def q by (simp add: LOAD_DEN_def LOAD_NUM_def)
  moreover have "cap < q * 7" using ge unfolding q by linarith
  ultimately show thr: "cap < fm_grow_threshold m" by simp
  show len: "fm_len m = 0" by (simp add: m fm_alloc_def fm_new_def)
  have "table_ok m" using p by (simp add: m table_ok_def fm_alloc_def)
  then show "roomy m" using thr len
    by (simp add: roomy_def) (simp add: m fm_alloc_def fm_new_def keys_ok_def)
qed

text \<open>An insertion below the threshold keeps the table, and adds at most one entry.\<close>

lemma fm_insert_no_grow:
  assumes "roomy m"
  shows "returns (fm_insert m key v)
    (\<lambda>(m', old). fm_capacity m' = fm_capacity m \<and> fm_len m' \<le> fm_len m + 1)"
proof -
  have "\<not> fm_len m \<ge> fm_grow_threshold m" using assms by (simp add: roomy_def)
  then show ?thesis
    using fm_inv_probe [OF roomy_inv roomy_nonempty, of m key] assms roomy_nonempty [OF assms]
    unfolding fm_insert_def fm_insert_pre_def fm_hash_key_def
    by (auto simp: returns_bind fm_capacity_def split: option.splits elim!: returns_conseq)
qed

lemma fm_capacity_threshold: "fm_capacity m = fm_capacity m' \<Longrightarrow> fm_grow_threshold m = fm_grow_threshold m'"
  by (simp add: fm_capacity_def fm_grow_threshold_def)

fun fm_insert_all :: "'v flat_map \<Rightarrow> (bytes \<times> 'v) list \<Rightarrow> 'v flat_map option" where
  "fm_insert_all m [] = Some m"
| "fm_insert_all m ((k, v) # kvs) = do { (m, old) \<leftarrow> fm_insert m k v; fm_insert_all m kvs }"

lemma fm_insert_all_no_grow:
  "fm_inv m \<Longrightarrow> fm_slots m \<noteq> [] \<Longrightarrow> fm_len m + length kvs \<le> fm_grow_threshold m \<Longrightarrow>
   returns (fm_insert_all m kvs) (\<lambda>m'. fm_inv m' \<and> fm_capacity m' = fm_capacity m)"
proof (induction kvs arbitrary: m)
  case (Cons p kvs)
  obtain k v where p: "p = (k, v)" by force
  have room: "roomy m" using Cons.prems by (auto simp: roomy_def fm_inv_def)
  obtain m' old where ins: "fm_insert m k v = Some (m', old)" and inv: "fm_inv m'"
    using fm_insert_returns [OF Cons.prems(1), of k v] by (auto elim: returnsE)
  have cap: "fm_capacity m' = fm_capacity m" "fm_len m' \<le> fm_len m + 1"
    using fm_insert_no_grow [OF room, of k v] ins by auto
  have "fm_slots m' \<noteq> []" using cap(1) Cons.prems(2) by (auto simp: fm_capacity_def)
  from Cons.IH [OF inv this] Cons.prems(3) cap fm_capacity_threshold [OF cap(1)]
  show ?case by (simp add: p ins)
qed simp

section \<open>Properties\<close>

text \<open>C2: The hash table is a map. On every sequence of insertions, removals and lookups from
  \<^verbatim>\<open>FlatMap::new\<close>, whatever the hash function does (all keys may collide), every call returns (no
  probe or shift loop runs forever, no index is out of range) with the answer a mathematical
  map gives, and the final table holds exactly that map.\<close>

theorem fm_refines_map:
  "\<exists>m. impl_run fm_get fm_insert fm_remove (fm_new h) ops = Some (m, snd (map_run Map.empty ops))
     \<and> fm_map m = fst (map_run Map.empty ops) \<and> fm_len m = card (dom (fst (map_run Map.empty ops)))"
  using fm.run_refines [OF fm_new_inv(1), of h ops] by (auto simp: returns_iff fm.sz_card)

text \<open>Space. After every sequence of operations the table is unallocated and empty, or its
  capacity is a power of two of at least \<^const>\<open>MIN_CAP\<close> with a load of at most 7/8.\<close>

theorem fm_load_bound:
  "\<exists>m rs. impl_run fm_get fm_insert fm_remove (fm_new h) ops = Some (m, rs)
     \<and> (fm_capacity m = 0 \<and> fm_len m = 0
        \<or> pow2 (fm_capacity m) \<and> MIN_CAP \<le> fm_capacity m \<and> fm_len m * LOAD_DEN \<le> fm_capacity m * LOAD_NUM)"
proof -
  obtain m rs where m: "impl_run fm_get fm_insert fm_remove (fm_new h) ops = Some (m, rs)" "fm_inv m"
    using fm.run_refines [OF fm_new_inv(1), of h ops] by (auto simp: returns_iff)
  have "fm_len m * LOAD_DEN \<le> fm_capacity m * LOAD_NUM" if "fm_len m \<le> fm_grow_threshold m"
    using that by (simp add: fm_grow_threshold_def fm_capacity_def LOAD_DEN_def LOAD_NUM_def)
  with m show ?thesis by (auto simp: fm_inv_def table_ok_def fm_capacity_def fm_entries_def)
qed

text \<open>A map made by \<^verbatim>\<open>with_capacity(cap)\<close> takes \<^verbatim>\<open>cap\<close> insertions without resizing.\<close>

theorem fm_with_capacity_no_resize:
  fixes kvs :: "(bytes \<times> 'v) list"
  assumes "0 < cap" "length kvs \<le> cap"
  shows "\<exists>m. fm_insert_all (fm_with_capacity h cap) kvs = Some m
    \<and> fm_capacity m = fm_capacity (fm_with_capacity h cap :: 'v flat_map)"
proof -
  let ?m = "fm_with_capacity h cap :: 'v flat_map"
  have tab: "roomy ?m" "fm_len ?m = 0" "cap < fm_grow_threshold ?m"
    by (rule fm_with_capacity_table [OF assms(1) refl])+
  have "fm_len ?m + length kvs \<le> fm_grow_threshold ?m" using tab(2,3) assms(2) by simp
  from fm_insert_all_no_grow [OF roomy_inv [OF tab(1)] roomy_nonempty [OF tab(1)] this]
  show ?thesis by (auto simp: returns_iff)
qed

theorem fm_with_capacity_no_resize_witness:
  "\<exists>m. fm_insert_all (fm_with_capacity (\<lambda>k. of_nat (length k)) 3) [(''a'', 1), (''b'', 2), (''a'', 3 :: nat)] = Some m
     \<and> fm_capacity m = 16"
proof -
  have "fm_capacity (fm_with_capacity (\<lambda>k. of_nat (length k)) 3 :: nat flat_map) = 16" by code_simp
  then show ?thesis
    using fm_with_capacity_no_resize [of 3 "[(''a'', 1), (''b'', 2), (''a'', 3 :: nat)]" "\<lambda>k. of_nat (length k)"] by simp
qed

end
