(* ===== verification/Policy_Interface.thy ===== *)
theory Policy_Interface
  imports Prelude
begin

text \<open>
  The interface of the eviction policy that \<^verbatim>\<open>store.rs\<close> programs against: a set of tracked keys
  with admission, access recording, removal and the choice of a victim. The laws are
  total-correctness laws over the set \<open>keys p\<close>; \<^verbatim>\<open>s3fifo.rs\<close> satisfies them in theory \<open>S3_Fifo\<close>.
\<close>

text \<open>Evicting \<open>n\<close> times in a row, as the budget loop of the store does; the victims in order.\<close>

fun evict_run :: "('p \<Rightarrow> (bytes option \<times> 'p) option) \<Rightarrow> nat \<Rightarrow> 'p \<Rightarrow> (bytes list \<times> 'p) option" where
  "evict_run evict 0 p = Some ([], p)"
| "evict_run evict (Suc n) p =
     do {
       (victim, p) \<leftarrow> evict p;
       (case victim of
          None \<Rightarrow> Some ([], p)
        | Some k \<Rightarrow> do { (ks, p) \<leftarrow> evict_run evict n p; Some (k # ks, p) })
     }"

locale eviction_policy =
  fixes pinv :: "'p \<Rightarrow> bool"
    and keys :: "'p \<Rightarrow> bytes set"
    and insert_key :: "'p \<Rightarrow> bytes \<Rightarrow> 'p option"
    and touch_key :: "'p \<Rightarrow> bytes \<Rightarrow> 'p option"
    and remove_key :: "'p \<Rightarrow> bytes \<Rightarrow> 'p option"
    and evict :: "'p \<Rightarrow> (bytes option \<times> 'p) option"
    and len :: "'p \<Rightarrow> nat"
  assumes insert_law: "pinv p \<Longrightarrow> k \<notin> keys p \<Longrightarrow>
      returns (insert_key p k) (\<lambda>p'. pinv p' \<and> keys p' = insert k (keys p))"
    and touch_law: "pinv p \<Longrightarrow> returns (touch_key p k) (\<lambda>p'. pinv p' \<and> keys p' = keys p)"
    and remove_law: "pinv p \<Longrightarrow> returns (remove_key p k) (\<lambda>p'. pinv p' \<and> keys p' = keys p - {k})"
    and evict_law: "pinv p \<Longrightarrow> returns (evict p) (\<lambda>(victim, p'). pinv p' \<and>
        (case victim of None \<Rightarrow> keys p = {} \<and> p' = p
         | Some k \<Rightarrow> k \<in> keys p \<and> keys p' = keys p - {k}))"
    and finite_keys: "pinv p \<Longrightarrow> finite (keys p)"
    and len_law: "pinv p \<Longrightarrow> len p = card (keys p)"
begin

lemma insertE:
  assumes "pinv p" "k \<notin> keys p"
  obtains p' where "insert_key p k = Some p'" "pinv p'" "keys p' = insert k (keys p)"
  using insert_law [OF assms] by (auto elim: returnsE)

lemma touchE:
  assumes "pinv p"
  obtains p' where "touch_key p k = Some p'" "pinv p'" "keys p' = keys p"
  using touch_law [OF assms, of k] by (auto elim: returnsE)

lemma removeE:
  assumes "pinv p"
  obtains p' where "remove_key p k = Some p'" "pinv p'" "keys p' = keys p - {k}"
  using remove_law [OF assms, of k] by (auto elim: returnsE)

lemma evictE:
  assumes "pinv p"
  obtains (None) "evict p = Some (None, p)" "keys p = {}"
    | (Some) k p' where "evict p = Some (Some k, p')" "pinv p'" "k \<in> keys p" "keys p' = keys p - {k}"
proof -
  obtain v p' where "evict p = Some (v, p')" "pinv p'"
      "case v of None \<Rightarrow> keys p = {} \<and> p' = p | Some k \<Rightarrow> k \<in> keys p \<and> keys p' = keys p - {k}"
    using evict_law [OF assms] by (auto elim: returnsE)
  then show thesis using that by (cases v) auto
qed

text \<open>Evicting repeatedly takes distinct tracked keys, as many as asked for while any are left.\<close>

lemma evict_run_returns:
  "pinv p \<Longrightarrow> returns (evict_run evict n p)
     (\<lambda>(ks, p'). pinv p' \<and> distinct ks \<and> set ks \<subseteq> keys p \<and> keys p' = keys p - set ks
        \<and> length ks = min n (card (keys p)))"
proof (induction n arbitrary: p)
  case (Suc n)
  from Suc.prems show ?case
  proof (cases rule: evictE)
    case (Some k p')
    have "card (keys p) = Suc (card (keys p'))"
      using Some(3,4) finite_keys [OF Suc.prems] by (metis card.remove)
    moreover obtain ks p'' where "evict_run evict n p' = Some (ks, p'')" "pinv p''" "distinct ks"
        "set ks \<subseteq> keys p'" "keys p'' = keys p' - set ks" "length ks = min n (card (keys p'))"
      using Suc.IH [OF Some(2)] by (auto elim!: returnsE)
    ultimately show ?thesis using Some by auto
  qed (use Suc.prems in simp)
qed simp

end

end
