(* ===== verification/S3_Fifo.thy ===== *)
theory S3_Fifo
  imports Flat_Map Policy_Interface
begin

text \<open>
  \<^verbatim>\<open>crates/core/src/s3fifo.rs\<close>: the S3-FIFO eviction policy. It keeps three queues of keys (a
  small probationary queue, a main queue, and a ghost queue of recently evicted keys) and, in
  two flat maps, the metadata of every live key and the membership of the ghost queue.
  Deletions are lazy: \<^verbatim>\<open>remove\<close> only drops the metadata, and the queue entry left behind is
  skipped when it surfaces in \<^verbatim>\<open>evict_one\<close>.
\<close>

section \<open>Data\<close>

definition PROMOTE_THRESHOLD :: nat where "PROMOTE_THRESHOLD = 1"
definition FREQ_MAX :: nat where "FREQ_MAX = 3"
definition SMALL_PCT :: nat where "SMALL_PCT = 10"

datatype loc = Loc_Small | Loc_Main

record meta =
  freq :: nat
  m_loc :: loc

record s3fifo =
  s_small :: "bytes list"
  s_main :: "bytes list"
  s_ghost :: "bytes list"
  s_meta :: "meta flat_map"
  s_ghost_set :: "unit flat_map"
  s_small_count :: nat
  s_main_count :: nat

section \<open>Operations\<close>

definition s3_new :: "(bytes \<Rightarrow> u64) \<Rightarrow> (bytes \<Rightarrow> u64) \<Rightarrow> s3fifo" where
  "s3_new h1 h2 =
     \<lparr>s_small = [], s_main = [], s_ghost = [], s_meta = fm_new h1, s_ghost_set = fm_new h2,
      s_small_count = 0, s_main_count = 0\<rparr>"

definition s3_len :: "s3fifo \<Rightarrow> nat" where
  "s3_len s = s_small_count s + s_main_count s"

definition s3_is_empty :: "s3fifo \<Rightarrow> bool" where
  "s3_is_empty s \<longleftrightarrow> s3_len s = 0"

definition s3_insert :: "s3fifo \<Rightarrow> bytes \<Rightarrow> s3fifo option" where
  "s3_insert s key =
     do {
       (gs, was) \<leftarrow> fm_remove (s_ghost_set s) key;
       if was \<noteq> None then do {
         (mt, old) \<leftarrow> fm_insert (s_meta s) key \<lparr>freq = 0, m_loc = Loc_Main\<rparr>;
         Some (s\<lparr>s_ghost_set := gs, s_meta := mt, s_main := s_main s @ [key],
                 s_main_count := s_main_count s + 1\<rparr>)
       } else do {
         (mt, old) \<leftarrow> fm_insert (s_meta s) key \<lparr>freq = 0, m_loc = Loc_Small\<rparr>;
         Some (s\<lparr>s_ghost_set := gs, s_meta := mt, s_small := s_small s @ [key],
                 s_small_count := s_small_count s + 1\<rparr>)
       }
     }"

definition s3_touch :: "s3fifo \<Rightarrow> bytes \<Rightarrow> s3fifo option" where
  "s3_touch s key =
     do {
       mt \<leftarrow> fm_get_mut (s_meta s) key (\<lambda>m. m\<lparr>freq := min (freq m + 1) FREQ_MAX\<rparr>);
       Some (s\<lparr>s_meta := mt\<rparr>)
     }"

definition s3_remove :: "s3fifo \<Rightarrow> bytes \<Rightarrow> s3fifo option" where
  "s3_remove s key =
     do {
       (mt, old) \<leftarrow> fm_remove (s_meta s) key;
       (case old of
          None \<Rightarrow> Some (s\<lparr>s_meta := mt\<rparr>)
        | Some m \<Rightarrow>
            (case m_loc m of
               Loc_Small \<Rightarrow> do {
                 c \<leftarrow> usub (s_small_count s) 1;
                 Some (s\<lparr>s_meta := mt, s_small_count := c\<rparr>) }
             | Loc_Main \<Rightarrow> do {
                 c \<leftarrow> usub (s_main_count s) 1;
                 Some (s\<lparr>s_meta := mt, s_main_count := c\<rparr>) }))
     }"

definition s3_contains :: "s3fifo \<Rightarrow> bytes \<Rightarrow> bool option" where
  "s3_contains s key = fm_contains_key (s_meta s) key"

text \<open>The trimming loop of \<^verbatim>\<open>push_ghost\<close>.\<close>

fun s3_trim_ghost :: "nat \<Rightarrow> bytes list \<Rightarrow> unit flat_map \<Rightarrow> (bytes list \<times> unit flat_map) option" where
  "s3_trim_ghost cap [] gs = Some ([], gs)"
| "s3_trim_ghost cap (old # g) gs =
     (if fm_len gs > cap
      then do { (gs', r) \<leftarrow> fm_remove gs old; s3_trim_ghost cap g gs' }
      else Some (old # g, gs))"

definition s3_push_ghost :: "s3fifo \<Rightarrow> bytes \<Rightarrow> s3fifo option" where
  "s3_push_ghost s key =
     do {
       (gs, r) \<leftarrow> fm_insert (s_ghost_set s) key ();
       (g, gs) \<leftarrow> s3_trim_ghost (max (s3_len s) 16) (s_ghost s @ [key]) gs;
       Some (s\<lparr>s_ghost := g, s_ghost_set := gs\<rparr>)
     }"

definition s3_step_small :: "s3fifo \<Rightarrow> (bytes option \<times> s3fifo) option" where
  "s3_step_small s =
     (case s_small s of
        [] \<Rightarrow> Some (None, s\<lparr>s_small_count := 0\<rparr>)
      | k # rest \<Rightarrow>
          let s = s\<lparr>s_small := rest\<rparr> in
          do {
            found \<leftarrow> fm_get (s_meta s) k;
            (case found of
               None \<Rightarrow> Some (None, s)
             | Some m \<Rightarrow>
                 if m_loc m \<noteq> Loc_Small then Some (None, s)
                 else if freq m > PROMOTE_THRESHOLD then do {
                   mt \<leftarrow> fm_get_mut (s_meta s) k (\<lambda>mm. mm\<lparr>m_loc := Loc_Main, freq := 0\<rparr>);
                   c \<leftarrow> usub (s_small_count s) 1;
                   Some (None, s\<lparr>s_meta := mt, s_small_count := c,
                                 s_main_count := s_main_count s + 1, s_main := s_main s @ [k]\<rparr>)
                 } else do {
                   (mt, old) \<leftarrow> fm_remove (s_meta s) k;
                   c \<leftarrow> usub (s_small_count s) 1;
                   s \<leftarrow> s3_push_ghost (s\<lparr>s_meta := mt, s_small_count := c\<rparr>) k;
                   Some (Some k, s)
                 })
          })"

definition s3_step_main :: "s3fifo \<Rightarrow> (bytes option \<times> s3fifo) option" where
  "s3_step_main s =
     (case s_main s of
        [] \<Rightarrow> Some (None, s\<lparr>s_main_count := 0\<rparr>)
      | k # rest \<Rightarrow>
          let s = s\<lparr>s_main := rest\<rparr> in
          do {
            found \<leftarrow> fm_get (s_meta s) k;
            (case found of
               None \<Rightarrow> Some (None, s)
             | Some m \<Rightarrow>
                 if m_loc m \<noteq> Loc_Main then Some (None, s)
                 else if freq m > 0 then do {
                   mt \<leftarrow> fm_get_mut (s_meta s) k (\<lambda>mm. mm\<lparr>freq := freq mm - 1\<rparr>);
                   Some (None, s\<lparr>s_meta := mt, s_main := s_main s @ [k]\<rparr>)
                 } else do {
                   (mt, old) \<leftarrow> fm_remove (s_meta s) k;
                   c \<leftarrow> usub (s_main_count s) 1;
                   Some (Some k, s\<lparr>s_meta := mt, s_main_count := c\<rparr>)
                 })
          })"

definition s3_use_small :: "s3fifo \<Rightarrow> bool" where
  "s3_use_small s \<longleftrightarrow> s_main_count s = 0 \<or>
     s_small_count s > 0 \<and>
     s_small_count s * 100 \<ge> (s_small_count s + s_main_count s) * SMALL_PCT"

partial_function (option) s3_evict_one :: "s3fifo \<Rightarrow> (bytes option \<times> s3fifo) option" where
  "s3_evict_one s =
     (if s_small_count s = 0 \<and> s_main_count s = 0 then Some (None, s)
      else do {
        (victim, s') \<leftarrow> (if s3_use_small s then s3_step_small s else s3_step_main s);
        (case victim of
           Some k \<Rightarrow> Some (Some k, s')
         | None \<Rightarrow> s3_evict_one s')
      })"

declare s3_evict_one.simps [code]

section \<open>Invariant\<close>

abbreviation s3_live :: "s3fifo \<Rightarrow> bytes \<rightharpoonup> meta" where
  "s3_live s \<equiv> fm_map (s_meta s)"

abbreviation s3_ghosts :: "s3fifo \<Rightarrow> bytes set" where
  "s3_ghosts s \<equiv> dom (fm_map (s_ghost_set s))"

definition keys_at :: "loc \<Rightarrow> (bytes \<rightharpoonup> meta) \<Rightarrow> bytes set" where
  "keys_at l f = {k. \<exists>m. f k = Some m \<and> m_loc m = l}"

text \<open>A queue with its counter: every live key of the queue is in it (stale and repeated
  references are allowed), and the counter counts the live keys, not the references.\<close>

definition queue_ok :: "loc \<Rightarrow> (bytes \<rightharpoonup> meta) \<Rightarrow> bytes list \<Rightarrow> nat \<Rightarrow> bool" where
  "queue_ok l f q c \<longleftrightarrow> keys_at l f \<subseteq> set q \<and> c = card (keys_at l f)"

definition freq_ok :: "(bytes \<rightharpoonup> meta) \<Rightarrow> bool" where
  "freq_ok f \<longleftrightarrow> (\<forall>m \<in> ran f. freq m \<le> FREQ_MAX)"

definition s3_inv :: "s3fifo \<Rightarrow> bool" where
  "s3_inv s \<longleftrightarrow> fm_inv (s_meta s) \<and> fm_inv (s_ghost_set s)
     \<and> queue_ok Loc_Small (s3_live s) (s_small s) (s_small_count s)
     \<and> queue_ok Loc_Main (s3_live s) (s_main s) (s_main_count s)
     \<and> freq_ok (s3_live s)
     \<and> s3_ghosts s \<subseteq> set (s_ghost s)
     \<and> s3_ghosts s \<inter> dom (s3_live s) = {}"

text \<open>What decreases with every step of \<^verbatim>\<open>evict_one\<close> that does not evict: a stale skip shortens a
  queue, a promotion moves a key from the small to the main queue, a second chance spends a
  unit of frequency.\<close>

definition s3_fuel :: "s3fifo \<Rightarrow> nat" where
  "s3_fuel s = 2 * length (s_small s) + length (s_main s) + msum (\<lambda>k m. freq m) (s3_live s)"

subsection \<open>Keys by queue\<close>

lemma keys_at_simps [simp]:
  "keys_at l Map.empty = {}"
  "keys_at l (f(k := None)) = keys_at l f - {k}"
  "keys_at l (f(k \<mapsto> m)) = (if m_loc m = l then insert k (keys_at l f) else keys_at l f - {k})"
  by (auto simp: keys_at_def split: if_splits)

lemma keys_at_iff: "f k = Some m \<Longrightarrow> k \<in> keys_at l f \<longleftrightarrow> m_loc m = l"
  by (auto simp: keys_at_def)

lemma keys_at_None: "f k = None \<Longrightarrow> k \<notin> keys_at l f"
  by (auto simp: keys_at_def)

lemma dom_keys_at: "dom f = keys_at Loc_Small f \<union> keys_at Loc_Main f"
  by (auto simp: keys_at_def) (metis loc.exhaust)

lemma keys_at_disjoint: "keys_at Loc_Small f \<inter> keys_at Loc_Main f = {}"
  by (auto simp: keys_at_def)

lemma finite_keys_at: "finite (dom f) \<Longrightarrow> finite (keys_at l f)"
  by (rule finite_subset [of _ "dom f"]) (auto simp: keys_at_def)

lemma queue_add:
  "queue_ok l f q c \<Longrightarrow> finite (dom f) \<Longrightarrow> k \<notin> keys_at l f \<Longrightarrow> m_loc m = l \<Longrightarrow>
   queue_ok l (f(k \<mapsto> m)) (q @ [k]) (Suc c)"
  by (auto simp: queue_ok_def finite_keys_at)

lemma queue_skip:
  "queue_ok l f q c \<Longrightarrow> k \<notin> keys_at l f \<Longrightarrow> m_loc m \<noteq> l \<Longrightarrow> queue_ok l (f(k \<mapsto> m)) q c"
  by (simp add: queue_ok_def)

lemma queue_skip_del: "queue_ok l f q c \<Longrightarrow> k \<notin> keys_at l f \<Longrightarrow> queue_ok l (f(k := None)) q c"
  by (simp add: queue_ok_def)

lemma queue_keep:
  "queue_ok l f q c \<Longrightarrow> k \<in> keys_at l f \<Longrightarrow> m_loc m = l \<Longrightarrow> set q \<subseteq> set q' \<Longrightarrow>
   queue_ok l (f(k \<mapsto> m)) q' c"
  by (auto simp: queue_ok_def insert_absorb)

lemma queue_pop_stale: "queue_ok l f (k # q) c \<Longrightarrow> k \<notin> keys_at l f \<Longrightarrow> queue_ok l f q c"
  by (auto simp: queue_ok_def)

lemma queue_del:
  assumes "queue_ok l f q c" "finite (dom f)" "k \<in> keys_at l f" "set q \<subseteq> insert k (set q')"
  shows "1 \<le> c" "queue_ok l (f(k := None)) q' (c - 1)"
    "m_loc m \<noteq> l \<Longrightarrow> queue_ok l (f(k \<mapsto> m)) q' (c - 1)"
proof -
  have "finite (keys_at l f)" by (rule finite_keys_at [OF assms(2)])
  then have "card (keys_at l f - {k}) = c - 1" "0 < c"
    using assms(1,3) by (auto simp: queue_ok_def card_gt_0_iff)
  then show "1 \<le> c" "queue_ok l (f(k := None)) q' (c - 1)"
    "m_loc m \<noteq> l \<Longrightarrow> queue_ok l (f(k \<mapsto> m)) q' (c - 1)"
    using assms by (auto simp: queue_ok_def)
qed

lemma freq_ok_upd: "freq_ok f \<Longrightarrow> freq m \<le> FREQ_MAX \<Longrightarrow> freq_ok (f(k \<mapsto> m))"
  by (auto simp: freq_ok_def ran_def split: if_splits)

lemma freq_ok_del: "freq_ok f \<Longrightarrow> freq_ok (f(k := None))"
  by (auto simp: freq_ok_def ran_def split: if_splits)

lemma freq_ok_get: "freq_ok f \<Longrightarrow> f k = Some m \<Longrightarrow> freq m \<le> FREQ_MAX"
  by (auto simp: freq_ok_def ran_def)

lemmas queue_rules = queue_add queue_skip queue_skip_del queue_keep queue_pop_stale
  queue_del(2,3) freq_ok_upd freq_ok_del

lemma s3_invD:
  assumes "s3_inv s"
  shows "fm_inv (s_meta s)" "fm_inv (s_ghost_set s)"
    "queue_ok Loc_Small (s3_live s) (s_small s) (s_small_count s)"
    "queue_ok Loc_Main (s3_live s) (s_main s) (s_main_count s)"
    "freq_ok (s3_live s)" "s3_ghosts s \<subseteq> set (s_ghost s)" "s3_ghosts s \<inter> dom (s3_live s) = {}"
    "finite (dom (s3_live s))"
  using assms by (auto simp: s3_inv_def fm.finite_dom)

lemma s3_len_card:
  assumes "s3_inv s" shows "s3_len s = card (dom (s3_live s))"
proof -
  note fin = finite_keys_at [OF s3_invD(8) [OF assms]]
  have "card (dom (s3_live s)) = card (keys_at Loc_Small (s3_live s)) + card (keys_at Loc_Main (s3_live s))"
    unfolding dom_keys_at by (rule card_Un_disjoint [OF fin fin keys_at_disjoint])
  then show ?thesis using s3_invD(3,4) [OF assms] by (simp add: s3_len_def queue_ok_def)
qed

lemma s3_empty_iff: "s3_inv s \<Longrightarrow> s_small_count s = 0 \<and> s_main_count s = 0 \<longleftrightarrow> s3_live s = Map.empty"
  using s3_len_card [of s] s3_invD(8) [of s] card_0_eq [of "dom (s3_live s)"]
  by (auto simp: s3_len_def)

subsection \<open>New, insert, touch, remove\<close>

lemma s3_new_inv [simp]: "s3_inv (s3_new h1 h2)" "s3_live (s3_new h1 h2) = Map.empty"
  by (simp_all add: s3_new_def s3_inv_def queue_ok_def freq_ok_def)

lemma s3_insert_returns:
  assumes inv: "s3_inv s" and new: "s3_live s key = None"
  shows "returns (s3_insert s key) (\<lambda>s'. s3_inv s' \<and> s3_ghosts s' = s3_ghosts s - {key} \<and>
    s3_live s' = (s3_live s)(key \<mapsto> \<lparr>freq = 0, m_loc = if key \<in> s3_ghosts s then Loc_Main else Loc_Small\<rparr>))"
proof -
  note D = s3_invD [OF inv]
  let ?m = "\<lparr>freq = 0, m_loc = if key \<in> s3_ghosts s then Loc_Main else Loc_Small\<rparr>"
  obtain gs where gs: "fm_remove (s_ghost_set s) key = Some (gs, fm_map (s_ghost_set s) key)"
      "fm_inv gs" "fm_map gs = (fm_map (s_ghost_set s))(key := None)"
    by (rule fm.remE [OF D(2)])
  obtain mt where mt: "fm_insert (s_meta s) key ?m = Some (mt, s3_live s key)"
      "fm_inv mt" "fm_map mt = (s3_live s)(key \<mapsto> ?m)"
    by (rule fm.insE [OF D(1)])
  have new': "key \<notin> keys_at l (s3_live s)" for l using new by (rule keys_at_None)
  have "queue_ok Loc_Small ((s3_live s)(key \<mapsto> ?m))
      (if key \<in> s3_ghosts s then s_small s else s_small s @ [key])
      (if key \<in> s3_ghosts s then s_small_count s else Suc (s_small_count s))"
    using queue_add [OF D(3,8) new', of ?m] queue_skip [OF D(3) new', of ?m]
    by (cases "key \<in> s3_ghosts s") simp_all
  moreover have "queue_ok Loc_Main ((s3_live s)(key \<mapsto> ?m))
      (if key \<in> s3_ghosts s then s_main s @ [key] else s_main s)
      (if key \<in> s3_ghosts s then Suc (s_main_count s) else s_main_count s)"
    using queue_add [OF D(4,8) new', of ?m] queue_skip [OF D(4) new', of ?m]
    by (cases "key \<in> s3_ghosts s") simp_all
  moreover have "freq_ok ((s3_live s)(key \<mapsto> ?m))" by (rule freq_ok_upd [OF D(5)]) simp
  ultimately show ?thesis
    using gs mt D(6,7) by (cases "key \<in> s3_ghosts s") (auto simp: s3_insert_def s3_inv_def)
qed

lemma s3_touch_returns:
  assumes inv: "s3_inv s"
  shows "returns (s3_touch s key) (\<lambda>s'. s3_inv s' \<and> s3_ghosts s' = s3_ghosts s \<and>
    s3_live s' = (s3_live s)(key := map_option (\<lambda>m. m\<lparr>freq := min (freq m + 1) FREQ_MAX\<rparr>) (s3_live s key)))"
proof -
  note D = s3_invD [OF inv]
  show ?thesis unfolding s3_touch_def
  proof (rule returns_bindI [OF fm_get_mut_returns [OF D(1)]], cases "s3_live s key")
    case (Some m)
    let ?m = "m\<lparr>freq := min (freq m + 1) FREQ_MAX\<rparr>"
    have "queue_ok l ((s3_live s)(key \<mapsto> ?m)) q c" if "queue_ok l (s3_live s) q c" for l q c
      using queue_keep [OF that, of key ?m q] queue_skip [OF that, of key ?m] keys_at_iff [of "s3_live s" key, OF Some]
      by auto
    then show "returns (Some (s\<lparr>s_meta := mt\<rparr>)) (\<lambda>s'. s3_inv s' \<and> s3_ghosts s' = s3_ghosts s \<and>
      s3_live s' = (s3_live s)(key := map_option (\<lambda>m. m\<lparr>freq := min (freq m + 1) FREQ_MAX\<rparr>) (s3_live s key)))"
      if "fm_inv mt \<and> fm_map mt = (s3_live s)(key := map_option (\<lambda>m. m\<lparr>freq := min (freq m + 1) FREQ_MAX\<rparr>) (s3_live s key))" for mt
      using D Some that by (auto simp: s3_inv_def intro: freq_ok_upd)
  qed (use inv in \<open>auto simp: s3_inv_def fun_upd_idem\<close>)
qed

lemma s3_remove_returns:
  assumes inv: "s3_inv s"
  shows "returns (s3_remove s key) (\<lambda>s'. s3_inv s' \<and> s3_ghosts s' = s3_ghosts s \<and>
    s3_live s' = (s3_live s)(key := None))"
proof -
  note D = s3_invD [OF inv]
  obtain mt where mt: "fm_remove (s_meta s) key = Some (mt, s3_live s key)"
      "fm_inv mt" "fm_map mt = (s3_live s)(key := None)"
    by (rule fm.remE [OF D(1)])
  show ?thesis
  proof (cases "s3_live s key")
    case None
    with mt inv show ?thesis by (simp add: s3_remove_def s3_inv_def fun_upd_idem)
  next
    case (Some m)
    have here: "key \<in> keys_at l (s3_live s) \<longleftrightarrow> m_loc m = l" for l using Some by (rule keys_at_iff)
    note del = queue_del [OF _ D(8) _ subset_insertI]
    show ?thesis
      using mt Some D(2,6,7) freq_ok_del [OF D(5), of key] here
        del(1,2) [OF D(3), of key] del(1,2) [OF D(4), of key]
        queue_skip_del [OF D(3), of key] queue_skip_del [OF D(4), of key]
      by (cases "m_loc m") (auto simp: s3_remove_def s3_inv_def)
  qed
qed

subsection \<open>Eviction\<close>

lemma s3_trim_ghost_returns:
  "fm_inv gs \<Longrightarrow> dom (fm_map gs) \<subseteq> set g \<Longrightarrow> returns (s3_trim_ghost cap g gs)
     (\<lambda>(g', gs'). fm_inv gs' \<and> dom (fm_map gs') \<subseteq> set g' \<and> dom (fm_map gs') \<subseteq> dom (fm_map gs)
        \<and> fm_len gs' \<le> cap)"
proof (induction cap g gs rule: s3_trim_ghost.induct)
  case (1 cap gs)
  then show ?case by (simp add: fm.sz_card)
next
  case (2 cap old g gs)
  obtain gs' where gs': "fm_remove gs old = Some (gs', fm_map gs old)" "fm_inv gs'"
      "fm_map gs' = (fm_map gs)(old := None)"
    by (rule fm.remE [OF "2.prems"(1)])
  show ?case
  proof (cases "fm_len gs > cap")
    case True
    have sub: "dom (fm_map gs') \<subseteq> set g" "dom (fm_map gs') \<subseteq> dom (fm_map gs)"
      using gs'(3) "2.prems"(2) by auto
    obtain g'' gs'' where "s3_trim_ghost cap g gs' = Some (g'', gs'')" "fm_inv gs''"
        "dom (fm_map gs'') \<subseteq> set g''" "dom (fm_map gs'') \<subseteq> dom (fm_map gs')" "fm_len gs'' \<le> cap"
      using "2.IH" [OF True gs'(1) refl gs'(2) sub(1)] by (auto elim!: returnsE)
    with True gs'(1) sub(2) show ?thesis by simp
  next
    case False
    with "2.prems" show ?thesis by simp
  qed
qed

lemma s3_push_ghostE:
  assumes "fm_inv (s_ghost_set s)" "s3_ghosts s \<subseteq> set (s_ghost s)"
  obtains g gs where "s3_push_ghost s k = Some (s\<lparr>s_ghost := g, s_ghost_set := gs\<rparr>)" "fm_inv gs"
    "dom (fm_map gs) \<subseteq> set g" "dom (fm_map gs) \<subseteq> insert k (s3_ghosts s)"
    "fm_len gs \<le> max (s3_len s) 16"
proof -
  obtain gs where gs: "fm_insert (s_ghost_set s) k () = Some (gs, fm_map (s_ghost_set s) k)" "fm_inv gs"
      "fm_map gs = (fm_map (s_ghost_set s))(k \<mapsto> ())"
    by (rule fm.insE [OF assms(1)])
  have "dom (fm_map gs) \<subseteq> set (s_ghost s @ [k])" using gs(3) assms(2) by auto
  from s3_trim_ghost_returns [OF gs(2) this, of "max (s3_len s) 16"] gs that show ?thesis
    by (auto simp: s3_push_ghost_def elim!: returnsE)
qed

text \<open>The outcome of one step: either a real eviction of a live key, or progress with the set of
  live keys unchanged.\<close>

definition step_ok :: "s3fifo \<Rightarrow> bytes option \<times> s3fifo \<Rightarrow> bool" where
  "step_ok s r \<longleftrightarrow> s3_inv (snd r) \<and>
     (case fst r of
        None \<Rightarrow> dom (s3_live (snd r)) = dom (s3_live s) \<and> s3_fuel (snd r) < s3_fuel s
      | Some k \<Rightarrow> k \<in> dom (s3_live s) \<and> s3_live (snd r) = (s3_live s)(k := None))"

lemma s3_step_small_ok:
  assumes inv: "s3_inv s" and pos: "0 < s_small_count s"
  shows "returns (s3_step_small s) (step_ok s)"
proof -
  note D = s3_invD [OF inv]
  obtain k rest where q: "s_small s = k # rest"
    using D(3) pos by (cases "s_small s") (auto simp: queue_ok_def)
  have get: "fm_get (s_meta s) k = Some (s3_live s k)" by (rule fm.get_law [OF D(1)])
  show ?thesis
  proof (cases "k \<in> keys_at Loc_Small (s3_live s)")
    case False
    then have "queue_ok Loc_Small (s3_live s) rest (s_small_count s)" using D(3) q queue_pop_stale by simp
    moreover have "s3_step_small s = Some (None, s\<lparr>s_small := rest\<rparr>)"
      using False q get keys_at_iff [of "s3_live s" k] by (auto simp: s3_step_small_def Let_def split: option.splits)
    ultimately show ?thesis using inv q by (simp add: step_ok_def s3_inv_def s3_fuel_def)
  next
    case True
    then obtain m where m: "s3_live s k = Some m" "m_loc m = Loc_Small" by (auto simp: keys_at_def)
    have other: "k \<notin> keys_at Loc_Main (s3_live s)" using m by (simp add: keys_at_iff)
    have sub: "set (s_small s) \<subseteq> insert k (set rest)" using q by simp
    note del = queue_del [OF D(3,8) True sub]
    show ?thesis
    proof (cases "freq m > PROMOTE_THRESHOLD")
      case promote: True
      let ?m = "m\<lparr>m_loc := Loc_Main, freq := 0\<rparr>"
      obtain mt where mt: "fm_get_mut (s_meta s) k (\<lambda>mm. mm\<lparr>m_loc := Loc_Main, freq := 0\<rparr>) = Some mt" "fm_inv mt"
          "fm_map mt = (s3_live s)(k := map_option (\<lambda>mm. mm\<lparr>m_loc := Loc_Main, freq := 0\<rparr>) (s3_live s k))"
        by (rule fm.get_mutE [OF D(1)])
      have live: "fm_map mt = (s3_live s)(k \<mapsto> ?m)" using mt(3) m by simp
      have "s3_step_small s = Some (None, s\<lparr>s_small := rest, s_meta := mt, s_small_count := s_small_count s - 1,
          s_main_count := s_main_count s + 1, s_main := s_main s @ [k]\<rparr>)"
        using q get m promote mt(1) del(1) by (simp add: s3_step_small_def)
      moreover have "queue_ok Loc_Main (fm_map mt) (s_main s @ [k]) (Suc (s_main_count s))"
        unfolding live by (rule queue_add [OF D(4,8) other]) simp
      moreover have "queue_ok Loc_Small (fm_map mt) rest (s_small_count s - 1)"
        unfolding live by (rule del(3)) simp
      moreover have "freq_ok (fm_map mt)" unfolding live by (rule freq_ok_upd [OF D(5)]) simp
      moreover have "msum (\<lambda>k m. freq m) (fm_map mt) \<le> msum (\<lambda>k m. freq m) (s3_live s)"
        using msum_replace [OF D(8) m(1), of "\<lambda>k m. freq m" ?m] unfolding live by simp
      ultimately show ?thesis using D(2,6,7) mt(2) q m(1)
        by (auto simp: step_ok_def s3_inv_def s3_fuel_def live)
    next
      case evict: False
      obtain mt where mt: "fm_remove (s_meta s) k = Some (mt, s3_live s k)" "fm_inv mt"
          "fm_map mt = (s3_live s)(k := None)"
        by (rule fm.remE [OF D(1)])
      let ?s = "s\<lparr>s_small := rest, s_meta := mt, s_small_count := s_small_count s - 1\<rparr>"
      have "fm_inv (s_ghost_set ?s)" "s3_ghosts ?s \<subseteq> set (s_ghost ?s)" using D(2,6) by simp_all
      then obtain g gs where gs: "s3_push_ghost ?s k = Some (?s\<lparr>s_ghost := g, s_ghost_set := gs\<rparr>)" "fm_inv gs"
          "dom (fm_map gs) \<subseteq> set g" "dom (fm_map gs) \<subseteq> insert k (s3_ghosts ?s)"
        by (rule s3_push_ghostE)
      have "s3_step_small s = Some (Some k, ?s\<lparr>s_ghost := g, s_ghost_set := gs\<rparr>)"
        using q get m evict mt(1) del(1) gs(1) by (simp add: s3_step_small_def)
      then show ?thesis
        using mt gs(2-4) m(1) D(7) del(2) queue_skip_del [OF D(4) other] freq_ok_del [OF D(5), of k]
        by (auto simp: step_ok_def s3_inv_def)
    qed
  qed
qed

lemma s3_step_main_ok:
  assumes inv: "s3_inv s" and pos: "0 < s_main_count s"
  shows "returns (s3_step_main s) (step_ok s)"
proof -
  note D = s3_invD [OF inv]
  obtain k rest where q: "s_main s = k # rest"
    using D(4) pos by (cases "s_main s") (auto simp: queue_ok_def)
  have get: "fm_get (s_meta s) k = Some (s3_live s k)" by (rule fm.get_law [OF D(1)])
  show ?thesis
  proof (cases "k \<in> keys_at Loc_Main (s3_live s)")
    case False
    then have "queue_ok Loc_Main (s3_live s) rest (s_main_count s)" using D(4) q queue_pop_stale by simp
    moreover have "s3_step_main s = Some (None, s\<lparr>s_main := rest\<rparr>)"
      using False q get keys_at_iff [of "s3_live s" k] by (auto simp: s3_step_main_def Let_def split: option.splits)
    ultimately show ?thesis using inv q by (simp add: step_ok_def s3_inv_def s3_fuel_def)
  next
    case True
    then obtain m where m: "s3_live s k = Some m" "m_loc m = Loc_Main" by (auto simp: keys_at_def)
    have other: "k \<notin> keys_at Loc_Small (s3_live s)" using m by (simp add: keys_at_iff)
    show ?thesis
    proof (cases "freq m > 0")
      case chance: True
      let ?m = "m\<lparr>freq := freq m - 1\<rparr>"
      obtain mt where mt: "fm_get_mut (s_meta s) k (\<lambda>mm. mm\<lparr>freq := freq mm - 1\<rparr>) = Some mt" "fm_inv mt"
          "fm_map mt = (s3_live s)(k := map_option (\<lambda>mm. mm\<lparr>freq := freq mm - 1\<rparr>) (s3_live s k))"
        by (rule fm.get_mutE [OF D(1)])
      have live: "fm_map mt = (s3_live s)(k \<mapsto> ?m)" using mt(3) m by simp
      have "s3_step_main s = Some (None, s\<lparr>s_main := rest @ [k], s_meta := mt\<rparr>)"
        using q get m chance mt(1) by (simp add: s3_step_main_def)
      moreover have "queue_ok Loc_Main (fm_map mt) (rest @ [k]) (s_main_count s)"
        unfolding live by (rule queue_keep [OF D(4) True]) (use q m in auto)
      moreover have "queue_ok Loc_Small (fm_map mt) (s_small s) (s_small_count s)"
        unfolding live by (rule queue_skip [OF D(3) other]) (use m in simp)
      moreover have "freq_ok (fm_map mt)"
        unfolding live using freq_ok_get [OF D(5) m(1)] by (intro freq_ok_upd [OF D(5)]) simp
      moreover have "msum (\<lambda>k m. freq m) (fm_map mt) < msum (\<lambda>k m. freq m) (s3_live s)"
        using msum_replace [OF D(8) m(1), of "\<lambda>k m. freq m" ?m] chance unfolding live by simp
      ultimately show ?thesis using D(2,6,7) mt(2) q m(1)
        by (auto simp: step_ok_def s3_inv_def s3_fuel_def live)
    next
      case evict: False
      obtain mt where mt: "fm_remove (s_meta s) k = Some (mt, s3_live s k)" "fm_inv mt"
          "fm_map mt = (s3_live s)(k := None)"
        by (rule fm.remE [OF D(1)])
      have sub: "set (s_main s) \<subseteq> insert k (set rest)" using q by simp
      note del = queue_del [OF D(4,8) True sub]
      have "s3_step_main s = Some (Some k, s\<lparr>s_main := rest, s_meta := mt, s_main_count := s_main_count s - 1\<rparr>)"
        using q get m evict mt(1) del(1) by (simp add: s3_step_main_def)
      then show ?thesis
        using mt m(1) D(2,6,7) del(2) queue_skip_del [OF D(3) other] freq_ok_del [OF D(5), of k]
        by (auto simp: step_ok_def s3_inv_def)
    qed
  qed
qed

lemma s3_evict_one_returns:
  "s3_inv s \<Longrightarrow> returns (s3_evict_one s)
     (\<lambda>(victim, s'). s3_inv s' \<and>
        (case victim of
           None \<Rightarrow> s3_live s = Map.empty \<and> s' = s
         | Some k \<Rightarrow> k \<in> dom (s3_live s) \<and> dom (s3_live s') = dom (s3_live s) - {k}))"
proof (induction "s3_fuel s" arbitrary: s rule: less_induct)
  case less
  show ?case
  proof (cases "s_small_count s = 0 \<and> s_main_count s = 0")
    case True
    with s3_empty_iff [OF less.prems] less.prems show ?thesis by (subst s3_evict_one.simps) simp
  next
    case False
    have "returns (if s3_use_small s then s3_step_small s else s3_step_main s) (step_ok s)"
      using s3_step_small_ok [OF less.prems] s3_step_main_ok [OF less.prems] False
      by (auto simp: s3_use_small_def)
    then obtain v s' where step: "(if s3_use_small s then s3_step_small s else s3_step_main s) = Some (v, s')"
      and ok: "step_ok s (v, s')" by (auto elim: returnsE)
    show ?thesis
    proof (cases v)
      case None
      with ok have inv: "s3_inv s'" and same: "dom (s3_live s') = dom (s3_live s)"
        and "s3_fuel s' < s3_fuel s" by (auto simp: step_ok_def)
      have "s3_live s \<noteq> Map.empty" using False s3_empty_iff [OF less.prems] by auto
      then have ne: "s3_live s \<noteq> Map.empty" "s3_live s' \<noteq> Map.empty"
        using same by (auto simp flip: dom_eq_empty_conv)
      have "s3_evict_one s = s3_evict_one s'"
        using False step None by (subst s3_evict_one.simps) (simp only: if_False Option.bind.simps option.case prod.case)
      then show ?thesis using less.hyps [OF \<open>s3_fuel s' < s3_fuel s\<close> inv] ne same
        by (elim returnsE) (simp split: option.splits prod.splits)
    next
      case (Some k)
      with ok False step show ?thesis by (subst s3_evict_one.simps) (auto simp: step_ok_def)
    qed
  qed
qed

section \<open>The policy as the store sees it\<close>

lemma s3_contains_eq: "s3_inv s \<Longrightarrow> s3_contains s key = Some (key \<in> dom (s3_live s))"
  by (auto simp: s3_contains_def fm_contains_key_def fm.get_law s3_invD(1))

interpretation s3: eviction_policy s3_inv "\<lambda>s. dom (s3_live s)" s3_insert s3_touch s3_remove s3_evict_one s3_len
proof
  fix s key
  assume inv: "s3_inv s"
  show "returns (s3_insert s key) (\<lambda>s'. s3_inv s' \<and> dom (s3_live s') = insert key (dom (s3_live s)))"
    if "key \<notin> dom (s3_live s)"
  proof -
    have "s3_live s key = None" using that by auto
    from s3_insert_returns [OF inv this] show ?thesis by (auto elim!: returnsE)
  qed
  show "returns (s3_touch s key) (\<lambda>s'. s3_inv s' \<and> dom (s3_live s') = dom (s3_live s))"
    using s3_touch_returns [OF inv, of key] by (auto elim!: returnsE split: if_splits)
  show "returns (s3_remove s key) (\<lambda>s'. s3_inv s' \<and> dom (s3_live s') = dom (s3_live s) - {key})"
    using s3_remove_returns [OF inv, of key] by (auto elim!: returnsE)
  show "returns (s3_evict_one s) (\<lambda>(victim, s'). s3_inv s' \<and>
        (case victim of None \<Rightarrow> dom (s3_live s) = {} \<and> s' = s
         | Some k \<Rightarrow> k \<in> dom (s3_live s) \<and> dom (s3_live s') = dom (s3_live s) - {k}))"
    using s3_evict_one_returns [OF inv] by (auto elim!: returnsE split: option.splits)
  show "finite (dom (s3_live s))" by (rule s3_invD(8) [OF inv])
  show "s3_len s = card (dom (s3_live s))" by (rule s3_len_card [OF inv])
qed

section \<open>Properties\<close>

lemma s3_new_ghosts: "s3_ghosts (s3_new h1 h2) = {}"
  by (simp add: s3_new_def)

text \<open>C4: Eviction is total and live. From every state that satisfies the invariant \<^verbatim>\<open>evict_one\<close>
  returns; it answers \<^verbatim>\<open>None\<close> only when no key is tracked, and otherwise a tracked key, which is
  then no longer tracked while all others still are.\<close>

theorem s3_evict_one_total:
  assumes "s3_inv s"
  shows "\<exists>victim s'. s3_evict_one s = Some (victim, s') \<and> s3_inv s'
    \<and> (case victim of
         None \<Rightarrow> s3_len s = 0 \<and> s' = s
       | Some k \<Rightarrow> k \<in> dom (s3_live s) \<and> dom (s3_live s') = dom (s3_live s) - {k} \<and> s3_len s' + 1 = s3_len s)"
proof -
  from assms show ?thesis
  proof (cases rule: s3.evictE)
    case None
    with assms show ?thesis by (simp add: s3_len_card)
  next
    case (Some k s')
    then have "s3_len s' + 1 = s3_len s"
      using assms card_Suc_Diff1 [OF s3_invD(8) [OF assms] Some(3)] by (simp add: s3_len_card)
    with Some show ?thesis by auto
  qed
qed

theorem s3_evict_one_total_witness:
  "\<exists>s s'. s3_insert (s3_new (\<lambda>_. 0) (\<lambda>_. 0)) ''a'' = Some s \<and> s3_evict_one s = Some (Some ''a'', s') \<and> s3_len s' = 0"
proof -
  have "''a'' \<notin> dom (s3_live (s3_new (\<lambda>_. 0) (\<lambda>_. 0)))" by simp
  then obtain s where s: "s3_insert (s3_new (\<lambda>_. 0) (\<lambda>_. 0)) ''a'' = Some s" "s3_inv s" "dom (s3_live s) = {''a''}"
    by (rule s3.insertE [OF s3_new_inv(1)]) auto
  then have "s3_len s = 1" by (simp add: s3_len_card)
  with s s3_evict_one_total [OF s(2)] show ?thesis by (auto split: option.splits)
qed

text \<open>Admission. A key that was evicted recently (its ghost is remembered) goes to the main queue,
  any other key to the small queue, with frequency 0 and its ghost forgotten.\<close>

theorem s3_readmission:
  assumes "s3_inv s" "s3_live s key = None"
  shows "\<exists>s'. s3_insert s key = Some s' \<and> s3_inv s' \<and> key \<notin> s3_ghosts s'
    \<and> s3_live s' = (s3_live s)(key \<mapsto> \<lparr>freq = 0, m_loc = if key \<in> s3_ghosts s then Loc_Main else Loc_Small\<rparr>)"
proof -
  obtain s' where "s3_insert s key = Some s'" "s3_inv s' \<and> s3_ghosts s' = s3_ghosts s - {key} \<and>
      s3_live s' = (s3_live s)(key \<mapsto> \<lparr>freq = 0, m_loc = if key \<in> s3_ghosts s then Loc_Main else Loc_Small\<rparr>)"
    using s3_insert_returns [OF assms] by (rule returnsE)
  then show ?thesis by (intro exI [of _ s']) simp
qed

theorem s3_readmission_witness:
  "\<exists>s'. s3_insert (s3_new (\<lambda>_. 0) (\<lambda>_. 0)) ''a'' = Some s' \<and> s3_live s' ''a'' = Some \<lparr>freq = 0, m_loc = Loc_Small\<rparr>"
  using s3_readmission [of "s3_new (\<lambda>_. 0) (\<lambda>_. 0)" "''a''"]
  by (auto simp: s3_new_ghosts)

text \<open>After an eviction from the small queue the ghost set holds at most as many keys as the
  cache does, or 16 if that is more.\<close>

theorem s3_ghost_bound:
  assumes inv: "s3_inv s" and step: "s3_step_small s = Some (Some k, s')"
  shows "fm_len (s_ghost_set s') \<le> max (s3_len s') 16"
proof -
  obtain rest mt c where push: "s3_push_ghost (s\<lparr>s_small := rest, s_meta := mt, s_small_count := c\<rparr>) k = Some s'"
    using step by (auto simp: s3_step_small_def Let_def bind_eq_Some_conv split: list.splits option.splits if_splits)
  let ?s = "s\<lparr>s_small := rest, s_meta := mt, s_small_count := c\<rparr>"
  have "fm_inv (s_ghost_set ?s)" "s3_ghosts ?s \<subseteq> set (s_ghost ?s)" using s3_invD [OF inv] by simp_all
  then obtain g gs where "s3_push_ghost ?s k = Some (?s\<lparr>s_ghost := g, s_ghost_set := gs\<rparr>)"
      "fm_len gs \<le> max (s3_len ?s) 16"
    by (rule s3_push_ghostE)
  with push show ?thesis by (auto simp: s3_len_def)
qed

theorem s3_ghost_bound_witness:
  "\<exists>s s'. s3_insert (s3_new (\<lambda>_. 0) (\<lambda>_. 0)) ''a'' = Some s \<and> s3_step_small s = Some (Some ''a'', s')
     \<and> fm_len (s_ghost_set s') \<le> max (s3_len s') 16"
proof -
  have "''a'' \<notin> dom (s3_live (s3_new (\<lambda>_. 0) (\<lambda>_. 0)))" by simp
  then obtain s where s: "s3_insert (s3_new (\<lambda>_. 0) (\<lambda>_. 0)) ''a'' = Some s" "s3_inv s"
    by (rule s3.insertE [OF s3_new_inv(1)])
  have "case s3_insert (s3_new (\<lambda>_. 0) (\<lambda>_. 0)) ''a'' of None \<Rightarrow> False
      | Some s \<Rightarrow> (case s3_step_small s of Some (Some k, s') \<Rightarrow> k = ''a'' | _ \<Rightarrow> False)"
    by code_simp
  then obtain s' where s': "s3_step_small s = Some (Some ''a'', s')"
    using s(1) by (auto split: option.splits prod.splits)
  from s(1) s' s3_ghost_bound [OF s(2) s'] show ?thesis by blast
qed

text \<open>Inserting and removing the same key over and over, as a client does that sets and deletes it.\<close>

fun s3_churn :: "nat \<Rightarrow> bytes \<Rightarrow> s3fifo \<Rightarrow> s3fifo option" where
  "s3_churn 0 key s = Some s"
| "s3_churn (Suc n) key s = do { s \<leftarrow> s3_insert s key; s \<leftarrow> s3_remove s key; s3_churn n key s }"

lemma s3_churn_step:
  assumes inv: "s3_inv s" and "key \<notin> dom (s3_live s)" "key \<notin> s3_ghosts s"
  obtains s1 s2 where "s3_insert s key = Some s1" "s3_remove s1 key = Some s2" "s3_inv s2" "s3_live s2 = s3_live s"
    "s3_ghosts s2 = s3_ghosts s" "length (s_small s2) = Suc (length (s_small s))"
proof -
  have new: "s3_live s key = None" using assms(2) by auto
  obtain s1 where s1: "s3_insert s key = Some s1" "s3_inv s1" "s3_ghosts s1 = s3_ghosts s - {key}"
      "s3_live s1 = (s3_live s)(key \<mapsto> \<lparr>freq = 0, m_loc = Loc_Small\<rparr>)"
    using s3_insert_returns [OF inv new] assms(3) by (auto elim!: returnsE)
  obtain s2 where s2: "s3_remove s1 key = Some s2" "s3_inv s2" "s3_ghosts s2 = s3_ghosts s1"
      "s3_live s2 = (s3_live s1)(key := None)"
    using s3_remove_returns [OF s1(2), of key] by (auto elim!: returnsE)
  have gs: "fm_remove (s_ghost_set s) key = Some (gs, old) \<Longrightarrow> old = None" for gs old
    using fm_remove_returns [OF s3_invD(2) [OF inv], of key] assms(3) by (auto elim!: returnsE)
  have "s_small s1 = s_small s @ [key]"
    using s1(1) gs by (auto simp: s3_insert_def bind_eq_Some_conv split: if_splits)
  moreover have "s_small s2 = s_small s1"
  proof -
    obtain mt where "fm_remove (s_meta s1) key = Some (mt, s3_live s1 key)"
      by (rule fm.remE [OF s3_invD(1) [OF s1(2)]])
    with s2(1) s1(4) show ?thesis by (auto simp: s3_remove_def bind_eq_Some_conv)
  qed
  ultimately show thesis using that [OF s1(1) s2(1,2)] s1 s2 assms(3) new by (simp add: fun_upd_idem)
qed

text \<open>C19: Stale queue references are not bounded by the number of cached keys: after \<open>n\<close> rounds of
  inserting and removing one key nothing is cached, and the small queue holds \<open>n\<close> entries. (They
  are dropped only when they surface in \<^verbatim>\<open>evict_one\<close>, which runs only above the memory budget.)\<close>

theorem s3_stale_references_unbounded:
  "\<exists>s. s3_churn n key (s3_new h1 h2) = Some s \<and> s3_len s = 0 \<and> length (s_small s) = n"
proof -
  have "s3_inv s \<Longrightarrow> s3_live s = Map.empty \<Longrightarrow> s3_ghosts s = {} \<Longrightarrow>
      \<exists>s'. s3_churn n key s = Some s' \<and> s3_len s' = 0 \<and> length (s_small s') = length (s_small s) + n" for s
  proof (induction n arbitrary: s)
    case 0
    then show ?case by (simp add: s3_len_card)
  next
    case (Suc n)
    have "key \<notin> dom (s3_live s)" "key \<notin> s3_ghosts s" using Suc.prems(2,3) by simp_all
    then obtain s1 s2 where s12: "s3_insert s key = Some s1" "s3_remove s1 key = Some s2" "s3_inv s2"
        "s3_live s2 = s3_live s" "s3_ghosts s2 = s3_ghosts s" "length (s_small s2) = Suc (length (s_small s))"
      by (rule s3_churn_step [OF Suc.prems(1)])
    from Suc.IH [OF s12(3)] s12 Suc.prems show ?case by auto
  qed
  from this [OF s3_new_inv(1)] show ?thesis by (simp add: s3_new_def)
qed

end
