(* ===== verification/Value_Types.thy ===== *)
theory Value_Types
  imports Prelude "HOL-Library.AList" "HOL-Library.Product_Lexorder"
    "HOL-Library.List_Lexorder" "HOL-Library.Char_ord"
begin

unbundle bit_operations_syntax

text \<open>
  The value types of \<^verbatim>\<open>crates/core/src/store.rs\<close>: strings, lists, hashes, sets and sorted sets,
  with the size estimate that memory accounting uses, and the collection operations that the
  store runs under its lock (the closures of \<^verbatim>\<open>push\<close>, \<^verbatim>\<open>pop\<close>, \<^verbatim>\<open>hset\<close>, \<^verbatim>\<open>hdel\<close>, \<^verbatim>\<open>sadd\<close>, \<^verbatim>\<open>srem\<close>,
  \<^verbatim>\<open>zadd\<close>, \<^verbatim>\<open>zrem\<close> and of the readers).

  A \<^verbatim>\<open>HashMap\<close> is an association list with distinct keys and a \<^verbatim>\<open>HashSet\<close> a distinct list; the
  list order stands for the iteration order, which the standard library leaves open and which
  no theorem depends on. A \<^verbatim>\<open>BTreeSet\<close> is a sorted distinct list. An \<^verbatim>\<open>f64\<close> is its 64-bit pattern.
\<close>

section \<open>The total order on scores\<close>

type_synonym f64 = u64

datatype ord_f64 = OrdF64 (ord_bits: f64)

text \<open>\<^verbatim>\<open>f64::total_cmp\<close> compares as signed integers after flipping the low 63 bits of negative
  patterns: \<^verbatim>\<open>left ^= (((left >> 63) as u64) >> 1) as i64\<close>.\<close>

definition total_bits :: "f64 \<Rightarrow> 64 word" where
  "total_bits w = w XOR drop_bit 1 (signed_drop_bit 63 w)"

definition total_key :: "f64 \<Rightarrow> int" where
  "total_key w = sint (total_bits w)"

lemma bit_total_bits:
  "n < 64 \<Longrightarrow> bit (total_bits w) n \<longleftrightarrow> (bit w n \<noteq> (n < 63 \<and> bit w 63))"
  by (auto simp: total_bits_def bit_xor_iff bit_drop_bit_eq bit_signed_drop_bit_iff dest: bit_imp_le_length)

lemma total_bits_involution: "total_bits (total_bits w) = w"
proof (rule bit_word_eqI)
  fix n
  assume "n < LENGTH(64)"
  then show "bit (total_bits (total_bits w)) n = bit w n"
    by (auto simp: bit_total_bits)
qed

lemma total_key_inj: "total_key v = total_key w \<longleftrightarrow> v = w"
  by (metis total_key_def total_bits_involution signed_word_eqI)

instantiation ord_f64 :: linorder
begin

definition less_eq_ord_f64 :: "ord_f64 \<Rightarrow> ord_f64 \<Rightarrow> bool" where
  "less_eq_ord_f64 x y \<longleftrightarrow> total_key (ord_bits x) \<le> total_key (ord_bits y)"

definition less_ord_f64 :: "ord_f64 \<Rightarrow> ord_f64 \<Rightarrow> bool" where
  "less_ord_f64 x y \<longleftrightarrow> total_key (ord_bits x) < total_key (ord_bits y)"

instance
  by standard (auto simp: less_eq_ord_f64_def less_ord_f64_def total_key_inj ord_f64.expand)

end

section \<open>Sorted sets\<close>

record zset =
  zs_scores :: "(bytes \<times> f64) list"
  zs_sorted :: "(ord_f64 \<times> bytes) list"

definition zset_default :: zset where
  "zset_default = \<lparr>zs_scores = [], zs_sorted = []\<rparr>"

definition zset_len :: "zset \<Rightarrow> nat" where
  "zset_len z = length (zs_scores z)"

definition zset_insert :: "zset \<Rightarrow> bytes \<Rightarrow> f64 \<Rightarrow> zset \<times> bool" where
  "zset_insert z member score =
     (let scores = AList.update member score (zs_scores z) in
      case map_of (zs_scores z) member of
        Some old \<Rightarrow>
          (\<lparr>zs_scores = scores,
            zs_sorted = insort_insert (OrdF64 score, member)
                          (remove1 (OrdF64 old, member) (zs_sorted z))\<rparr>, False)
      | None \<Rightarrow>
          (\<lparr>zs_scores = scores,
            zs_sorted = insort_insert (OrdF64 score, member) (zs_sorted z)\<rparr>, True))"

definition zset_remove :: "zset \<Rightarrow> bytes \<Rightarrow> zset \<times> bool" where
  "zset_remove z member =
     (case map_of (zs_scores z) member of
        Some score \<Rightarrow>
          (\<lparr>zs_scores = AList.delete member (zs_scores z),
            zs_sorted = remove1 (OrdF64 score, member) (zs_sorted z)\<rparr>, True)
      | None \<Rightarrow> (z, False))"

definition zset_score :: "zset \<Rightarrow> bytes \<Rightarrow> f64 option" where
  "zset_score z member = map_of (zs_scores z) member"

text \<open>The inclusive rank range with negative indices. The \<^verbatim>\<open>i64\<close> arithmetic is exact here:
  \<^verbatim>\<open>n + i\<close> is only computed for negative \<^verbatim>\<open>i\<close>, and \<^verbatim>\<open>e - s + 1\<close> for \<^verbatim>\<open>0 <= s <= e < n\<close>.\<close>

definition zset_norm :: "int \<Rightarrow> int \<Rightarrow> int" where
  "zset_norm n i = (if i < 0 then max (n + i) 0 else min i (n - 1))"

definition zset_range :: "zset \<Rightarrow> int \<Rightarrow> int \<Rightarrow> (bytes \<times> f64) list" where
  "zset_range z start stop =
     (let n = int (length (zs_sorted z)) in
      if n = 0 then []
      else let s = zset_norm n start; e = zset_norm n stop in
        if s > e then []
        else map (\<lambda>(score, m). (m, ord_bits score))
               (take (nat (e - s + 1)) (drop (nat s) (zs_sorted z))))"

definition zset_bytes :: "zset \<Rightarrow> nat" where
  "zset_bytes z = (\<Sum>k \<leftarrow> map fst (zs_scores z). length k + 8 + 24)"

section \<open>Values\<close>

datatype val =
    VStr bytes
  | VList "bytes list"
  | VHash "(bytes \<times> bytes) list"
  | VSet "bytes list"
  | VZSet zset

definition type_name :: "val \<Rightarrow> string" where
  "type_name v = (case v of VStr _ \<Rightarrow> ''string'' | VList _ \<Rightarrow> ''list'' | VHash _ \<Rightarrow> ''hash''
     | VSet _ \<Rightarrow> ''set'' | VZSet _ \<Rightarrow> ''zset'')"

definition value_bytes :: "val \<Rightarrow> nat" where
  "value_bytes v = (case v of
       VStr s \<Rightarrow> length s
     | VList l \<Rightarrow> (\<Sum>e \<leftarrow> l. length e + 16)
     | VHash h \<Rightarrow> (\<Sum>(k, w) \<leftarrow> h. length k + length w + 32)
     | VSet s \<Rightarrow> (\<Sum>m \<leftarrow> s. length m + 16)
     | VZSet z \<Rightarrow> zset_bytes z)"

section \<open>Collection operations\<close>

text \<open>\<^verbatim>\<open>iter().filter(|x| op(x)).count()\<close> with a mutating \<^verbatim>\<open>op\<close>, and the equivalent counting loops:
  \<open>op\<close> is run on every element in order and the number of \<^verbatim>\<open>true\<close> answers is the result.\<close>

fun count_ops :: "('c \<Rightarrow> 'a \<Rightarrow> 'c \<times> bool) \<Rightarrow> 'a list \<Rightarrow> 'c \<Rightarrow> nat \<times> 'c" where
  "count_ops op [] c = (0, c)"
| "count_ops op (x # xs) c =
     (let (c', b) = op c x; (n, c'') = count_ops op xs c' in ((if b then 1 else 0) + n, c''))"

fun push_all :: "bool \<Rightarrow> bytes list \<Rightarrow> bytes list \<Rightarrow> bytes list" where
  "push_all left [] l = l"
| "push_all left (v # vals) l = push_all left vals (if left then v # l else l @ [v])"

definition list_push :: "bytes list \<Rightarrow> bool \<Rightarrow> bytes list \<Rightarrow> nat \<times> bytes list" where
  "list_push vals left l = (let l' = push_all left vals l in (length l', l'))"

fun list_pop :: "nat \<Rightarrow> bool \<Rightarrow> bytes list \<Rightarrow> bytes list \<times> bytes list" where
  "list_pop 0 left l = ([], l)"
| "list_pop (Suc n) left [] = ([], [])"
| "list_pop (Suc n) left (x # l) =
     (let (item, rest) = (if left then (x, l) else (last (x # l), butlast (x # l)));
          (out, l') = list_pop n left rest
      in (item # out, l'))"

definition hash_insert :: "(bytes \<times> bytes) list \<Rightarrow> bytes \<times> bytes \<Rightarrow> (bytes \<times> bytes) list \<times> bool" where
  "hash_insert h fv = (AList.update (fst fv) (snd fv) h, map_of h (fst fv) = None)"

definition hash_remove :: "(bytes \<times> bytes) list \<Rightarrow> bytes \<Rightarrow> (bytes \<times> bytes) list \<times> bool" where
  "hash_remove h f = (AList.delete f h, map_of h f \<noteq> None)"

definition hset_insert :: "bytes list \<Rightarrow> bytes \<Rightarrow> bytes list \<times> bool" where
  "hset_insert s m = (if m \<in> set s then (s, False) else (s @ [m], True))"

definition hset_remove :: "bytes list \<Rightarrow> bytes \<Rightarrow> bytes list \<times> bool" where
  "hset_remove s m = (if m \<in> set s then (remove1 m s, True) else (s, False))"

definition zadd_op :: "zset \<Rightarrow> f64 \<times> bytes \<Rightarrow> zset \<times> bool" where
  "zadd_op z sm = zset_insert z (snd sm) (fst sm)"

text \<open>\<^verbatim>\<open>lrange\<close>: release builds wrap on overflow, which is reachable only in \<^verbatim>\<open>stop + 1\<close> (\<^verbatim>\<open>stop\<close> comes
  from the client and may be \<^verbatim>\<open>i64::MAX\<close>); the other sums have one negative operand.\<close>

definition wrap_i64 :: "int \<Rightarrow> int" where
  "wrap_i64 x = (x + 2 ^ 63) mod 2 ^ 64 - 2 ^ 63"

definition list_range :: "bytes list \<Rightarrow> int \<Rightarrow> int \<Rightarrow> bytes list" where
  "list_range l start stop =
     (let n = int (length l) in
      if n = 0 then []
      else
        let s = (if start < 0 then max (n + start) 0 else min start n);
            e = (if stop < 0 then max (n + stop + 1) 0 else min (wrap_i64 (stop + 1)) n)
        in if s \<ge> e then [] else take (nat (e - s)) (drop (nat s) l))"

section \<open>Association lists and finite maps\<close>

lemma alist_len: "distinct (map fst kvs) \<Longrightarrow> length kvs = card (dom (map_of kvs))"
  by (metis distinct_card dom_map_of_conv_image_fst length_map list.set_map)

lemma card_dom_upd: "finite (dom f) \<Longrightarrow> card (dom (f(k \<mapsto> v))) = card (dom f) + (if f k = None then 1 else 0)"
  by (auto simp: card_insert_if domIff)

lemma card_dom_del: "finite (dom f) \<Longrightarrow> card (dom (f(k := None))) + (if f k = None then 0 else 1) = card (dom f)"
  using card_Suc_Diff1 [of "dom f" k] by (cases "f k") (simp_all only: fun_upd_idem dom_fun_upd domI if_True
    if_False option.distinct simp_thms add_0_right add_Suc_right One_nat_def)

section \<open>Well-formed values\<close>

text \<open>The two indices of a sorted set agree, and the ordered one is sorted.\<close>

definition zset_ok :: "zset \<Rightarrow> bool" where
  "zset_ok z \<longleftrightarrow> distinct (map fst (zs_scores z)) \<and> sorted (zs_sorted z) \<and> distinct (zs_sorted z)
     \<and> set (zs_sorted z) = (\<lambda>(m, s). (OrdF64 s, m)) ` set (zs_scores z)"

definition value_ok :: "val \<Rightarrow> bool" where
  "value_ok v \<longleftrightarrow> (case v of
       VStr _ \<Rightarrow> True
     | VList l \<Rightarrow> l \<noteq> []
     | VHash h \<Rightarrow> h \<noteq> [] \<and> distinct (map fst h)
     | VSet s \<Rightarrow> s \<noteq> [] \<and> distinct s
     | VZSet z \<Rightarrow> zs_scores z \<noteq> [] \<and> zset_ok z)"

subsection \<open>Sorted sets\<close>

lemma zset_ok_default [simp]: "zset_ok zset_default"
  by (simp add: zset_ok_def zset_default_def)

lemma zset_ok_mem:
  "zset_ok z \<Longrightarrow> (OrdF64 s, m) \<in> set (zs_sorted z) \<longleftrightarrow> map_of (zs_scores z) m = Some s"
  unfolding zset_ok_def by (force simp: map_of_eq_Some_iff)

text \<open>The ordered index is a function of the score map alone.\<close>

definition zset_pairs :: "(bytes \<rightharpoonup> f64) \<Rightarrow> (ord_f64 \<times> bytes) set" where
  "zset_pairs f = {(x, m). f m = Some (ord_bits x)}"

lemma zset_pairs_del: "f m = Some s \<Longrightarrow> zset_pairs (f(m := None)) = zset_pairs f - {(OrdF64 s, m)}"
  by (auto simp: zset_pairs_def ord_f64.expand split: if_splits)

lemma zset_pairs_upd: "zset_pairs (f(m \<mapsto> s)) = insert (OrdF64 s, m) (zset_pairs (f(m := None)))"
  by (auto simp: zset_pairs_def ord_f64.expand split: if_splits)

lemma zset_pairs_map_of:
  "distinct (map fst sc) \<Longrightarrow> zset_pairs (map_of sc) = (\<lambda>(m, s). (OrdF64 s, m)) ` set sc"
  by (force simp: zset_pairs_def image_iff ord_f64.expand)

lemma zset_ok_iff:
  "zset_ok z \<longleftrightarrow> distinct (map fst (zs_scores z)) \<and> sorted (zs_sorted z) \<and> distinct (zs_sorted z)
     \<and> set (zs_sorted z) = zset_pairs (map_of (zs_scores z))"
  using zset_pairs_map_of [of "zs_scores z"] by (auto simp: zset_ok_def)

lemma zset_sorted_eq:
  assumes "zset_ok z"
  shows "zs_sorted z = sorted_list_of_set (zset_pairs (map_of (zs_scores z)))"
  using assms unfolding zset_ok_iff by (metis sorted_list_of_set.idem_if_sorted_distinct)

lemma zset_insert_ok:
  assumes "zset_ok z"
  shows "zset_ok (fst (zset_insert z m s))"
    and "map_of (zs_scores (fst (zset_insert z m s))) = (map_of (zs_scores z))(m \<mapsto> s)"
    and "snd (zset_insert z m s) \<longleftrightarrow> map_of (zs_scores z) m = None"
proof -
  let ?sc = "AList.update m s (zs_scores z)" and ?f = "map_of (zs_scores z)"
  let ?q = "case ?f m of None \<Rightarrow> zs_sorted z | Some old \<Rightarrow> remove1 (OrdF64 old, m) (zs_sorted z)"
  have fst: "fst (zset_insert z m s) = \<lparr>zs_scores = ?sc, zs_sorted = insort_insert (OrdF64 s, m) ?q\<rparr>"
    by (simp add: zset_insert_def split: option.splits)
  have ok: "distinct (map fst (zs_scores z))" "sorted (zs_sorted z)" "distinct (zs_sorted z)"
      "set (zs_sorted z) = zset_pairs ?f"
    using assms by (simp_all add: zset_ok_iff)
  have q: "sorted ?q" "distinct ?q" "set ?q = zset_pairs (?f(m := None))"
    using ok by (simp_all add: sorted_remove1 zset_pairs_del fun_upd_idem split: option.splits)
  show "zset_ok (fst (zset_insert z m s))"
    using q ok(1) unfolding fst zset_ok_iff
    by (simp add: distinct_update sorted_insort_insert distinct_insort_insert set_insort_insert
        update_conv' zset_pairs_upd)
  show "map_of (zs_scores (fst (zset_insert z m s))) = ?f(m \<mapsto> s)"
    by (simp add: fst update_conv')
  show "snd (zset_insert z m s) \<longleftrightarrow> ?f m = None"
    by (simp add: zset_insert_def Let_def split: option.splits)
qed

lemma zset_remove_ok:
  assumes "zset_ok z"
  shows "zset_ok (fst (zset_remove z m))"
    and "map_of (zs_scores (fst (zset_remove z m))) = (map_of (zs_scores z))(m := None)"
    and "snd (zset_remove z m) \<longleftrightarrow> map_of (zs_scores z) m \<noteq> None"
  using assms
  by (cases "map_of (zs_scores z) m";
      simp add: zset_remove_def zset_ok_iff distinct_delete sorted_remove1 delete_conv' zset_pairs_del fun_upd_idem)+

text \<open>The two indices always have the same number of entries.\<close>

lemma zset_len_card: "zset_ok z \<Longrightarrow> zset_len z = card (dom (map_of (zs_scores z)))"
  by (simp add: zset_len_def zset_ok_def alist_len)

lemma zset_sorted_len: "zset_ok z \<Longrightarrow> length (zs_sorted z) = zset_len z"
proof -
  assume "zset_ok z"
  then have "distinct (zs_sorted z)" "distinct (zs_scores z)"
    "set (zs_sorted z) = (\<lambda>(m, s). (OrdF64 s, m)) ` set (zs_scores z)"
    by (auto simp: zset_ok_def distinct_map)
  moreover have "inj_on (\<lambda>(m, s). (OrdF64 s, m)) (set (zs_scores z))" by (auto simp: inj_on_def)
  ultimately show ?thesis unfolding zset_len_def by (metis card_image distinct_card)
qed

subsection \<open>Counting loops\<close>

text \<open>The contract of a mutating element operation that answers whether it changed anything: it
  keeps the representation invariant \<open>ok\<close>, refines the abstract operation \<open>g\<close>, and answers
  \<^verbatim>\<open>true\<close> exactly when it adds an element (\<open>adding_op\<close>) or takes one away (\<open>removing_op\<close>). A
  counting loop over such an operation then folds \<open>g\<close> and counts the change of size.\<close>

locale element_op =
  fixes ok :: "'c \<Rightarrow> bool" and opr :: "'c \<Rightarrow> 'a \<Rightarrow> 'c \<times> bool"
    and \<alpha> :: "'c \<Rightarrow> 'b" and g :: "'a \<Rightarrow> 'b \<Rightarrow> 'b"
  assumes keeps: "ok c \<Longrightarrow> ok (fst (opr c x))"
    and refines: "ok c \<Longrightarrow> \<alpha> (fst (opr c x)) = g x (\<alpha> c)"
begin

lemma loop_keeps: "ok c \<Longrightarrow> ok (snd (count_ops opr xs c))"
  by (induction xs arbitrary: c) (auto simp: split_def Let_def keeps)

lemma loop_refines: "ok c \<Longrightarrow> \<alpha> (snd (count_ops opr xs c)) = fold g xs (\<alpha> c)"
  by (induction xs arbitrary: c) (auto simp: split_def Let_def keeps refines)

end

locale adding_op = element_op +
  fixes sz :: "'a \<Rightarrow> nat"
  assumes adds: "ok c \<Longrightarrow> sz (fst (opr c x)) = sz c + (if snd (opr c x) then 1 else 0)"
begin

lemma loop_counts: "ok c \<Longrightarrow> sz (snd (count_ops opr xs c)) = sz c + fst (count_ops opr xs c)"
  by (induction xs arbitrary: c) (auto simp: split_def Let_def keeps adds)

end

locale removing_op = element_op +
  fixes sz :: "'a \<Rightarrow> nat"
  assumes removes: "ok c \<Longrightarrow> sz (fst (opr c x)) + (if snd (opr c x) then 1 else 0) = sz c"
begin

lemma loop_counts: "ok c \<Longrightarrow> sz (snd (count_ops opr xs c)) + fst (count_ops opr xs c) = sz c"
proof (induction xs arbitrary: c)
  case (Cons x xs)
  from Cons.IH [OF keeps [OF Cons.prems], of x] removes [OF Cons.prems, of x] show ?case
    by (simp add: split_def Let_def split: if_splits)
qed simp

end

lemma fold_insert_union: "fold insert xs S = set xs \<union> S"
  by (induction xs arbitrary: S) auto

lemma fold_remove_diff: "fold (\<lambda>x S. S - {x}) xs S = S - set xs"
  by (induction xs arbitrary: S) auto

lemma fold_upd_None: "fold (\<lambda>x f. f(x := None)) xs f = f |` (- set xs)"
  by (induction xs arbitrary: f) (auto simp: restrict_map_def)

lemma fold_upd: "fold (\<lambda>(k, v) f. f(k \<mapsto> v)) kvs f = f ++ map_of (rev kvs)"
  by (induction kvs arbitrary: f) (auto simp: map_add_def split: option.splits)

subsection \<open>Hashes and sets\<close>

definition hash_ok :: "(bytes \<times> bytes) list \<Rightarrow> bool" where
  "hash_ok h \<longleftrightarrow> distinct (map fst h)"

lemma hash_insert_ok:
  assumes "hash_ok h"
  shows "hash_ok (fst (hash_insert h fv))" "map_of (fst (hash_insert h fv)) = (map_of h)(fst fv \<mapsto> snd fv)"
    "length (fst (hash_insert h fv)) = length h + (if snd (hash_insert h fv) then 1 else 0)"
proof -
  show ok: "hash_ok (fst (hash_insert h fv))" "map_of (fst (hash_insert h fv)) = (map_of h)(fst fv \<mapsto> snd fv)"
    using assms by (simp_all add: hash_insert_def hash_ok_def distinct_update update_conv')
  then show "length (fst (hash_insert h fv)) = length h + (if snd (hash_insert h fv) then 1 else 0)"
    using assms unfolding hash_ok_def
    by (simp only: alist_len card_dom_upd finite_dom_map_of) (simp only: hash_insert_def snd_conv)
qed

lemma hash_remove_ok:
  assumes "hash_ok h"
  shows "hash_ok (fst (hash_remove h f))" "map_of (fst (hash_remove h f)) = (map_of h)(f := None)"
    "length (fst (hash_remove h f)) + (if snd (hash_remove h f) then 1 else 0) = length h"
proof -
  show ok: "hash_ok (fst (hash_remove h f))" "map_of (fst (hash_remove h f)) = (map_of h)(f := None)"
    using assms by (simp_all add: hash_remove_def hash_ok_def distinct_delete delete_conv')
  then show "length (fst (hash_remove h f)) + (if snd (hash_remove h f) then 1 else 0) = length h"
    using assms card_dom_del [OF finite_dom_map_of, of h f] unfolding hash_ok_def
    by (simp only: alist_len) (cases "map_of h f = None", simp_all add: hash_remove_def)
qed

lemma hset_insert_ok:
  assumes "distinct s"
  shows "distinct (fst (hset_insert s m))" "set (fst (hset_insert s m)) = insert m (set s)"
    "length (fst (hset_insert s m)) = length s + (if snd (hset_insert s m) then 1 else 0)"
  using assms by (auto simp: hset_insert_def)

lemma hset_remove_ok:
  assumes "distinct s"
  shows "distinct (fst (hset_remove s m))" "set (fst (hset_remove s m)) = set s - {m}"
    "length (fst (hset_remove s m)) + (if snd (hset_remove s m) then 1 else 0) = length s"
  using assms length_pos_if_in_set [of m s] by (auto simp: hset_remove_def length_remove1)

interpretation hset: adding_op hash_ok hash_insert map_of "\<lambda>kv f. f(fst kv \<mapsto> snd kv)" length
  by unfold_locales (rule hash_insert_ok; assumption)+

interpretation hdel: removing_op hash_ok hash_remove map_of "\<lambda>x f. f(x := None)" length
  by unfold_locales (rule hash_remove_ok; assumption)+

interpretation sadd: adding_op distinct hset_insert set insert length
  by unfold_locales (rule hset_insert_ok; assumption)+

interpretation srem: removing_op distinct hset_remove set "\<lambda>x S. S - {x}" length
  by unfold_locales (rule hset_remove_ok; assumption)+

interpretation zadd: adding_op zset_ok zadd_op "\<lambda>z. map_of (zs_scores z)" "\<lambda>x f. f(snd x \<mapsto> fst x)" zset_len
proof
  fix z x
  assume ok: "zset_ok z"
  show "zset_ok (fst (zadd_op z x))" "map_of (zs_scores (fst (zadd_op z x))) = (map_of (zs_scores z))(snd x \<mapsto> fst x)"
    using zset_insert_ok [OF ok] by (simp_all add: zadd_op_def)
  show "zset_len (fst (zadd_op z x)) = zset_len z + (if snd (zadd_op z x) then 1 else 0)"
    using zset_insert_ok [OF ok] card_dom_upd [OF finite_dom_map_of]
    by (simp only: zset_len_card ok zadd_op_def)
qed

interpretation zrem: removing_op zset_ok zset_remove "\<lambda>z. map_of (zs_scores z)" "\<lambda>x f. f(x := None)" zset_len
proof
  fix z x
  assume ok: "zset_ok z"
  show "zset_ok (fst (zset_remove z x))" "map_of (zs_scores (fst (zset_remove z x))) = (map_of (zs_scores z))(x := None)"
    using zset_remove_ok [OF ok] by simp_all
  show "zset_len (fst (zset_remove z x)) + (if snd (zset_remove z x) then 1 else 0) = zset_len z"
    using zset_remove_ok [OF ok, of x] card_dom_del [OF finite_dom_map_of, of "zs_scores z" x]
    by (simp only: zset_len_card ok) (simp split: if_splits)
qed

subsection \<open>Lists\<close>

lemma push_all_eq: "push_all left vals l = (if left then rev vals @ l else l @ vals)"
  by (induction vals arbitrary: l) auto

lemma list_pop_eq:
  "list_pop n left l = (if left then (take n l, drop n l) else (take n (rev l), rev (drop n (rev l))))"
proof (induction n left l rule: list_pop.induct)
  case (3 n left x l)
  then show ?case
    by (cases left) (simp_all add: split_def Let_def take_Cons' butlast_rev [symmetric] flip: last_rev, (cases "rev l"; simp)+)
qed auto

text \<open>Rank ranges. The reference reads as the command is documented: a negative index counts from
  the end, and the result holds, in order, the elements whose rank lies between the two.\<close>

definition rank_of :: "nat \<Rightarrow> int \<Rightarrow> int" where
  "rank_of n i = (if i < 0 then int n + i else i)"

definition rank_range :: "'a list \<Rightarrow> int \<Rightarrow> int \<Rightarrow> 'a list" where
  "rank_range l start stop =
     nths l {i. rank_of (length l) start \<le> int i \<and> int i \<le> rank_of (length l) stop}"

lemma nths_window:
  assumes "\<And>i. i < length l \<Longrightarrow> P i \<longleftrightarrow> a \<le> i \<and> i < a + k"
  shows "nths l {i. P i} = take k (drop a l)"
proof -
  have "take k (drop a l) = nths l ((+) a ` {..<k})"
    by (metis nths_drop nths_upt_eq_take)
  also have "(+) a ` {..<k} = {i. a \<le> i \<and> i < a + k}"
    by (auto simp: image_iff Bex_def) presburger
  also have "nths l \<dots> = nths l {i. P i}"
    using assms by (auto simp: nths_def intro!: arg_cong [where f = "map fst"] filter_cong dest!: set_zip_rightD)
  finally show ?thesis ..
qed

lemma list_range_eq:
  assumes "stop \<noteq> 2 ^ 63 - 1" "- (2 ^ 63) \<le> stop" "stop < 2 ^ 63"
  shows "list_range l start stop = rank_range l start stop"
proof -
  have wrap: "wrap_i64 (stop + 1) = stop + 1" using assms by (simp add: wrap_i64_def)
  let ?n = "int (length l)"
  let ?s = "if start < 0 then max (?n + start) 0 else min start ?n"
    and ?e = "if stop < 0 then max (?n + stop + 1) 0 else min (stop + 1) ?n"
  have "rank_range l start stop = take (nat (?e - ?s)) (drop (nat ?s) l)"
    unfolding rank_range_def by (rule nths_window) (auto simp: rank_of_def)
  then show ?thesis using wrap by (auto simp: list_range_def Let_def)
qed

lemma zset_range_eq:
  assumes "start < int (length (zs_sorted z))" "- int (length (zs_sorted z)) \<le> stop"
  shows "zset_range z start stop = map (\<lambda>(score, m). (m, ord_bits score)) (rank_range (zs_sorted z) start stop)"
proof -
  let ?n = "int (length (zs_sorted z))"
  have "rank_range (zs_sorted z) start stop =
      take (nat (zset_norm ?n stop - zset_norm ?n start + 1)) (drop (nat (zset_norm ?n start)) (zs_sorted z))"
    if "zs_sorted z \<noteq> []"
    unfolding rank_range_def by (rule nths_window) (use assms that in \<open>auto simp: rank_of_def zset_norm_def\<close>)
  moreover have "rank_range (zs_sorted z) start stop = []" if "zs_sorted z = []"
    using that by (simp add: rank_range_def)
  ultimately show ?thesis by (auto simp: zset_range_def Let_def)
qed

section \<open>Properties\<close>

text \<open>C14: Adding a member to a sorted set, new or not, keeps its two indices consistent: the ordered
  index is the sorted list of the (score, member) pairs of the updated score map, the new score
  is the one read back, and the answer says whether the member is new.\<close>

theorem zset_insert_refines:
  assumes "zset_ok z"
  shows "zset_ok (fst (zset_insert z m s))
    \<and> zs_sorted (fst (zset_insert z m s)) = sorted_list_of_set (zset_pairs ((map_of (zs_scores z))(m \<mapsto> s)))
    \<and> zset_score (fst (zset_insert z m s)) m = Some s
    \<and> (snd (zset_insert z m s) \<longleftrightarrow> zset_score z m = None)"
  using zset_insert_ok [OF assms, of m s] zset_sorted_eq [OF zset_insert_ok(1) [OF assms, of m s]]
  by (simp add: zset_score_def)

theorem zset_insert_refines_witness:
  "zset_ok (fst (zset_insert (fst (zset_insert zset_default ''a'' 5)) ''a'' 1))
    \<and> zset_score (fst (zset_insert (fst (zset_insert zset_default ''a'' 5)) ''a'' 1)) ''a'' = Some 1"
  using zset_insert_refines [OF zset_insert_ok(1) [OF zset_ok_default, of "''a''" 5], of "''a''" 1] by simp

text \<open>A sorted set with three members, for the examples below.\<close>

definition zset_abc :: zset where
  "zset_abc = fst (zset_insert (fst (zset_insert (fst (zset_insert zset_default ''c'' 3)) ''a'' 1)) ''b'' 2)"

lemma zset_abc_sorted: "zs_sorted zset_abc = [(OrdF64 1, ''a''), (OrdF64 2, ''b''), (OrdF64 3, ''c'')]"
  by code_simp

text \<open>C15: \<^verbatim>\<open>ZRANGE\<close> with a start rank below the length and a stop rank that is not before the first
  element returns exactly the members whose rank lies in the range, in order.\<close>

theorem zset_range_correct:
  assumes "start < int (length (zs_sorted z))" "- int (length (zs_sorted z)) \<le> stop"
  shows "zset_range z start stop = map (\<lambda>(score, m). (m, ord_bits score)) (rank_range (zs_sorted z) start stop)"
  using assms by (rule zset_range_eq)

theorem zset_range_correct_witness: "zset_range zset_abc (-2) (-1) = [(''b'', 2), (''c'', 3)]"
  using zset_range_correct [of "-2" zset_abc "-1"]
  by (simp add: zset_abc_sorted rank_range_def rank_of_def nths_Cons)


text \<open>C17: \<^verbatim>\<open>LRANGE\<close> returns exactly the elements whose rank lies in the range, for every stop index but
  the largest \<^verbatim>\<open>i64\<close>.\<close>

theorem list_range_correct:
  assumes "- (2 ^ 63) \<le> stop" "stop < 2 ^ 63" "stop \<noteq> 2 ^ 63 - 1"
  shows "list_range l start stop = rank_range l start stop"
  using assms by (intro list_range_eq)

theorem list_range_correct_witness: "list_range [''a'', ''b'', ''c''] 1 (-1) = [''b'', ''c'']"
  using list_range_correct [of "-1" "[''a'', ''b'', ''c'']" 1]
  by (simp add: rank_range_def rank_of_def nths_Cons)

text \<open>C18: With the stop index \<^verbatim>\<open>i64::MAX\<close> the sum \<^verbatim>\<open>stop + 1\<close> wraps to \<^verbatim>\<open>i64::MIN\<close> and \<^verbatim>\<open>LRANGE\<close> of every non-empty
  list is empty, where the range is the whole list.\<close>

theorem list_range_max_stop:
  assumes "l \<noteq> []" "int (length l) < 2 ^ 63"
  shows "list_range l 0 (2 ^ 63 - 1) = [] \<and> rank_range l 0 (2 ^ 63 - 1) = l"
proof
  have "wrap_i64 (2 ^ 63 - 1 + 1) = - (2 ^ 63)" by (simp add: wrap_i64_def)
  then show "list_range l 0 (2 ^ 63 - 1) = []" by (simp add: list_range_def Let_def)
  show "rank_range l 0 (2 ^ 63 - 1) = l"
    using nths_window [of l "\<lambda>i. rank_of (length l) 0 \<le> int i \<and> int i \<le> rank_of (length l) (2 ^ 63 - 1)" 0 "length l"] assms(2)
    by (simp add: rank_range_def rank_of_def)
qed

theorem list_range_max_stop_witness:
  "list_range [''a''] 0 9223372036854775807 = [] \<and> rank_range [''a''] 0 9223372036854775807 = [''a'']"
  using list_range_max_stop [of "[''a'']"] by simp

text \<open>Popping as many elements as were pushed, at the same end, returns them in reverse order and
  restores the list.\<close>

theorem list_pop_push: "list_pop (length vs) left (snd (list_push vs left l)) = (rev vs, l)"
  by (simp add: list_push_def Let_def push_all_eq list_pop_eq)

text \<open>\<^verbatim>\<open>HSET\<close> with several pairs: the result maps every field to its last value, the other fields
  are kept, and the answer is the number of new fields.\<close>

theorem hset_effect:
  assumes "hash_ok h"
  shows "hash_ok (snd (count_ops hash_insert kvs h))
    \<and> map_of (snd (count_ops hash_insert kvs h)) = map_of h ++ map_of (rev kvs)
    \<and> length (snd (count_ops hash_insert kvs h)) = length h + fst (count_ops hash_insert kvs h)"
  using hset.loop_keeps [OF assms] hset.loop_refines [OF assms] hset.loop_counts [OF assms]
    fold_upd [of kvs "map_of h"] by (simp add: split_def)

theorem hset_effect_witness:
  "map_of (snd (count_ops hash_insert [(''f'', ''2''), (''g'', ''3'')] [(''f'', ''1'')])) ''f'' = Some ''2''
     \<and> length (snd (count_ops hash_insert [(''f'', ''2''), (''g'', ''3'')] [(''f'', ''1'')])) = 2"
proof -
  have "fst (count_ops hash_insert [(''f'', ''2''), (''g'', ''3'')] [(''f'', ''1'')]) = 1"
    by (simp add: hash_insert_def)
  then show ?thesis
    using hset_effect [of "[(''f'', ''1'')]" "[(''f'', ''2''), (''g'', ''3'')]"] by (simp add: hash_ok_def)
qed

text \<open>\<^verbatim>\<open>SREM\<close> removes exactly the given members and answers how many were present, repetitions
  counted once.\<close>

theorem srem_effect:
  assumes "distinct s"
  shows "distinct (snd (count_ops hset_remove ms s)) \<and> set (snd (count_ops hset_remove ms s)) = set s - set ms
    \<and> fst (count_ops hset_remove ms s) = card (set s \<inter> set ms)"
proof -
  let ?s = "snd (count_ops hset_remove ms s)"
  have d: "distinct ?s" and set: "set ?s = set s - set ms"
    using srem.loop_keeps [OF assms] srem.loop_refines [OF assms] by (simp_all add: fold_remove_diff)
  have "card (set s - set ms) + fst (count_ops hset_remove ms s) = card (set s)"
    using srem.loop_counts [OF assms, of ms] distinct_card [OF d] distinct_card [OF assms] set by simp
  moreover have "card (set s - set ms) + card (set s \<inter> set ms) = card (set s)"
    by (metis List.finite_set add.commute card_Int_Diff)
  ultimately show ?thesis using d set by simp
qed

theorem srem_effect_witness:
  "fst (count_ops hset_remove [''b'', ''x'', ''b''] [''a'', ''b'']) = 1
     \<and> set (snd (count_ops hset_remove [''b'', ''x'', ''b''] [''a'', ''b''])) = {''a''}"
  using srem_effect [of "[''a'', ''b'']" "[''b'', ''x'', ''b'']"] by auto

end
