(* ===== verification/Shard.thy ===== *)
theory Shard
  imports S3_Fifo Value_Types
begin

text \<open>
  One shard of the store (\<^verbatim>\<open>struct Shard\<close> of \<^verbatim>\<open>crates/core/src/store.rs\<close>): a flat map of entries, the
  eviction policy over its keys, a running byte count and the byte budget. This theory models
  the shard's helpers (\<^verbatim>\<open>drop_key\<close>, \<^verbatim>\<open>touch\<close>, \<^verbatim>\<open>live\<close>, \<^verbatim>\<open>enforce_budget\<close>, \<^verbatim>\<open>put_new\<close>) and the macro
  \<^verbatim>\<open>with_collection!\<close>, and shows that the byte count is exact, that map and policy track the
  same keys, and that enforcing the budget terminates within it.
\<close>

section \<open>Data\<close>

definition ENTRY_OVERHEAD :: nat where "ENTRY_OVERHEAD = 64"

definition WRONGTYPE :: string where
  "WRONGTYPE = ''WRONGTYPE Operation against a key holding the wrong kind of value''"

text \<open>\<^verbatim>\<open>Result<T, &'static str>\<close>: \<^const>\<open>Inl\<close> is \<^verbatim>\<open>Err\<close>, \<^const>\<open>Inr\<close> is \<^verbatim>\<open>Ok\<close>.\<close>

type_synonym 'a result = "string + 'a"

record entry =
  en_value :: val
  en_expire_at :: "u64 option"

record shard =
  sh_map :: "entry flat_map"
  sh_pol :: s3fifo
  sh_bytes :: nat
  sh_budget :: nat

definition key_overhead :: "nat \<Rightarrow> nat" where
  "key_overhead key_len = key_len + ENTRY_OVERHEAD"

text \<open>Every \<^verbatim>\<open>FlatMap::new\<close> draws a fresh randomly seeded hasher; a shard has three.\<close>

record hashers =
  h_map :: "bytes \<Rightarrow> u64"
  h_meta :: "bytes \<Rightarrow> u64"
  h_ghost :: "bytes \<Rightarrow> u64"

section \<open>Operations\<close>

definition shard_new :: "hashers \<Rightarrow> nat \<Rightarrow> shard" where
  "shard_new hs budget =
     \<lparr>sh_map = fm_new (h_map hs), sh_pol = s3_new (h_meta hs) (h_ghost hs), sh_bytes = 0, sh_budget = budget\<rparr>"

definition drop_key :: "shard \<Rightarrow> bytes \<Rightarrow> (shard \<times> bool) option" where
  "drop_key s key =
     do {
       (m, old) \<leftarrow> fm_remove (sh_map s) key;
       (case old of
          None \<Rightarrow> Some (s\<lparr>sh_map := m\<rparr>, False)
        | Some e \<Rightarrow> do {
            b \<leftarrow> usub (sh_bytes s) (key_overhead (length key) + value_bytes (en_value e));
            p \<leftarrow> (if sh_budget s \<noteq> 0 then s3_remove (sh_pol s) key else Some (sh_pol s));
            Some (s\<lparr>sh_map := m, sh_bytes := b, sh_pol := p\<rparr>, True)
          })
     }"

definition touch :: "shard \<Rightarrow> bytes \<Rightarrow> shard option" where
  "touch s key =
     (if sh_budget s \<noteq> 0 then do { p \<leftarrow> s3_touch (sh_pol s) key; Some (s\<lparr>sh_pol := p\<rparr>) }
      else Some s)"

definition expired :: "u64 \<Rightarrow> entry \<Rightarrow> bool" where
  "expired now e = (case en_expire_at e of Some t \<Rightarrow> t \<le> now | None \<Rightarrow> False)"

definition live :: "shard \<Rightarrow> bytes \<Rightarrow> u64 \<Rightarrow> (shard \<times> bool) option" where
  "live s key now =
     do {
       found \<leftarrow> fm_get (sh_map s) key;
       (case found of
          None \<Rightarrow> Some (s, False)
        | Some e \<Rightarrow>
            if expired now e then do { (s, _) \<leftarrow> drop_key s key; Some (s, False) }
            else Some (s, True))
     }"

partial_function (option) budget_loop :: "shard \<Rightarrow> shard option" where
  "budget_loop s =
     (if sh_bytes s > sh_budget s then do {
        (victim, p) \<leftarrow> s3_evict_one (sh_pol s);
        (case victim of
           Some v \<Rightarrow> do { (s, _) \<leftarrow> drop_key (s\<lparr>sh_pol := p\<rparr>) v; budget_loop s }
         | None \<Rightarrow> Some (s\<lparr>sh_pol := p\<rparr>))
      } else Some s)"

declare budget_loop.simps [code]

definition enforce_budget :: "shard \<Rightarrow> shard option" where
  "enforce_budget s = (if sh_budget s = 0 then Some s else budget_loop s)"

definition put_new :: "shard \<Rightarrow> bytes \<Rightarrow> val \<Rightarrow> u64 option \<Rightarrow> shard option" where
  "put_new s key v expire_at =
     do {
       let b = sh_bytes s + (key_overhead (length key) + value_bytes v);
       (m, _) \<leftarrow> fm_insert (sh_map s) key \<lparr>en_value = v, en_expire_at = expire_at\<rparr>;
       p \<leftarrow> (if sh_budget s \<noteq> 0 then s3_insert (sh_pol s) key else Some (sh_pol s));
       Some (s\<lparr>sh_bytes := b, sh_map := m, sh_pol := p\<rparr>)
     }"

text \<open>The macro \<^verbatim>\<open>with_collection!\<close>. Its \<^verbatim>\<open>$variant\<close> and \<^verbatim>\<open>$make\<close> arguments, with the emptiness test that
  the trait \<^verbatim>\<open>MaybeEmpty\<close> selects for the variant, are a record; \<open>body\<close> is its closure. The third
  arm of its inner match is \<^verbatim>\<open>unreachable!\<close>, a panic.\<close>

record 'c variant =
  vr_inj :: "'c \<Rightarrow> val"
  vr_proj :: "val \<Rightarrow> 'c option"
  vr_make :: 'c
  vr_empty :: "'c \<Rightarrow> bool"

definition list_variant :: "bytes list variant" where
  "list_variant = \<lparr>vr_inj = VList, vr_proj = (\<lambda>v. case v of VList l \<Rightarrow> Some l | _ \<Rightarrow> None),
     vr_make = [], vr_empty = (\<lambda>l. l = [])\<rparr>"

definition hash_variant :: "(bytes \<times> bytes) list variant" where
  "hash_variant = \<lparr>vr_inj = VHash, vr_proj = (\<lambda>v. case v of VHash h \<Rightarrow> Some h | _ \<Rightarrow> None),
     vr_make = [], vr_empty = (\<lambda>h. h = [])\<rparr>"

definition set_variant :: "bytes list variant" where
  "set_variant = \<lparr>vr_inj = VSet, vr_proj = (\<lambda>v. case v of VSet s \<Rightarrow> Some s | _ \<Rightarrow> None),
     vr_make = [], vr_empty = (\<lambda>s. s = [])\<rparr>"

definition zset_variant :: "zset variant" where
  "zset_variant = \<lparr>vr_inj = VZSet, vr_proj = (\<lambda>v. case v of VZSet z \<Rightarrow> Some z | _ \<Rightarrow> None),
     vr_make = zset_default, vr_empty = (\<lambda>z. zset_len z = 0)\<rparr>"

text \<open>The write of the mutated collection \<open>c'\<close> and the reconciliation that follows it.\<close>

definition coll_commit :: "'c variant \<Rightarrow> bytes \<Rightarrow> nat \<Rightarrow> 'c \<Rightarrow> shard \<Rightarrow> shard option" where
  "coll_commit V key before c' s =
     do {
       m \<leftarrow> fm_get_mut (sh_map s) key (\<lambda>e. e\<lparr>en_value := vr_inj V c'\<rparr>);
       let s = s\<lparr>sh_map := m\<rparr>;
       found \<leftarrow> fm_get (sh_map s) key;
       let after = (case found of Some e \<Rightarrow> value_bytes (en_value e) | None \<Rightarrow> 0);
       b \<leftarrow> usub (sh_bytes s + after) before;
       s \<leftarrow> touch (s\<lparr>sh_bytes := b\<rparr>) key;
       found \<leftarrow> fm_get (sh_map s) key;
       let is_empty = (case found of
           Some e \<Rightarrow> (case vr_proj V (en_value e) of Some c \<Rightarrow> vr_empty V c | None \<Rightarrow> False)
         | None \<Rightarrow> False);
       (if is_empty then do { (s, _) \<leftarrow> drop_key s key; Some s } else enforce_budget s)
     }"

definition with_collection ::
  "'c variant \<Rightarrow> u64 \<Rightarrow> bytes \<Rightarrow> ('c \<Rightarrow> 'r \<times> 'c) \<Rightarrow> shard \<Rightarrow> (shard \<times> 'r result) option"
where
  "with_collection V now key body s =
     do {
       (s, existed) \<leftarrow> live s key now;
       s \<leftarrow> (if \<not> existed then put_new s key (vr_inj V (vr_make V)) None else Some s);
       found \<leftarrow> fm_get (sh_map s) key;
       (case found of
          None \<Rightarrow> None
        | Some e \<Rightarrow>
            let before = value_bytes (en_value e) in
            (case vr_proj V (en_value e) of
               None \<Rightarrow> Some (s, Inl WRONGTYPE)
             | Some c \<Rightarrow>
                 let (r, c') = body c in
                 do { s \<leftarrow> coll_commit V key before c' s; Some (s, Inr r) }))
     }"

section \<open>Invariant\<close>

type_synonym keyspace = "bytes \<rightharpoonup> entry"

abbreviation sh_ks :: "shard \<Rightarrow> keyspace" where
  "sh_ks s \<equiv> fm_map (sh_map s)"

abbreviation sh_keys :: "shard \<Rightarrow> bytes set" where
  "sh_keys s \<equiv> dom (s3_live (sh_pol s))"

definition entry_cost :: "bytes \<Rightarrow> entry \<Rightarrow> nat" where
  "entry_cost k e = key_overhead (length k) + value_bytes (en_value e)"

abbreviation ks_bytes :: "keyspace \<Rightarrow> nat" where
  "ks_bytes f \<equiv> msum entry_cost f"

text \<open>The part of the invariant that holds even between the policy's choice of a victim and the
  victim's removal from the map, and the whole of it between operations.\<close>

definition sh_core :: "shard \<Rightarrow> bool" where
  "sh_core s \<longleftrightarrow> fm_inv (sh_map s) \<and> sh_bytes s = ks_bytes (sh_ks s)
     \<and> (sh_budget s \<noteq> 0 \<longrightarrow> s3_inv (sh_pol s))"

definition sh_wf :: "shard \<Rightarrow> bool" where
  "sh_wf s \<longleftrightarrow> sh_core s \<and> (sh_budget s \<noteq> 0 \<longrightarrow> sh_keys s = dom (sh_ks s))"

definition vals_ok :: "keyspace \<Rightarrow> bool" where
  "vals_ok f \<longleftrightarrow> (\<forall>e \<in> ran f. value_ok (en_value e))"

definition sh_inv :: "shard \<Rightarrow> bool" where
  "sh_inv s \<longleftrightarrow> sh_wf s \<and> vals_ok (sh_ks s) \<and> (sh_budget s \<noteq> 0 \<longrightarrow> sh_bytes s \<le> sh_budget s)"

text \<open>What a cell of a keyspace shows at a given time: an expired entry counts as absent.\<close>

definition vis :: "u64 \<Rightarrow> entry option \<Rightarrow> entry option" where
  "vis now c = (case c of Some e \<Rightarrow> if expired now e then None else Some e | None \<Rightarrow> None)"

text \<open>What budget enforcement may do to a keyspace: nothing without a budget or within it, else
  only drop entries, down to the budget.\<close>

definition evicted :: "nat \<Rightarrow> keyspace \<Rightarrow> keyspace \<Rightarrow> bool" where
  "evicted budget f g \<longleftrightarrow> g \<subseteq>\<^sub>m f \<and> (budget \<noteq> 0 \<longrightarrow> ks_bytes g \<le> budget)
     \<and> (budget = 0 \<or> ks_bytes f \<le> budget \<longrightarrow> g = f)"

section \<open>Keyspaces\<close>

lemma vis_cases: "vis now c = None \<or> vis now c = c"
  by (simp add: vis_def split: option.splits)

lemma vis_Some_iff: "vis now c = Some e \<longleftrightarrow> c = Some e \<and> \<not> expired now e"
  by (auto simp: vis_def split: option.splits if_splits)

lemma vals_ok_upd: "vals_ok f \<Longrightarrow> value_ok (en_value e) \<Longrightarrow> vals_ok (f(k \<mapsto> e))"
  by (auto simp: vals_ok_def ran_def)

lemma vals_ok_get: "vals_ok f \<Longrightarrow> f k = Some e \<Longrightarrow> value_ok (en_value e)"
  by (auto simp: vals_ok_def ran_def)

lemma vals_ok_le: "vals_ok f \<Longrightarrow> g \<subseteq>\<^sub>m f \<Longrightarrow> vals_ok g"
  by (fastforce simp: vals_ok_def ran_def map_le_def dom_def)

lemma map_le_del: "f(k := None) \<subseteq>\<^sub>m f"
  by (simp add: map_le_def)

lemma map_le_vis: "f(k := vis now (f k)) \<subseteq>\<^sub>m f"
  using vis_cases [of now "f k"] by (auto simp: map_le_def)

lemma ks_bytes_le:
  assumes "finite (dom f)" "g \<subseteq>\<^sub>m f" shows "ks_bytes g \<le> ks_bytes f"
proof -
  have "ks_bytes g = (\<Sum>k \<in> dom g. entry_cost k (the (f k)))"
    unfolding msum_def using assms(2) by (intro sum.cong) (auto simp: map_le_def)
  also have "\<dots> \<le> ks_bytes f"
    unfolding msum_def using assms by (intro sum_mono2) (auto simp: map_le_def dom_def)
  finally show ?thesis .
qed

lemma evicted_refl: "budget \<noteq> 0 \<longrightarrow> ks_bytes f \<le> budget \<Longrightarrow> evicted budget f f"
  by (simp add: evicted_def)

section \<open>What each helper does\<close>

lemma shard_new_inv [simp]: "sh_inv (shard_new hs budget)" "sh_ks (shard_new hs budget) = Map.empty"
  "sh_budget (shard_new hs budget) = budget"
  by (simp_all add: shard_new_def sh_inv_def sh_wf_def sh_core_def vals_ok_def)

lemma drop_key_core:
  assumes core: "sh_core s"
  obtains s' where "drop_key s k = Some (s', sh_ks s k \<noteq> None)" "sh_core s'"
    "sh_ks s' = (sh_ks s)(k := None)" "sh_budget s' = sh_budget s"
    "sh_budget s \<noteq> 0 \<longrightarrow> sh_keys s' = (if sh_ks s k = None then sh_keys s else sh_keys s - {k})"
proof -
  have inv: "fm_inv (sh_map s)" and bytes: "sh_bytes s = ks_bytes (sh_ks s)"
    and pol: "sh_budget s \<noteq> 0 \<Longrightarrow> s3_inv (sh_pol s)"
    using core by (auto simp: sh_core_def)
  obtain m where m: "fm_remove (sh_map s) k = Some (m, sh_ks s k)" "fm_inv m" "fm_map m = (sh_ks s)(k := None)"
    by (rule fm.remE [OF inv])
  show thesis
  proof (cases "sh_ks s k")
    case None
    with m core show thesis
      by (intro that [of "s\<lparr>sh_map := m\<rparr>"]) (auto simp: drop_key_def sh_core_def fun_upd_idem)
  next
    case (Some e)
    have cost: "ks_bytes (sh_ks s) = entry_cost k e + ks_bytes ((sh_ks s)(k := None))"
      by (rule msum_remove [OF fm.finite_dom [OF inv] Some])
    obtain p where p: "(if sh_budget s \<noteq> 0 then s3_remove (sh_pol s) k else Some (sh_pol s)) = Some p"
        "sh_budget s \<noteq> 0 \<Longrightarrow> s3_inv p \<and> dom (s3_live p) = sh_keys s - {k}"
    proof (cases "sh_budget s = 0")
      case False
      obtain p where "s3_remove (sh_pol s) k = Some p" "s3_inv p" "dom (s3_live p) = sh_keys s - {k}"
        by (rule s3.removeE [OF pol [OF False]])
      with False that show thesis by simp
    qed (use that in simp)
    have "drop_key s k = Some (s\<lparr>sh_map := m, sh_bytes := ks_bytes ((sh_ks s)(k := None)), sh_pol := p\<rparr>, True)"
      using m(1) Some p(1) bytes cost by (simp add: drop_key_def entry_cost_def)
    with m Some p(2) show thesis
      by (intro that [of "s\<lparr>sh_map := m, sh_bytes := ks_bytes ((sh_ks s)(k := None)), sh_pol := p\<rparr>"])
         (auto simp: sh_core_def)
  qed
qed

lemma drop_keyE:
  assumes "sh_wf s"
  obtains s' where "drop_key s k = Some (s', sh_ks s k \<noteq> None)" "sh_wf s'"
    "sh_ks s' = (sh_ks s)(k := None)" "sh_budget s' = sh_budget s"
proof -
  have core: "sh_core s" and sync: "sh_budget s \<noteq> 0 \<Longrightarrow> sh_keys s = dom (sh_ks s)"
    using assms by (auto simp: sh_wf_def)
  obtain s' where s': "drop_key s k = Some (s', sh_ks s k \<noteq> None)" "sh_core s'"
      "sh_ks s' = (sh_ks s)(k := None)" "sh_budget s' = sh_budget s"
      "sh_budget s \<noteq> 0 \<longrightarrow> sh_keys s' = (if sh_ks s k = None then sh_keys s else sh_keys s - {k})"
    by (rule drop_key_core [OF core])
  have "sh_wf s'" unfolding sh_wf_def using s' sync by (auto split: if_splits)
  with s' that show thesis by blast
qed

lemma sh_touchE:
  assumes "sh_wf s"
  obtains p where "touch s k = Some (s\<lparr>sh_pol := p\<rparr>)" "sh_wf (s\<lparr>sh_pol := p\<rparr>)"
proof (cases "sh_budget s = 0")
  case True
  then show thesis using assms by (intro that [of "sh_pol s"]) (simp_all add: touch_def)
next
  case False
  with assms have inv: "s3_inv (sh_pol s)" by (simp add: sh_wf_def sh_core_def)
  obtain p where "s3_touch (sh_pol s) k = Some p" "s3_inv p" "dom (s3_live p) = sh_keys s"
    by (rule s3.touchE [OF inv])
  with False assms show thesis
    by (intro that [of p]) (simp_all add: touch_def sh_wf_def sh_core_def)
qed

lemma liveE:
  assumes wf: "sh_wf s"
  obtains s' where "live s k now = Some (s', vis now (sh_ks s k) \<noteq> None)" "sh_wf s'"
    "sh_ks s' = (sh_ks s)(k := vis now (sh_ks s k))" "sh_budget s' = sh_budget s"
proof -
  have get: "fm_get (sh_map s) k = Some (sh_ks s k)"
    using wf by (simp add: fm.get_law sh_wf_def sh_core_def)
  obtain s' where s': "drop_key s k = Some (s', sh_ks s k \<noteq> None)" "sh_wf s'"
      "sh_ks s' = (sh_ks s)(k := None)" "sh_budget s' = sh_budget s"
    by (rule drop_keyE [OF wf])
  show thesis
  proof (cases "\<exists>e. sh_ks s k = Some e \<and> expired now e")
    case True
    with s' get show thesis by (intro that [of s']) (auto simp: live_def vis_def)
  next
    case False
    with wf get show thesis
      by (intro that [of s]) (auto simp: live_def vis_def fun_upd_idem split: option.splits)
  qed
qed

lemma put_newE:
  assumes wf: "sh_wf s" and new: "sh_ks s k = None"
  obtains s' where "put_new s k v x = Some s'" "sh_wf s'"
    "sh_ks s' = (sh_ks s)(k \<mapsto> \<lparr>en_value = v, en_expire_at = x\<rparr>)" "sh_budget s' = sh_budget s"
proof -
  let ?e = "\<lparr>en_value = v, en_expire_at = x\<rparr>"
  have inv: "fm_inv (sh_map s)" and bytes: "sh_bytes s = ks_bytes (sh_ks s)"
    and pol: "sh_budget s \<noteq> 0 \<Longrightarrow> s3_inv (sh_pol s) \<and> sh_keys s = dom (sh_ks s)"
    using wf by (auto simp: sh_wf_def sh_core_def)
  obtain m where m: "fm_insert (sh_map s) k ?e = Some (m, sh_ks s k)" "fm_inv m" "fm_map m = (sh_ks s)(k \<mapsto> ?e)"
    by (rule fm.insE [OF inv])
  obtain p where p: "(if sh_budget s \<noteq> 0 then s3_insert (sh_pol s) k else Some (sh_pol s)) = Some p"
      "sh_budget s \<noteq> 0 \<Longrightarrow> s3_inv p \<and> dom (s3_live p) = insert k (dom (sh_ks s))"
  proof (cases "sh_budget s = 0")
    case False
    then have "s3_inv (sh_pol s)" "k \<notin> sh_keys s" using pol new by auto
    then obtain p where "s3_insert (sh_pol s) k = Some p" "s3_inv p" "dom (s3_live p) = insert k (sh_keys s)"
      by (rule s3.insertE)
    with False that pol show thesis by simp
  qed (use that in simp)
  have "ks_bytes ((sh_ks s)(k \<mapsto> ?e)) = entry_cost k ?e + ks_bytes (sh_ks s)"
    by (rule msum_upd [OF fm.finite_dom [OF inv] new])
  with m p bytes show thesis
    by (intro that [of "s\<lparr>sh_bytes := sh_bytes s + (key_overhead (length k) + value_bytes v), sh_map := m, sh_pol := p\<rparr>"])
       (auto simp: put_new_def sh_wf_def sh_core_def entry_cost_def)
qed

lemma budget_loop_returns:
  "sh_wf s \<Longrightarrow> sh_budget s \<noteq> 0 \<Longrightarrow> returns (budget_loop s)
     (\<lambda>s'. sh_wf s' \<and> sh_budget s' = sh_budget s \<and> sh_ks s' \<subseteq>\<^sub>m sh_ks s \<and> sh_bytes s' \<le> sh_budget s
        \<and> (sh_bytes s \<le> sh_budget s \<longrightarrow> s' = s))"
proof (induction "card (dom (sh_ks s))" arbitrary: s rule: less_induct)
  case less
  have core: "sh_core s" and sync: "sh_keys s = dom (sh_ks s)" and pol: "s3_inv (sh_pol s)"
    and fin: "finite (dom (sh_ks s))"
    using less.prems by (auto simp: sh_wf_def sh_core_def fm.finite_dom)
  show ?case
  proof (cases "sh_bytes s > sh_budget s")
    case False
    with less.prems show ?thesis by (subst budget_loop.simps) simp
  next
    case True
    from pol show ?thesis
    proof (cases rule: s3.evictE)
      case None
      then have "sh_ks s = Map.empty" using sync by (simp flip: dom_eq_empty_conv)
      with core True show ?thesis by (simp add: sh_core_def)
    next
      case (Some v p)
      let ?s = "s\<lparr>sh_pol := p\<rparr>"
      have "sh_core ?s" using core Some(2) by (simp add: sh_core_def)
      then obtain s' where s': "drop_key ?s v = Some (s', sh_ks ?s v \<noteq> None)" "sh_core s'"
          "sh_ks s' = (sh_ks ?s)(v := None)" "sh_budget s' = sh_budget ?s"
          "sh_budget ?s \<noteq> 0 \<longrightarrow> sh_keys s' = (if sh_ks ?s v = None then sh_keys ?s else sh_keys ?s - {v})"
        by (rule drop_key_core)
      have v: "v \<in> dom (sh_ks s)" using Some(3) sync by simp
      have wf: "sh_wf s'" using s'(2-5) Some(4) sync less.prems(2) v by (auto simp: sh_wf_def)
      have "card (dom (sh_ks s')) < card (dom (sh_ks s))" 
        using s'(3) v fin by (intro psubset_card_mono) auto
      from less.hyps [OF this wf] s'(3,4) less.prems(2) have
        "returns (budget_loop s') (\<lambda>s''. sh_wf s'' \<and> sh_budget s'' = sh_budget s \<and>
           sh_ks s'' \<subseteq>\<^sub>m (sh_ks s)(v := None) \<and> sh_bytes s'' \<le> sh_budget s)"
        by (auto elim: returns_conseq)
      moreover have "budget_loop s = budget_loop s'"
        using True Some(1) s'(1) by (subst budget_loop.simps) simp
      ultimately show ?thesis using True
        by (auto elim!: returns_conseq intro: map_le_trans [OF _ map_le_del])
    qed
  qed
qed

lemma enforce_budgetE:
  assumes "sh_wf s"
  obtains s' where "enforce_budget s = Some s'" "sh_wf s'" "sh_budget s' = sh_budget s"
    "evicted (sh_budget s) (sh_ks s) (sh_ks s')" 
proof (cases "sh_budget s = 0")
  case True
  with assms show thesis by (intro that [of s]) (simp_all add: enforce_budget_def evicted_def)
next
  case False
  have bytes: "sh_bytes s = ks_bytes (sh_ks s)" if "sh_wf s" for s using that by (simp add: sh_wf_def sh_core_def)
  obtain s' where "budget_loop s = Some s'" "sh_wf s'" "sh_budget s' = sh_budget s" "sh_ks s' \<subseteq>\<^sub>m sh_ks s"
      "sh_bytes s' \<le> sh_budget s" "sh_bytes s \<le> sh_budget s \<Longrightarrow> s' = s"
    using budget_loop_returns [OF assms False] by (auto elim: returnsE)
  with False assms show thesis by (intro that [of s']) (auto simp: enforce_budget_def evicted_def bytes)
qed

text \<open>Overwriting the value of a present key, with the byte count adjusted by the difference, as
  \<^verbatim>\<open>set\<close> and \<^verbatim>\<open>with_collection!\<close> do.\<close>

lemma overwrite_bytes:
  assumes wf: "sh_wf s" and e: "sh_ks s k = Some e" and m: "fm_inv m" "fm_map m = (sh_ks s)(k \<mapsto> e')"
  shows "usub (sh_bytes s + value_bytes (en_value e')) (value_bytes (en_value e)) = Some (ks_bytes (fm_map m))"
    and "sh_wf (s\<lparr>sh_map := m, sh_bytes := ks_bytes (fm_map m)\<rparr>)"
proof -
  have "finite (dom (sh_ks s))" using wf by (simp add: sh_wf_def sh_core_def fm.finite_dom)
  from msum_replace [OF this e, of entry_cost e'] wf m(2)
  show "usub (sh_bytes s + value_bytes (en_value e')) (value_bytes (en_value e)) = Some (ks_bytes (fm_map m))"
    by (simp add: sh_wf_def sh_core_def entry_cost_def usub_def)
  show "sh_wf (s\<lparr>sh_map := m, sh_bytes := ks_bytes (fm_map m)\<rparr>)"
    using wf m e by (auto simp: sh_wf_def sh_core_def)
qed

section \<open>Operations as cell functions\<close>

text \<open>Every keyed operation of the store is specified by a function on one cell: from the entry
  at its key (or none) to the new entry and the answer. An operation on the shard implements
  such a function when, on every shard that satisfies the invariant, it returns the function's
  answer, keeps the invariant and the budget, and leaves the updated keyspace up to eviction.\<close>

definition implements ::
  "bytes \<Rightarrow> (shard \<Rightarrow> (shard \<times> 'r) option) \<Rightarrow> (entry option \<Rightarrow> entry option \<times> 'r) \<Rightarrow> bool"
where
  "implements key opr cell \<longleftrightarrow> (\<forall>s. sh_inv s \<longrightarrow> returns (opr s)
     (\<lambda>(s', r). sh_inv s' \<and> sh_budget s' = sh_budget s \<and> r = snd (cell (sh_ks s key))
        \<and> evicted (sh_budget s) ((sh_ks s)(key := fst (cell (sh_ks s key)))) (sh_ks s')))"

text \<open>How an operation may end: with the keyspace only shrunk, or after enforcing the budget on a
  well-formed keyspace.\<close>

definition commits :: "nat \<Rightarrow> keyspace \<Rightarrow> keyspace \<Rightarrow> keyspace \<Rightarrow> bool" where
  "commits budget f g h \<longleftrightarrow> h = g \<and> g \<subseteq>\<^sub>m f \<or> vals_ok g \<and> evicted budget g h"

lemma inv_evicted:
  "sh_wf s \<Longrightarrow> vals_ok f \<Longrightarrow> evicted (sh_budget s) f (sh_ks s) \<Longrightarrow> sh_inv s"
  by (auto simp: sh_inv_def evicted_def sh_wf_def sh_core_def elim: vals_ok_le)

lemma inv_shrink:
  assumes "sh_inv s" "g \<subseteq>\<^sub>m sh_ks s" shows "vals_ok g" "evicted (sh_budget s) g g"
proof -
  have "finite (dom (sh_ks s))" using assms(1) by (simp add: sh_inv_def sh_wf_def sh_core_def fm.finite_dom)
  from ks_bytes_le [OF this assms(2)] assms show "vals_ok g" "evicted (sh_budget s) g g"
    by (auto simp: sh_inv_def sh_wf_def sh_core_def intro: vals_ok_le evicted_refl)
qed

lemma implementsI:
  assumes "\<And>s. sh_inv s \<Longrightarrow> \<exists>s'. opr s = Some (s', snd (cell (sh_ks s key))) \<and> sh_wf s'
    \<and> sh_budget s' = sh_budget s
    \<and> commits (sh_budget s) (sh_ks s) ((sh_ks s)(key := fst (cell (sh_ks s key)))) (sh_ks s')"
  shows "implements key opr cell"
  unfolding implements_def
proof (intro allI impI)
  fix s
  assume inv: "sh_inv s"
  let ?g = "(sh_ks s)(key := fst (cell (sh_ks s key)))"
  obtain s' where s': "opr s = Some (s', snd (cell (sh_ks s key)))" "sh_wf s'" "sh_budget s' = sh_budget s"
      "commits (sh_budget s) (sh_ks s) ?g (sh_ks s')"
    using assms [OF inv] by blast
  have "vals_ok ?g \<and> evicted (sh_budget s) ?g (sh_ks s')"
    using s'(4) inv_shrink [OF inv, of ?g] by (auto simp: commits_def)
  with s' inv_evicted [OF s'(2), of ?g] show "returns (opr s)
     (\<lambda>(s', r). sh_inv s' \<and> sh_budget s' = sh_budget s \<and> r = snd (cell (sh_ks s key))
        \<and> evicted (sh_budget s) ?g (sh_ks s'))"
    by simp
qed

section \<open>Collections\<close>

text \<open>The specification of \<^verbatim>\<open>with_collection!\<close> on the cell of its key: an absent (or expired) key starts from
  the empty collection with no expiry, a key of another type is an error that changes nothing,
  a collection that ends up empty is deleted, and an update keeps the expiry.\<close>

definition coll_entry :: "'c variant \<Rightarrow> u64 \<Rightarrow> entry option \<Rightarrow> entry" where
  "coll_entry V now c =
     (case vis now c of Some e \<Rightarrow> e
      | None \<Rightarrow> \<lparr>en_value = vr_inj V (vr_make V), en_expire_at = None\<rparr>)"

definition coll_cell ::
  "'c variant \<Rightarrow> u64 \<Rightarrow> ('c \<Rightarrow> 'r \<times> 'c) \<Rightarrow> entry option \<Rightarrow> entry option \<times> 'r result"
where
  "coll_cell V now body x =
     (let e = coll_entry V now x in
      case vr_proj V (en_value e) of
        None \<Rightarrow> (x, Inl WRONGTYPE)
      | Some c \<Rightarrow>
          let (r, c') = body c in
          (if vr_empty V c' then None else Some (e\<lparr>en_value := vr_inj V c'\<rparr>), Inr r))"

text \<open>The contract of a collection variant: injection and projection agree, the initial
  collection is the empty one, and well-formed values are exactly the non-empty well-formed
  collections.\<close>

locale collection_variant =
  fixes V :: "'c variant" and ok :: "'c \<Rightarrow> bool"
  assumes proj_inj: "vr_proj V (vr_inj V c) = Some c"
    and make: "ok (vr_make V)"
    and value_ok_iff: "vr_proj V v = Some c \<Longrightarrow> value_ok v \<longleftrightarrow> ok c \<and> \<not> vr_empty V c"
begin

lemma coll_commitE:
  assumes wf: "sh_wf s" and e: "sh_ks s key = Some e"
  obtains s' where "coll_commit V key (value_bytes (en_value e)) c' s = Some s'" "sh_wf s'"
    "sh_budget s' = sh_budget s"
    "if vr_empty V c' then sh_ks s' = (sh_ks s)(key := None)
     else evicted (sh_budget s) ((sh_ks s)(key \<mapsto> e\<lparr>en_value := vr_inj V c'\<rparr>)) (sh_ks s')"
proof -
  let ?e = "e\<lparr>en_value := vr_inj V c'\<rparr>"
  have inv: "fm_inv (sh_map s)" using wf by (simp add: sh_wf_def sh_core_def)
  obtain m where m: "fm_get_mut (sh_map s) key (\<lambda>e. e\<lparr>en_value := vr_inj V c'\<rparr>) = Some m" "fm_inv m"
      "fm_map m = (sh_ks s)(key := map_option (\<lambda>e. e\<lparr>en_value := vr_inj V c'\<rparr>) (sh_ks s key))"
    by (rule fm.get_mutE [OF inv])
  have ks: "fm_map m = (sh_ks s)(key \<mapsto> ?e)" using m(3) e by simp
  then have get: "fm_get m key = Some (Some ?e)" using m(2) by (simp add: fm.get_law)
  note ow = overwrite_bytes [OF wf e m(2) ks]
  obtain p where p: "touch (s\<lparr>sh_map := m, sh_bytes := ks_bytes (fm_map m)\<rparr>) key =
        Some (s\<lparr>sh_map := m, sh_bytes := ks_bytes (fm_map m)\<rparr>\<lparr>sh_pol := p\<rparr>)"
      "sh_wf (s\<lparr>sh_map := m, sh_bytes := ks_bytes (fm_map m)\<rparr>\<lparr>sh_pol := p\<rparr>)"
    by (rule sh_touchE [OF ow(2)])
  let ?s = "s\<lparr>sh_map := m, sh_bytes := ks_bytes (fm_map m), sh_pol := p\<rparr>"
  have step: "coll_commit V key (value_bytes (en_value e)) c' s =
      (if vr_empty V c' then do { (s, _) \<leftarrow> drop_key ?s key; Some s } else enforce_budget ?s)"
    using m(1) get ow(1) p(1) by (simp add: coll_commit_def proj_inj)
  show thesis
  proof (cases "vr_empty V c'")
    case True
    obtain s' where "drop_key ?s key = Some (s', sh_ks ?s key \<noteq> None)" "sh_wf s'"
        "sh_ks s' = (sh_ks ?s)(key := None)" "sh_budget s' = sh_budget ?s"
      by (rule drop_keyE) (use p(2) in simp)
    with True step ks show thesis by (intro that [of s']) simp_all
  next
    case False
    obtain s' where "enforce_budget ?s = Some s'" "sh_wf s'" "sh_budget s' = sh_budget ?s"
        "evicted (sh_budget ?s) (sh_ks ?s) (sh_ks s')"
      by (rule enforce_budgetE) (use p(2) in simp)
    with False step ks show thesis by (intro that [of s']) simp_all
  qed
qed

lemma ensureE:
  assumes wf: "sh_wf s"
  obtains s0 existed s' where "live s key now = Some (s0, existed)"
    "(if \<not> existed then put_new s0 key (vr_inj V (vr_make V)) None else Some s0) = Some s'"
    "sh_wf s'" "sh_ks s' = (sh_ks s)(key \<mapsto> coll_entry V now (sh_ks s key))" "sh_budget s' = sh_budget s"
proof -
  obtain s1 where s1: "live s key now = Some (s1, vis now (sh_ks s key) \<noteq> None)" "sh_wf s1"
      "sh_ks s1 = (sh_ks s)(key := vis now (sh_ks s key))" "sh_budget s1 = sh_budget s"
    by (rule liveE [OF wf])
  show thesis
  proof (cases "vis now (sh_ks s key)")
    case None
    then have "sh_ks s1 key = None" using s1(3) by simp
    then obtain s2 where "put_new s1 key (vr_inj V (vr_make V)) None = Some s2" "sh_wf s2"
        "sh_ks s2 = (sh_ks s1)(key \<mapsto> \<lparr>en_value = vr_inj V (vr_make V), en_expire_at = None\<rparr>)"
        "sh_budget s2 = sh_budget s1"
      by (rule put_newE [OF s1(2)])
    with None s1 show thesis by (intro that [of s1 False s2]) (simp_all add: coll_entry_def)
  next
    case (Some e')
    with s1 show thesis by (intro that [of s1 True s1]) (simp_all add: coll_entry_def)
  qed
qed

lemma with_collection_implements:
  assumes body: "\<And>c. ok c \<Longrightarrow> ok (snd (body c))"
  shows "implements key (with_collection V now key body) (coll_cell V now body)"
proof (rule implementsI)
  fix s
  assume inv: "sh_inv s"
  define e where "e = coll_entry V now (sh_ks s key)"
  have wf: "sh_wf s" using inv by (simp add: sh_inv_def)
  obtain s1 existed s2 where s1: "live s key now = Some (s1, existed)"
      "(if \<not> existed then put_new s1 key (vr_inj V (vr_make V)) None else Some s1) = Some s2"
    and s2:
      "sh_wf s2" "sh_ks s2 = (sh_ks s)(key \<mapsto> e)" "sh_budget s2 = sh_budget s"
    unfolding e_def by (rule ensureE [OF wf])
  have get: "fm_get (sh_map s2) key = Some (Some e)"
    using s2(1,2) by (simp add: fm.get_law sh_wf_def sh_core_def)
  have run: "with_collection V now key body s =
      (case vr_proj V (en_value e) of None \<Rightarrow> Some (s2, Inl WRONGTYPE)
       | Some c \<Rightarrow> do { s \<leftarrow> coll_commit V key (value_bytes (en_value e)) (snd (body c)) s2; Some (s, Inr (fst (body c))) })"
    using s1 get by (cases existed) (simp_all add: with_collection_def split_def Let_def split: option.splits)
  show "\<exists>s'. with_collection V now key body s = Some (s', snd (coll_cell V now body (sh_ks s key)))
      \<and> sh_wf s' \<and> sh_budget s' = sh_budget s
      \<and> commits (sh_budget s) (sh_ks s) ((sh_ks s)(key := fst (coll_cell V now body (sh_ks s key)))) (sh_ks s')"
  proof (cases "vr_proj V (en_value e)")
    case None
    then have "vis now (sh_ks s key) = Some e" by (auto simp: proj_inj e_def coll_entry_def split: option.splits)
    then have "sh_ks s2 = sh_ks s" using s2(2) by (auto simp: vis_Some_iff fun_upd_idem)
    with None run s2(1,3) show ?thesis
      by (auto simp: coll_cell_def commits_def simp flip: e_def)
  next
    case (Some c)
    have "ok c"
      using Some value_ok_iff [OF Some] make vals_ok_get [of "sh_ks s" key] inv
      by (auto simp: e_def coll_entry_def proj_inj sh_inv_def vis_Some_iff split: option.splits)
    then have ok': "ok (snd (body c))" by (rule body)
    have "sh_ks s2 key = Some e" using s2(2) by simp
    then obtain s' where s': "coll_commit V key (value_bytes (en_value e)) (snd (body c)) s2 = Some s'" "sh_wf s'"
        "sh_budget s' = sh_budget s2"
        "if vr_empty V (snd (body c)) then sh_ks s' = (sh_ks s2)(key := None)
         else evicted (sh_budget s2) ((sh_ks s2)(key \<mapsto> e\<lparr>en_value := vr_inj V (snd (body c))\<rparr>)) (sh_ks s')"
      by (rule coll_commitE [OF s2(1)])
    have "vals_ok ((sh_ks s)(key \<mapsto> e\<lparr>en_value := vr_inj V (snd (body c))\<rparr>))" if "\<not> vr_empty V (snd (body c))"
      using that ok' value_ok_iff [OF proj_inj] inv by (simp add: sh_inv_def vals_ok_upd)
    with run Some s' s2(2,3) show ?thesis
      by (cases "vr_empty V (snd (body c))")
         (auto simp: coll_cell_def commits_def map_le_del split_def Let_def simp flip: e_def)
  qed
qed

end

interpretation list_coll: collection_variant list_variant "\<lambda>_. True"
  by unfold_locales (auto simp: list_variant_def value_ok_def split: val.splits)

interpretation hash_coll: collection_variant hash_variant hash_ok
  by unfold_locales (auto simp: hash_variant_def value_ok_def hash_ok_def split: val.splits)

interpretation set_coll: collection_variant set_variant distinct
  by unfold_locales (auto simp: set_variant_def value_ok_def split: val.splits)

interpretation zset_coll: collection_variant zset_variant zset_ok
  by unfold_locales (auto simp: zset_variant_def value_ok_def zset_len_def split: val.splits)

end
