(* ===== verification/Rust_Std.thy ===== *)
theory Rust_Std
  imports Prelude "HOL-Library.Char_ord"
begin

text \<open>
  The parts of the Rust standard library that the sources use on text: decimal printing
  (\<^verbatim>\<open>to_string\<close>), integer parsing (\<^verbatim>\<open>str::parse\<close>), \<^verbatim>\<open>str::from_utf8\<close>, \<^verbatim>\<open>str::trim\<close> and ASCII case
  conversion, all on byte strings. Integers of a fixed width are \<^typ>\<open>int\<close> with their range
  written out.
\<close>

section \<open>Bytes\<close>

abbreviation byte_val :: "char \<Rightarrow> nat" where
  "byte_val c \<equiv> of_char c"

definition is_digit :: "char \<Rightarrow> bool" where
  "is_digit c \<longleftrightarrow> 48 \<le> byte_val c \<and> byte_val c \<le> 57"

definition digit_val :: "char \<Rightarrow> nat" where
  "digit_val c = byte_val c - 48"

definition digit_char :: "nat \<Rightarrow> char" where
  "digit_char d = char_of (48 + d)"

definition ascii_upper :: "char \<Rightarrow> char" where
  "ascii_upper c = (if 97 \<le> byte_val c \<and> byte_val c \<le> 122 then char_of (byte_val c - 32) else c)"

definition ascii_lower :: "char \<Rightarrow> char" where
  "ascii_lower c = (if 65 \<le> byte_val c \<and> byte_val c \<le> 90 then char_of (byte_val c + 32) else c)"

definition eq_ignore_ascii_case :: "bytes \<Rightarrow> bytes \<Rightarrow> bool" where
  "eq_ignore_ascii_case a b \<longleftrightarrow> map ascii_lower a = map ascii_lower b"

section \<open>Decimal numbers\<close>

fun show_nat :: "nat \<Rightarrow> string" where
  "show_nat n = (if n < 10 then [digit_char n] else show_nat (n div 10) @ [digit_char (n mod 10)])"

declare show_nat.simps [simp del]

definition show_int :: "int \<Rightarrow> string" where
  "show_int i = (if i < 0 then CHR ''-'' # show_nat (nat (- i)) else show_nat (nat i))"

definition digits_val :: "string \<Rightarrow> nat" where
  "digits_val ds = foldl (\<lambda>n c. 10 * n + digit_val c) 0 ds"

definition parse_digits :: "string \<Rightarrow> nat option" where
  "parse_digits s = (if s \<noteq> [] \<and> list_all is_digit s then Some (digits_val s) else None)"

text \<open>\<^verbatim>\<open>from_str_radix(_, 10)\<close>: an optional sign (\<^verbatim>\<open>-\<close> for signed types only), at least one digit,
  nothing else, and a value in the range of the type.\<close>

definition parse_signed :: "string \<Rightarrow> int option" where
  "parse_signed s =
     (case s of
        [] \<Rightarrow> None
      | c # r \<Rightarrow>
          if c = CHR ''-'' then map_option (\<lambda>n. - int n) (parse_digits r)
          else if c = CHR ''+'' then map_option int (parse_digits r)
          else map_option int (parse_digits s))"

definition i64_range :: "int \<Rightarrow> bool" where
  "i64_range i \<longleftrightarrow> - (2 ^ 63) \<le> i \<and> i < 2 ^ 63"

definition parse_i64 :: "string \<Rightarrow> int option" where
  "parse_i64 s =
     (case parse_signed s of Some i \<Rightarrow> if i64_range i then Some i else None | None \<Rightarrow> None)"

definition parse_unsigned :: "nat \<Rightarrow> string \<Rightarrow> nat option" where
  "parse_unsigned limit s =
     (case (case s of
              [] \<Rightarrow> None
            | c # r \<Rightarrow> if c = CHR ''+'' then parse_digits r else parse_digits s) of
        Some n \<Rightarrow> if n < limit then Some n else None
      | None \<Rightarrow> None)"

section \<open>UTF-8 and white space\<close>

definition in_range :: "char \<Rightarrow> nat \<Rightarrow> nat \<Rightarrow> bool" where
  "in_range c lo hi \<longleftrightarrow> lo \<le> byte_val c \<and> byte_val c \<le> hi"

abbreviation is_cont :: "char \<Rightarrow> bool" where
  "is_cont c \<equiv> in_range c 128 191"

fun utf8_valid :: "bytes \<Rightarrow> bool" where
  "utf8_valid [] \<longleftrightarrow> True"
| "utf8_valid (a # s) \<longleftrightarrow>
     in_range a 0 127 \<and> utf8_valid s \<or>
     (case s of
        [] \<Rightarrow> False
      | b # s \<Rightarrow>
          in_range a 194 223 \<and> is_cont b \<and> utf8_valid s \<or>
          (case s of
             [] \<Rightarrow> False
           | c # s \<Rightarrow>
               (in_range a 224 224 \<and> in_range b 160 191 \<or>
                in_range a 225 236 \<and> is_cont b \<or>
                in_range a 237 237 \<and> in_range b 128 159 \<or>
                in_range a 238 239 \<and> is_cont b) \<and> is_cont c \<and> utf8_valid s \<or>
               (case s of
                  [] \<Rightarrow> False
                | d # s \<Rightarrow>
                    (in_range a 240 240 \<and> in_range b 144 191 \<or>
                     in_range a 241 243 \<and> is_cont b \<or>
                     in_range a 244 244 \<and> in_range b 128 143) \<and> is_cont c \<and> is_cont d \<and> utf8_valid s)))"

text \<open>\<^verbatim>\<open>String::from_utf8_lossy\<close>: every maximal part of an ill-formed sequence becomes U+FFFD.\<close>

definition replacement :: string where
  "replacement = [CHR 0xEF, CHR 0xBF, CHR 0xBD]"

definition second_of_three :: "char \<Rightarrow> char \<Rightarrow> bool" where
  "second_of_three a b \<longleftrightarrow>
     in_range a 224 224 \<and> in_range b 160 191 \<or> in_range a 225 236 \<and> is_cont b \<or>
     in_range a 237 237 \<and> in_range b 128 159 \<or> in_range a 238 239 \<and> is_cont b"

definition second_of_four :: "char \<Rightarrow> char \<Rightarrow> bool" where
  "second_of_four a b \<longleftrightarrow>
     in_range a 240 240 \<and> in_range b 144 191 \<or> in_range a 241 243 \<and> is_cont b \<or>
     in_range a 244 244 \<and> in_range b 128 143"

fun utf8_lossy :: "bytes \<Rightarrow> string" where
  "utf8_lossy [] = []"
| "utf8_lossy (a # s) =
     (if in_range a 0 127 then a # utf8_lossy s
      else (case s of
        [] \<Rightarrow> replacement
      | b # s1 \<Rightarrow>
          if in_range a 194 223 \<and> is_cont b then a # b # utf8_lossy s1
          else if second_of_three a b then
            (case s1 of
               [] \<Rightarrow> replacement
             | c # s2 \<Rightarrow> if is_cont c then a # b # c # utf8_lossy s2 else replacement @ utf8_lossy s1)
          else if second_of_four a b then
            (case s1 of
               [] \<Rightarrow> replacement
             | c # s2 \<Rightarrow>
                 if is_cont c then
                   (case s2 of
                      [] \<Rightarrow> replacement
                    | d # s3 \<Rightarrow> if is_cont d then a # b # c # d # utf8_lossy s3 else replacement @ utf8_lossy s2)
                 else replacement @ utf8_lossy s1)
          else replacement @ utf8_lossy s))"

text \<open>The UTF-8 encodings of the characters with the Unicode property White\_Space.\<close>

definition white_space :: "string list" where
  "white_space =
     map (map char_of) ([[9], [10], [11], [12], [13], [32], [194, 133], [194, 160], [225, 154, 128]]
       @ map (\<lambda>c. [226, 128, c]) ([128..<139] @ [168, 169, 175])
       @ [[226, 129, 159], [227, 128, 128 :: nat]])"

function strip_any :: "string list \<Rightarrow> string \<Rightarrow> string" where
  "strip_any ws s =
     (case find (\<lambda>w. w \<noteq> [] \<and> take (length w) s = w) ws of
        None \<Rightarrow> s
      | Some w \<Rightarrow> strip_any ws (drop (length w) s))"
  by pat_completeness auto
termination
proof (relation "measure (\<lambda>(ws, s). length s)")
  fix ws :: "string list" and s w
  assume "find (\<lambda>w. w \<noteq> [] \<and> take (length w) s = w) ws = Some w"
  then have "w \<noteq> []" "take (length w) s = w" by (auto simp: find_Some_iff)
  then show "((ws, drop (length w) s), (ws, s)) \<in> measure (\<lambda>(ws, s). length s)"
    by (cases s) auto
qed simp

declare strip_any.simps [simp del]

definition trim :: "string \<Rightarrow> string" where
  "trim s = rev (strip_any (map rev white_space) (rev (strip_any white_space s)))"

section \<open>Round trips\<close>

lemma byte_val_less [simp]: "byte_val c < 256"
  using of_char_of [where ?'a = nat] by (metis mod_less_divisor of_char_of char_of_char zero_less_numeral)

lemma digit_char_props [simp]:
  "d < 10 \<Longrightarrow> is_digit (digit_char d)" "d < 10 \<Longrightarrow> digit_val (digit_char d) = d"
  by (simp_all add: is_digit_def digit_val_def digit_char_def)

lemma digit_char_simps:
  "digit_char 0 = CHR ''0''" "digit_char (Suc 0) = CHR ''1''" "digit_char 1 = CHR ''1''" "digit_char 2 = CHR ''2''"
  "digit_char 3 = CHR ''3''" "digit_char 4 = CHR ''4''" "digit_char 5 = CHR ''5''" "digit_char 6 = CHR ''6''"
  "digit_char 7 = CHR ''7''" "digit_char 8 = CHR ''8''" "digit_char 9 = CHR ''9''"
  by code_simp+

lemma show_nat_ne [simp]: "show_nat n \<noteq> []"
  by (subst show_nat.simps) simp

lemma show_nat_digits [simp]: "list_all is_digit (show_nat n)"
proof (induction n rule: show_nat.induct)
  case (1 n)
  then show ?case by (subst show_nat.simps) simp
qed

lemma digits_val_show_nat [simp]: "digits_val (show_nat n) = n"
proof (induction n rule: show_nat.induct)
  case (1 n)
  show ?case
  proof (cases "n < 10")
    case True
    then show ?thesis by (subst show_nat.simps) (simp add: digits_val_def)
  next
    case False
    with 1 have "digits_val (show_nat (n div 10)) = n div 10" by blast
    with False show ?thesis by (subst show_nat.simps) (simp add: digits_val_def)
  qed
qed

lemma parse_digits_show_nat [simp]: "parse_digits (show_nat n) = Some n"
  by (simp add: parse_digits_def)

lemma not_sign_digit: "is_digit c \<Longrightarrow> c \<noteq> CHR ''-'' \<and> c \<noteq> CHR ''+''"
  by (auto simp: is_digit_def)

lemma parse_signed_show_int [simp]: "parse_signed (show_int i) = Some i"
proof (cases "i < 0")
  case True
  then show ?thesis by (simp add: show_int_def parse_signed_def)
next
  case False
  obtain c r where c: "show_nat (nat i) = c # r" by (cases "show_nat (nat i)") simp_all
  then have "is_digit c" using show_nat_digits [of "nat i"] by simp
  with False c parse_digits_show_nat [of "nat i"] show ?thesis
    by (simp add: show_int_def parse_signed_def not_sign_digit)
qed

lemma parse_i64_show_int: "i64_range i \<Longrightarrow> parse_i64 (show_int i) = Some i"
  by (simp add: parse_i64_def)

lemma parse_unsigned_show_nat: "n < limit \<Longrightarrow> parse_unsigned limit (show_nat n) = Some n"
proof -
  obtain c r where c: "show_nat n = c # r" by (cases "show_nat n") simp_all
  then have "is_digit c" using show_nat_digits [of n] by simp
  moreover assume "n < limit"
  ultimately show ?thesis using c parse_digits_show_nat [of n]
    by (simp add: parse_unsigned_def not_sign_digit)
qed

text \<open>Text made of printable ASCII is valid UTF-8 and has nothing to trim, so a number printed
  by \<^verbatim>\<open>to_string\<close> is read back by \<^verbatim>\<open>from_utf8\<close>, \<^verbatim>\<open>trim\<close> and \<^verbatim>\<open>parse\<close>.\<close>

definition graphic :: "char \<Rightarrow> bool" where
  "graphic c \<longleftrightarrow> 33 \<le> byte_val c \<and> byte_val c \<le> 126"

lemma white_space_ends: "w \<in> set white_space \<Longrightarrow> w \<noteq> [] \<and> \<not> graphic (hd w) \<and> \<not> graphic (last w)"
  by (auto simp: white_space_def graphic_def)

lemma strip_any_graphic:
  assumes "list_all graphic s" "\<And>w. w \<in> set ws \<Longrightarrow> \<not> graphic (hd w)"
  shows "strip_any ws s = s"
proof -
  have "find (\<lambda>w. w \<noteq> [] \<and> take (length w) s = w) ws = None"
    unfolding find_None_iff
  proof safe
    fix w
    assume w: "w \<in> set ws" "w \<noteq> []" "take (length w) s = w"
    then have "hd w \<in> set s" by (metis hd_in_set in_set_takeD)
    with assms w(1) show False by (auto simp: list_all_iff)
  qed
  then show ?thesis by (subst strip_any.simps) simp
qed

lemma trim_graphic:
  assumes "list_all graphic s" shows "trim s = s"
proof -
  have "strip_any white_space s = s"
    using assms white_space_ends by (intro strip_any_graphic) auto
  moreover have "strip_any (map rev white_space) (rev s) = rev s"
    using assms white_space_ends by (intro strip_any_graphic) (auto simp: hd_rev list_all_iff)
  ultimately show ?thesis by (simp add: trim_def)
qed

lemma utf8_graphic: "list_all graphic s \<Longrightarrow> utf8_valid s"
  by (induction s) (auto simp: graphic_def in_range_def)

lemma second_excl:
  "in_range a 0 127 \<Longrightarrow> \<not> second_of_three a b \<and> \<not> second_of_four a b \<and> \<not> in_range a 194 223"
  "in_range a 194 223 \<Longrightarrow> \<not> second_of_three a b \<and> \<not> second_of_four a b"
  "second_of_three a b \<Longrightarrow> \<not> second_of_four a b"
  by (auto simp: second_of_three_def second_of_four_def in_range_def)

lemma utf8_valid_Cons:
  "utf8_valid (a # s) \<longleftrightarrow>
     in_range a 0 127 \<and> utf8_valid s \<or>
     (\<exists>b t. s = b # t \<and> in_range a 194 223 \<and> is_cont b \<and> utf8_valid t) \<or>
     (\<exists>b c t. s = b # c # t \<and> second_of_three a b \<and> is_cont c \<and> utf8_valid t) \<or>
     (\<exists>b c d t. s = b # c # d # t \<and> second_of_four a b \<and> is_cont c \<and> is_cont d \<and> utf8_valid t)"
proof (cases s)
  case (Cons b s1)
  show ?thesis unfolding Cons utf8_valid.simps(2) [of a "b # s1"] second_of_three_def second_of_four_def
    by (cases s1; cases "tl s1") (simp_all del: utf8_valid.simps)
qed simp

lemma utf8_lossy_valid: "utf8_valid s \<Longrightarrow> utf8_lossy s = s"
proof (induction "length s" arbitrary: s rule: less_induct)
  case less
  show ?case
  proof (cases s)
    case (Cons a t)
    consider "in_range a 0 127" "utf8_valid t" | b u where "t = b # u" "in_range a 194 223" "is_cont b" "utf8_valid u"
      | b c u where "t = b # c # u" "second_of_three a b" "is_cont c" "utf8_valid u"
      | b c d u where "t = b # c # d # u" "second_of_four a b" "is_cont c" "is_cont d" "utf8_valid u"
      using less.prems unfolding Cons utf8_valid_Cons by blast
    then show ?thesis
    proof cases
      case 1
      then show ?thesis using less.hyps [of t] by (simp add: Cons)
    next
      case 2
      then show ?thesis unfolding Cons utf8_lossy.simps(2) [of a t]
        using less.hyps [of u] second_excl [of a] by (auto simp: Cons simp del: utf8_lossy.simps)
    next
      case 3
      then show ?thesis unfolding Cons utf8_lossy.simps(2) [of a t]
        using less.hyps [of u] second_excl [of a b] by (auto simp: Cons simp del: utf8_lossy.simps)
    next
      case 4
      then show ?thesis unfolding Cons utf8_lossy.simps(2) [of a t]
        using less.hyps [of u] second_excl [of a b] by (auto simp: Cons simp del: utf8_lossy.simps)
    qed
  qed simp
qed

lemma show_int_graphic: "list_all graphic (show_int i)"
proof -
  have "list_all graphic (show_nat n)" for n
    using show_nat_digits [of n] by (auto simp: list_all_iff is_digit_def graphic_def)
  then show ?thesis by (simp add: show_int_def graphic_def)
qed

end
