(* ===== verification/Store_Ops.thy ===== *)
theory Store_Ops
  imports Shard Rust_Std
begin

text \<open>
  The keyed operations of \<^verbatim>\<open>impl Store\<close> (\<^verbatim>\<open>crates/core/src/store.rs\<close>) as they run on the shard they
  have locked; theory \<open>Store\<close> adds the routing. Each is followed by its specification, a function
  on the cell of its key, and by the proof that the operation implements it: it always returns,
  gives that answer, keeps the shard invariant (so the byte count stays exact and no unsigned
  subtraction underflows) and leaves the specified keyspace up to eviction. The time \<^verbatim>\<open>now_ms()\<close> is
  the parameter \<open>now\<close>.
\<close>

section \<open>Reading\<close>

definition sh_read_collection :: "u64 \<Rightarrow> bytes \<Rightarrow> (val option \<Rightarrow> 'r) \<Rightarrow> shard \<Rightarrow> (shard \<times> 'r) option" where
  "sh_read_collection now key f s =
     do {
       (s, is_live) \<leftarrow> live s key now;
       if \<not> is_live then Some (s, f None)
       else do {
         s \<leftarrow> touch s key;
         found \<leftarrow> fm_get (sh_map s) key;
         Some (s, f (map_option en_value found))
       }
     }"

datatype str_read = StrRead_Str bytes | StrRead_None | StrRead_WrongType

definition sh_read_str :: "u64 \<Rightarrow> bytes \<Rightarrow> (str_read \<Rightarrow> 'r) \<Rightarrow> shard \<Rightarrow> (shard \<times> 'r) option" where
  "sh_read_str now key f s =
     do {
       (s, is_live) \<leftarrow> live s key now;
       if \<not> is_live then Some (s, f StrRead_None)
       else do {
         s \<leftarrow> touch s key;
         found \<leftarrow> fm_get (sh_map s) key;
         Some (s, case map_option en_value found of
             Some (VStr v) \<Rightarrow> f (StrRead_Str v)
           | Some _ \<Rightarrow> f StrRead_WrongType
           | None \<Rightarrow> f StrRead_None)
       }
     }"

definition sh_get :: "u64 \<Rightarrow> bytes \<Rightarrow> shard \<Rightarrow> (shard \<times> bytes option result) option" where
  "sh_get now key s =
     do {
       (s, is_live) \<leftarrow> live s key now;
       if \<not> is_live then Some (s, Inr None)
       else do {
         s \<leftarrow> touch s key;
         found \<leftarrow> fm_get (sh_map s) key;
         Some (s, case map_option en_value found of
             Some (VStr v) \<Rightarrow> Inr (Some v)
           | Some _ \<Rightarrow> Inl WRONGTYPE
           | None \<Rightarrow> Inr None)
       }
     }"

definition sh_strlen :: "u64 \<Rightarrow> bytes \<Rightarrow> shard \<Rightarrow> (shard \<times> nat result) option" where
  "sh_strlen now key s =
     do {
       (s, is_live) \<leftarrow> live s key now;
       if \<not> is_live then Some (s, Inr 0)
       else do {
         found \<leftarrow> fm_get (sh_map s) key;
         Some (s, case map_option en_value found of
             Some (VStr v) \<Rightarrow> Inr (length v)
           | Some _ \<Rightarrow> Inl WRONGTYPE
           | None \<Rightarrow> Inr 0)
       }
     }"

definition sh_exists :: "u64 \<Rightarrow> bytes \<Rightarrow> shard \<Rightarrow> (shard \<times> bool) option" where
  "sh_exists now key s = live s key now"

definition sh_type_of :: "u64 \<Rightarrow> bytes \<Rightarrow> shard \<Rightarrow> (shard \<times> string) option" where
  "sh_type_of now key s =
     do {
       (s, is_live) \<leftarrow> live s key now;
       if \<not> is_live then Some (s, ''none'')
       else do {
         found \<leftarrow> fm_get (sh_map s) key;
         Some (s, case found of Some e \<Rightarrow> type_name (en_value e) | None \<Rightarrow> ''none'')
       }
     }"

datatype ttl = Ttl_NoKey | Ttl_NoExpiry | Ttl_Millis u64

definition sh_pttl :: "u64 \<Rightarrow> bytes \<Rightarrow> shard \<Rightarrow> (shard \<times> ttl) option" where
  "sh_pttl now key s =
     do {
       (s, is_live) \<leftarrow> live s key now;
       if \<not> is_live then Some (s, Ttl_NoKey)
       else do {
         found \<leftarrow> fm_get (sh_map s) key;
         Some (s, case Option.bind found en_expire_at of
             None \<Rightarrow> Ttl_NoExpiry
           | Some t \<Rightarrow> Ttl_Millis (if t \<le> now then 0 else t - now))
       }
     }"

section \<open>Writing strings\<close>

record set_options =
  so_nx :: bool
  so_xx :: bool
  so_keep_ttl :: bool
  so_expire_at :: "u64 option"

text \<open>The write of \<^verbatim>\<open>set\<close>: in place when the key exists, else a fresh entry.\<close>

definition set_write :: "bool \<Rightarrow> bytes \<Rightarrow> bytes \<Rightarrow> u64 option \<Rightarrow> shard \<Rightarrow> shard option" where
  "set_write existed key v new_expire s =
     (if existed then do {
        found \<leftarrow> fm_get (sh_map s) key;
        let old_bytes = (case found of Some e \<Rightarrow> value_bytes (en_value e) | None \<Rightarrow> 0);
        b \<leftarrow> usub (sh_bytes s + length v) old_bytes;
        m \<leftarrow> fm_get_mut (sh_map s) key (\<lambda>e. e\<lparr>en_value := VStr v, en_expire_at := new_expire\<rparr>);
        touch (s\<lparr>sh_map := m, sh_bytes := b\<rparr>) key
      } else put_new s key (VStr v) new_expire)"

definition sh_set :: "u64 \<Rightarrow> bytes \<Rightarrow> bytes \<Rightarrow> set_options \<Rightarrow> shard \<Rightarrow> (shard \<times> bool) option" where
  "sh_set now key v opts s =
     do {
       (s, existed) \<leftarrow> live s key now;
       if so_nx opts \<and> existed then Some (s, False)
       else if so_xx opts \<and> \<not> existed then Some (s, False)
       else do {
         found \<leftarrow> fm_get (sh_map s) key;
         let new_expire = (if so_keep_ttl opts \<and> existed then Option.bind found en_expire_at
                           else so_expire_at opts);
         s \<leftarrow> set_write existed key v new_expire s;
         s \<leftarrow> enforce_budget s;
         Some (s, True)
       }
     }"

definition sh_del :: "u64 \<Rightarrow> bytes \<Rightarrow> shard \<Rightarrow> (shard \<times> bool) option" where
  "sh_del now key s =
     do {
       (s, is_live) \<leftarrow> live s key now;
       if \<not> is_live then Some (s, False) else drop_key s key
     }"

definition sh_expire_at :: "u64 \<Rightarrow> bytes \<Rightarrow> u64 option \<Rightarrow> shard \<Rightarrow> (shard \<times> bool) option" where
  "sh_expire_at now key at s =
     do {
       (s, is_live) \<leftarrow> live s key now;
       if \<not> is_live then Some (s, False)
       else do {
         found \<leftarrow> fm_get (sh_map s) key;
         (case found of
            None \<Rightarrow> Some (s, False)
          | Some _ \<Rightarrow> do {
              m \<leftarrow> fm_get_mut (sh_map s) key (\<lambda>e. e\<lparr>en_expire_at := at\<rparr>);
              Some (s\<lparr>sh_map := m\<rparr>, True)
            })
       }
     }"

text \<open>The text a string value is read as by \<^verbatim>\<open>incr_by\<close>, and the two error messages.\<close>

definition parse_value :: "bytes \<Rightarrow> int option" where
  "parse_value v = (if utf8_valid v then parse_i64 (trim v) else None)"

definition NOT_INTEGER :: string where
  "NOT_INTEGER = ''value is not an integer or out of range''"

definition WOULD_OVERFLOW :: string where
  "WOULD_OVERFLOW = ''increment or decrement would overflow''"

text \<open>Removing the old entry and inserting the new one, the common tail of \<^verbatim>\<open>incr_by\<close> and \<^verbatim>\<open>append\<close>.\<close>

definition sh_replace :: "bool \<Rightarrow> bytes \<Rightarrow> bytes \<Rightarrow> u64 option \<Rightarrow> shard \<Rightarrow> shard option" where
  "sh_replace existed key v expire s =
     do {
       s \<leftarrow> (if existed then do { (s, _) \<leftarrow> drop_key s key; Some s } else Some s);
       s \<leftarrow> put_new s key (VStr v) expire;
       enforce_budget s
     }"

definition sh_incr_by :: "u64 \<Rightarrow> bytes \<Rightarrow> int \<Rightarrow> shard \<Rightarrow> (shard \<times> int result) option" where
  "sh_incr_by now key delta s =
     do {
       (s, existed) \<leftarrow> live s key now;
       found \<leftarrow> fm_get (sh_map s) key;
       let cur = (if existed then
                    (case map_option en_value found of
                       Some (VStr v) \<Rightarrow>
                         (case parse_value v of Some i \<Rightarrow> Inr i | None \<Rightarrow> Inl NOT_INTEGER)
                     | Some _ \<Rightarrow> Inl WRONGTYPE
                     | None \<Rightarrow> Inr 0)
                  else Inr 0);
       (case cur of
          Inl err \<Rightarrow> Some (s, Inl err)
        | Inr cur \<Rightarrow>
            if \<not> i64_range (cur + delta) then Some (s, Inl WOULD_OVERFLOW)
            else do {
              let expire = (if existed then Option.bind found en_expire_at else None);
              s \<leftarrow> sh_replace existed key (show_int (cur + delta)) expire s;
              Some (s, Inr (cur + delta))
            })
     }"

text \<open>In \<^verbatim>\<open>append\<close> the first match leaves only strings, so the second one's \<^verbatim>\<open>unreachable!\<close> arm and the
  \<^verbatim>\<open>unwrap\<close> before it are panics: \<^const>\<open>None\<close> here.\<close>

definition sh_append :: "u64 \<Rightarrow> bytes \<Rightarrow> bytes \<Rightarrow> shard \<Rightarrow> (shard \<times> nat result) option" where
  "sh_append now key suffix s =
     do {
       (s, existed) \<leftarrow> live s key now;
       found \<leftarrow> fm_get (sh_map s) key;
       if existed \<and> (case map_option en_value found of Some (VStr _) \<Rightarrow> False | Some _ \<Rightarrow> True | None \<Rightarrow> False)
       then Some (s, Inl WRONGTYPE)
       else do {
         (v, expire) \<leftarrow>
           (if existed then
              (case found of
                 None \<Rightarrow> None
               | Some e \<Rightarrow> (case en_value e of VStr w \<Rightarrow> Some (w, en_expire_at e) | _ \<Rightarrow> None))
            else Some ([], None));
         let v = v @ suffix;
         s \<leftarrow> sh_replace existed key v expire s;
         Some (s, Inr (length v))
       }
     }"

section \<open>Collections\<close>

definition sh_push :: "u64 \<Rightarrow> bytes \<Rightarrow> bytes list \<Rightarrow> bool \<Rightarrow> shard \<Rightarrow> (shard \<times> nat result) option" where
  "sh_push now key vals left = with_collection list_variant now key (list_push vals left)"

definition sh_pop :: "u64 \<Rightarrow> bytes \<Rightarrow> nat \<Rightarrow> bool \<Rightarrow> shard \<Rightarrow> (shard \<times> bytes list result) option" where
  "sh_pop now key cnt left = with_collection list_variant now key (list_pop cnt left)"

definition sh_llen :: "u64 \<Rightarrow> bytes \<Rightarrow> shard \<Rightarrow> (shard \<times> nat result) option" where
  "sh_llen now key = sh_read_collection now key
     (\<lambda>v. case v of Some (VList l) \<Rightarrow> Inr (length l) | Some _ \<Rightarrow> Inl WRONGTYPE | None \<Rightarrow> Inr 0)"

definition sh_lrange :: "u64 \<Rightarrow> bytes \<Rightarrow> int \<Rightarrow> int \<Rightarrow> shard \<Rightarrow> (shard \<times> bytes list result) option" where
  "sh_lrange now key start stop = sh_read_collection now key
     (\<lambda>v. case v of Some (VList l) \<Rightarrow> Inr (list_range l start stop) | Some _ \<Rightarrow> Inl WRONGTYPE | None \<Rightarrow> Inr [])"

definition sh_hset :: "u64 \<Rightarrow> bytes \<Rightarrow> (bytes \<times> bytes) list \<Rightarrow> shard \<Rightarrow> (shard \<times> nat result) option" where
  "sh_hset now key pairs = with_collection hash_variant now key (count_ops hash_insert pairs)"

definition sh_hget :: "u64 \<Rightarrow> bytes \<Rightarrow> bytes \<Rightarrow> shard \<Rightarrow> (shard \<times> bytes option result) option" where
  "sh_hget now key field = sh_read_collection now key
     (\<lambda>v. case v of Some (VHash h) \<Rightarrow> Inr (map_of h field) | Some _ \<Rightarrow> Inl WRONGTYPE | None \<Rightarrow> Inr None)"

definition sh_hdel :: "u64 \<Rightarrow> bytes \<Rightarrow> bytes list \<Rightarrow> shard \<Rightarrow> (shard \<times> nat result) option" where
  "sh_hdel now key fs = with_collection hash_variant now key (count_ops hash_remove fs)"

definition sh_hlen :: "u64 \<Rightarrow> bytes \<Rightarrow> shard \<Rightarrow> (shard \<times> nat result) option" where
  "sh_hlen now key = sh_read_collection now key
     (\<lambda>v. case v of Some (VHash h) \<Rightarrow> Inr (length h) | Some _ \<Rightarrow> Inl WRONGTYPE | None \<Rightarrow> Inr 0)"

definition sh_hgetall :: "u64 \<Rightarrow> bytes \<Rightarrow> shard \<Rightarrow> (shard \<times> (bytes \<times> bytes) list result) option" where
  "sh_hgetall now key = sh_read_collection now key
     (\<lambda>v. case v of Some (VHash h) \<Rightarrow> Inr h | Some _ \<Rightarrow> Inl WRONGTYPE | None \<Rightarrow> Inr [])"

definition sh_sadd :: "u64 \<Rightarrow> bytes \<Rightarrow> bytes list \<Rightarrow> shard \<Rightarrow> (shard \<times> nat result) option" where
  "sh_sadd now key members = with_collection set_variant now key (count_ops hset_insert members)"

definition sh_srem :: "u64 \<Rightarrow> bytes \<Rightarrow> bytes list \<Rightarrow> shard \<Rightarrow> (shard \<times> nat result) option" where
  "sh_srem now key members = with_collection set_variant now key (count_ops hset_remove members)"

definition sh_sismember :: "u64 \<Rightarrow> bytes \<Rightarrow> bytes \<Rightarrow> shard \<Rightarrow> (shard \<times> bool result) option" where
  "sh_sismember now key member = sh_read_collection now key
     (\<lambda>v. case v of Some (VSet s) \<Rightarrow> Inr (member \<in> set s) | Some _ \<Rightarrow> Inl WRONGTYPE | None \<Rightarrow> Inr False)"

definition sh_scard :: "u64 \<Rightarrow> bytes \<Rightarrow> shard \<Rightarrow> (shard \<times> nat result) option" where
  "sh_scard now key = sh_read_collection now key
     (\<lambda>v. case v of Some (VSet s) \<Rightarrow> Inr (length s) | Some _ \<Rightarrow> Inl WRONGTYPE | None \<Rightarrow> Inr 0)"

definition sh_smembers :: "u64 \<Rightarrow> bytes \<Rightarrow> shard \<Rightarrow> (shard \<times> bytes list result) option" where
  "sh_smembers now key = sh_read_collection now key
     (\<lambda>v. case v of Some (VSet s) \<Rightarrow> Inr s | Some _ \<Rightarrow> Inl WRONGTYPE | None \<Rightarrow> Inr [])"

definition sh_zadd :: "u64 \<Rightarrow> bytes \<Rightarrow> (f64 \<times> bytes) list \<Rightarrow> shard \<Rightarrow> (shard \<times> nat result) option" where
  "sh_zadd now key pairs = with_collection zset_variant now key (count_ops zadd_op pairs)"

definition sh_zrem :: "u64 \<Rightarrow> bytes \<Rightarrow> bytes list \<Rightarrow> shard \<Rightarrow> (shard \<times> nat result) option" where
  "sh_zrem now key members = with_collection zset_variant now key (count_ops zset_remove members)"

definition sh_zscore :: "u64 \<Rightarrow> bytes \<Rightarrow> bytes \<Rightarrow> shard \<Rightarrow> (shard \<times> f64 option result) option" where
  "sh_zscore now key member = sh_read_collection now key
     (\<lambda>v. case v of Some (VZSet z) \<Rightarrow> Inr (zset_score z member) | Some _ \<Rightarrow> Inl WRONGTYPE | None \<Rightarrow> Inr None)"

definition sh_zcard :: "u64 \<Rightarrow> bytes \<Rightarrow> shard \<Rightarrow> (shard \<times> nat result) option" where
  "sh_zcard now key = sh_read_collection now key
     (\<lambda>v. case v of Some (VZSet z) \<Rightarrow> Inr (zset_len z) | Some _ \<Rightarrow> Inl WRONGTYPE | None \<Rightarrow> Inr 0)"

definition sh_zrange :: "u64 \<Rightarrow> bytes \<Rightarrow> int \<Rightarrow> int \<Rightarrow> shard \<Rightarrow> (shard \<times> (bytes \<times> f64) list result) option" where
  "sh_zrange now key start stop = sh_read_collection now key
     (\<lambda>v. case v of Some (VZSet z) \<Rightarrow> Inr (zset_range z start stop) | Some _ \<Rightarrow> Inl WRONGTYPE | None \<Rightarrow> Inr [])"

section \<open>Specifications\<close>

definition read_cell :: "u64 \<Rightarrow> (val option \<Rightarrow> 'r) \<Rightarrow> entry option \<Rightarrow> entry option \<times> 'r" where
  "read_cell now g c = (vis now c, g (map_option en_value (vis now c)))"

definition get_answer :: "val option \<Rightarrow> bytes option result" where
  "get_answer v = (case v of Some (VStr w) \<Rightarrow> Inr (Some w) | Some _ \<Rightarrow> Inl WRONGTYPE | None \<Rightarrow> Inr None)"

definition strlen_answer :: "val option \<Rightarrow> nat result" where
  "strlen_answer v = (case v of Some (VStr w) \<Rightarrow> Inr (length w) | Some _ \<Rightarrow> Inl WRONGTYPE | None \<Rightarrow> Inr 0)"

definition str_read_of :: "val option \<Rightarrow> str_read" where
  "str_read_of v = (case v of Some (VStr w) \<Rightarrow> StrRead_Str w | Some _ \<Rightarrow> StrRead_WrongType | None \<Rightarrow> StrRead_None)"

definition pttl_cell :: "u64 \<Rightarrow> entry option \<Rightarrow> entry option \<times> ttl" where
  "pttl_cell now c =
     (vis now c,
      case vis now c of
        None \<Rightarrow> Ttl_NoKey
      | Some e \<Rightarrow> (case en_expire_at e of None \<Rightarrow> Ttl_NoExpiry | Some t \<Rightarrow> Ttl_Millis (t - now)))"

definition set_cell :: "u64 \<Rightarrow> bytes \<Rightarrow> set_options \<Rightarrow> entry option \<Rightarrow> entry option \<times> bool" where
  "set_cell now v opts c =
     (let old = vis now c in
      if so_nx opts \<and> old \<noteq> None \<or> so_xx opts \<and> old = None then (old, False)
      else (Some \<lparr>en_value = VStr v,
                  en_expire_at = (if so_keep_ttl opts \<and> old \<noteq> None then Option.bind old en_expire_at
                                  else so_expire_at opts)\<rparr>, True))"

definition del_cell :: "u64 \<Rightarrow> entry option \<Rightarrow> entry option \<times> bool" where
  "del_cell now c = (None, vis now c \<noteq> None)"

definition expire_cell :: "u64 \<Rightarrow> u64 option \<Rightarrow> entry option \<Rightarrow> entry option \<times> bool" where
  "expire_cell now at c =
     (map_option (\<lambda>e. e\<lparr>en_expire_at := at\<rparr>) (vis now c), vis now c \<noteq> None)"

definition number_of :: "val option \<Rightarrow> int result" where
  "number_of v = (case v of
       Some (VStr w) \<Rightarrow> (case parse_value w of Some i \<Rightarrow> Inr i | None \<Rightarrow> Inl NOT_INTEGER)
     | Some _ \<Rightarrow> Inl WRONGTYPE
     | None \<Rightarrow> Inr 0)"

definition incr_cell :: "u64 \<Rightarrow> int \<Rightarrow> entry option \<Rightarrow> entry option \<times> int result" where
  "incr_cell now delta c =
     (let old = vis now c in
      case number_of (map_option en_value old) of
        Inl err \<Rightarrow> (old, Inl err)
      | Inr cur \<Rightarrow>
          if i64_range (cur + delta)
          then (Some \<lparr>en_value = VStr (show_int (cur + delta)), en_expire_at = Option.bind old en_expire_at\<rparr>,
                Inr (cur + delta))
          else (old, Inl WOULD_OVERFLOW))"

definition append_cell :: "u64 \<Rightarrow> bytes \<Rightarrow> entry option \<Rightarrow> entry option \<times> nat result" where
  "append_cell now suffix c =
     (let old = vis now c in
      case get_answer (map_option en_value old) of
        Inl err \<Rightarrow> (old, Inl err)
      | Inr v \<Rightarrow>
          let w = (case v of Some w \<Rightarrow> w | None \<Rightarrow> []) @ suffix in
          (Some \<lparr>en_value = VStr w, en_expire_at = Option.bind old en_expire_at\<rparr>, Inr (length w)))"

section \<open>Readers implement their specifications\<close>

lemma wf_get: "sh_wf s \<Longrightarrow> fm_get (sh_map s) key = Some (sh_ks s key)"
  by (simp add: fm.get_law sh_wf_def sh_core_def)

lemma sh_invD: "sh_inv s \<Longrightarrow> sh_wf s"
  by (simp add: sh_inv_def)

lemma commits_vis: "commits b f (f(k := vis now (f k))) (f(k := vis now (f k)))"
  by (simp add: commits_def map_le_vis)

text \<open>Every reader runs \<^verbatim>\<open>live\<close>, possibly \<^verbatim>\<open>touch\<close>, and then only looks at the entry.\<close>

lemma reader_implements:
  assumes "\<And>s. opr s = do { (s, b) \<leftarrow> live s key now; if \<not> b then Some (s, none) else rest s }"
    and "\<And>s e. sh_wf s \<Longrightarrow> sh_ks s key = Some e \<Longrightarrow> \<exists>p. rest s = Some (s\<lparr>sh_pol := p\<rparr>, g e) \<and> sh_wf (s\<lparr>sh_pol := p\<rparr>)"
  shows "implements key opr (\<lambda>c. (vis now c, case vis now c of None \<Rightarrow> none | Some e \<Rightarrow> g e))"
proof (rule implementsI)
  fix s
  assume "sh_inv s"
  obtain s1 where s1: "live s key now = Some (s1, vis now (sh_ks s key) \<noteq> None)" "sh_wf s1"
      "sh_ks s1 = (sh_ks s)(key := vis now (sh_ks s key))" "sh_budget s1 = sh_budget s"
    by (rule liveE [OF sh_invD [OF \<open>sh_inv s\<close>]])
  show "\<exists>s'. opr s = Some (s', snd (vis now (sh_ks s key), case vis now (sh_ks s key) of None \<Rightarrow> none | Some e \<Rightarrow> g e))
      \<and> sh_wf s' \<and> sh_budget s' = sh_budget s \<and> commits (sh_budget s) (sh_ks s)
        ((sh_ks s)(key := fst (vis now (sh_ks s key), case vis now (sh_ks s key) of None \<Rightarrow> none | Some e \<Rightarrow> g e))) (sh_ks s')"
  proof (cases "vis now (sh_ks s key)")
    case None
    with s1 commits_vis [of _ "sh_ks s" key now] show ?thesis by (simp add: assms(1))
  next
    case (Some e)
    then have "sh_ks s1 key = Some e" using s1(3) by simp
    with assms(2) [OF s1(2)] obtain p where "rest s1 = Some (s1\<lparr>sh_pol := p\<rparr>, g e)" "sh_wf (s1\<lparr>sh_pol := p\<rparr>)"
      by blast
    with Some s1 commits_vis [of _ "sh_ks s" key now] show ?thesis
      by (intro exI [of _ "s1\<lparr>sh_pol := p\<rparr>"]) (simp add: assms(1))
  qed
qed

lemma touch_read:
  assumes "sh_wf s" "sh_ks s key = Some e"
  shows "\<exists>p. do { s \<leftarrow> touch s key; found \<leftarrow> fm_get (sh_map s) key; Some (s, h found) } =
    Some (s\<lparr>sh_pol := p\<rparr>, h (Some e)) \<and> sh_wf (s\<lparr>sh_pol := p\<rparr>)"
proof -
  obtain p where "touch s key = Some (s\<lparr>sh_pol := p\<rparr>)" "sh_wf (s\<lparr>sh_pol := p\<rparr>)"
    by (rule sh_touchE [OF assms(1)])
  then show ?thesis using assms by (auto simp: wf_get)
qed

lemma plain_read:
  assumes "sh_wf s" "sh_ks s key = Some e"
  shows "\<exists>p. do { found \<leftarrow> fm_get (sh_map s) key; Some (s, h found) } =
    Some (s\<lparr>sh_pol := p\<rparr>, h (Some e)) \<and> sh_wf (s\<lparr>sh_pol := p\<rparr>)"
  using assms by (intro exI [of _ "sh_pol s"]) (simp add: wf_get)

lemma touch_reader:
  assumes "\<And>s. opr s = do { (s, b) \<leftarrow> live s key now; if \<not> b then Some (s, n)
    else do { s \<leftarrow> touch s key; found \<leftarrow> fm_get (sh_map s) key; Some (s, h found) } }"
  shows "implements key opr (\<lambda>c. (vis now c, case vis now c of None \<Rightarrow> n | Some e \<Rightarrow> h (Some e)))"
  by (rule reader_implements [OF assms touch_read])

lemma plain_reader:
  assumes "\<And>s. opr s = do { (s, b) \<leftarrow> live s key now; if \<not> b then Some (s, n)
    else do { found \<leftarrow> fm_get (sh_map s) key; Some (s, h found) } }"
  shows "implements key opr (\<lambda>c. (vis now c, case vis now c of None \<Rightarrow> n | Some e \<Rightarrow> h (Some e)))"
  by (rule reader_implements [OF assms plain_read])

lemma implements_cong: "implements key opr cell \<Longrightarrow> (\<And>c. cell c = cell' c) \<Longrightarrow> implements key opr cell'"
  by (simp add: implements_def)

lemma read_collection_implements: "implements key (sh_read_collection now key f) (read_cell now f)"
  by (rule implements_cong [OF touch_reader [OF sh_read_collection_def]])
     (simp add: read_cell_def split: option.splits)

lemma read_str_implements: "implements key (sh_read_str now key f) (read_cell now (\<lambda>v. f (str_read_of v)))"
  by (rule implements_cong [OF touch_reader [OF sh_read_str_def]])
     (auto simp: read_cell_def str_read_of_def split: option.splits val.splits)

lemma get_implements: "implements key (sh_get now key) (read_cell now get_answer)"
  by (rule implements_cong [OF touch_reader [OF sh_get_def]])
     (auto simp: read_cell_def get_answer_def split: option.splits val.splits)

lemma strlen_implements: "implements key (sh_strlen now key) (read_cell now strlen_answer)"
  by (rule implements_cong [OF plain_reader [OF sh_strlen_def]])
     (auto simp: read_cell_def strlen_answer_def split: option.splits val.splits)

lemma type_of_implements:
  "implements key (sh_type_of now key) (read_cell now (\<lambda>v. case v of None \<Rightarrow> ''none'' | Some w \<Rightarrow> type_name w))"
  by (rule implements_cong [OF plain_reader [OF sh_type_of_def]])
     (auto simp: read_cell_def split: option.splits)

lemma pttl_implements: "implements key (sh_pttl now key) (pttl_cell now)"
  by (rule implements_cong [OF plain_reader [OF sh_pttl_def]])
     (auto simp: pttl_cell_def vis_def expired_def split: option.splits)

lemma exists_implements: "implements key (sh_exists now key) (read_cell now (\<lambda>v. v \<noteq> None))"
proof (rule implementsI)
  fix s
  assume "sh_inv s"
  obtain s1 where "live s key now = Some (s1, vis now (sh_ks s key) \<noteq> None)" "sh_wf s1"
      "sh_ks s1 = (sh_ks s)(key := vis now (sh_ks s key))" "sh_budget s1 = sh_budget s"
    by (rule liveE [OF sh_invD [OF \<open>sh_inv s\<close>]])
  then show "\<exists>s'. sh_exists now key s = Some (s', snd (read_cell now (\<lambda>v. v \<noteq> None) (sh_ks s key))) \<and> sh_wf s'
      \<and> sh_budget s' = sh_budget s
      \<and> commits (sh_budget s) (sh_ks s) ((sh_ks s)(key := fst (read_cell now (\<lambda>v. v \<noteq> None) (sh_ks s key)))) (sh_ks s')"
    using commits_vis [of _ "sh_ks s" key now] by (simp add: sh_exists_def read_cell_def)
qed

section \<open>Writers implement their specifications\<close>

text \<open>Every writer starts with \<^verbatim>\<open>live\<close>. From the shard that leaves, whose keyspace is \<open>f\<close> with the
  visible part of the cell \<open>x\<close> at the key, it must settle on the specified answer and cell \<open>y\<close>:
  keep or drop the cell, or enforce the budget on the updated keyspace.\<close>

definition settles ::
  "bytes \<Rightarrow> u64 \<Rightarrow> keyspace \<Rightarrow> nat \<Rightarrow> entry option \<Rightarrow> entry option \<times> 'r \<Rightarrow> (shard \<times> 'r) option \<Rightarrow> bool"
where
  "settles key now f b x y out \<longleftrightarrow> returns out (\<lambda>(s', r). r = snd y \<and> sh_wf s' \<and> sh_budget s' = b
     \<and> (sh_ks s' = f(key := fst y) \<and> fst y \<in> {None, vis now x}
         \<or> vals_ok (f(key := fst y)) \<and> evicted b (f(key := fst y)) (sh_ks s')))"

lemma writer_implements:
  assumes step: "\<And>s f x. sh_wf s \<Longrightarrow> vals_ok (sh_ks s) \<Longrightarrow> sh_ks s = f(key := vis now x) \<Longrightarrow>
      evicted (sh_budget s) (sh_ks s) (sh_ks s) \<Longrightarrow>
      settles key now f (sh_budget s) x (cell x) (rest (vis now x \<noteq> None) s)"
    and opr: "\<And>s. opr s = do { (s, b) \<leftarrow> live s key now; rest b s }"
  shows "implements key opr cell"
proof (rule implementsI)
  fix s
  assume inv: "sh_inv s"
  let ?x = "sh_ks s key"
  obtain s1 where s1: "live s key now = Some (s1, vis now ?x \<noteq> None)" "sh_wf s1"
      "sh_ks s1 = (sh_ks s)(key := vis now ?x)" "sh_budget s1 = sh_budget s"
    by (rule liveE [OF sh_invD [OF inv]])
  have vals: "vals_ok (sh_ks s1)" and fits: "evicted (sh_budget s1) (sh_ks s1) (sh_ks s1)"
    using inv_shrink [OF inv map_le_vis] by (simp_all add: s1(3,4))
  obtain s' where s': "rest (vis now ?x \<noteq> None) s1 = Some (s', snd (cell ?x))" "sh_wf s'" "sh_budget s' = sh_budget s1"
      "sh_ks s' = (sh_ks s)(key := fst (cell ?x)) \<and> fst (cell ?x) \<in> {None, vis now ?x}
        \<or> vals_ok ((sh_ks s)(key := fst (cell ?x))) \<and> evicted (sh_budget s1) ((sh_ks s)(key := fst (cell ?x))) (sh_ks s')"
    using step [OF s1(2) vals s1(3) fits] by (auto simp: settles_def elim: returnsE)
  have "commits (sh_budget s) (sh_ks s) ((sh_ks s)(key := fst (cell ?x))) (sh_ks s')"
    using s'(4) s1(4) map_le_vis [of "sh_ks s" key now] map_le_del [of "sh_ks s" key] by (auto simp: commits_def)
  with s1 s' show "\<exists>s'. opr s = Some (s', snd (cell ?x)) \<and> sh_wf s' \<and> sh_budget s' = sh_budget s
      \<and> commits (sh_budget s) (sh_ks s) ((sh_ks s)(key := fst (cell ?x))) (sh_ks s')"
    by (auto simp: opr)
qed

lemma value_ok_str [simp]: "value_ok (VStr v)"
  by (simp add: value_ok_def)

lemma settles_keep:
  "sh_wf s \<Longrightarrow> sh_ks s = f(key := vis now x) \<Longrightarrow> settles key now f (sh_budget s) x (vis now x, r) (Some (s, r))"
  by (simp add: settles_def)

lemma settles_drop:
  assumes "sh_wf s" "sh_ks s = f(key := c)"
  shows "settles key now f (sh_budget s) x (None, c \<noteq> None) (drop_key s key)"
proof -
  obtain s' where "drop_key s key = Some (s', sh_ks s key \<noteq> None)" "sh_wf s'"
      "sh_ks s' = (sh_ks s)(key := None)" "sh_budget s' = sh_budget s"
    by (rule drop_keyE [OF assms(1)])
  with assms(2) show ?thesis by (simp add: settles_def)
qed

lemma settles_enforce:
  assumes "sh_wf s" "sh_ks s = f(key := c)" "vals_ok (f(key := c))" "sh_budget s = b"
  shows "settles key now f b x (c, r) (do { s \<leftarrow> enforce_budget s; Some (s, r) })"
proof -
  obtain s' where "enforce_budget s = Some s'" "sh_wf s'" "sh_budget s' = sh_budget s"
      "evicted (sh_budget s) (sh_ks s) (sh_ks s')"
    by (rule enforce_budgetE [OF assms(1)])
  with assms show ?thesis by (simp add: settles_def)
qed

lemma del_implements: "implements key (sh_del now key) (del_cell now)"
proof (rule writer_implements [OF _ sh_del_def])
  fix s f x
  assume s: "sh_wf s" "sh_ks s = f(key := vis now x)"
  show "settles key now f (sh_budget s) x (del_cell now x) (if \<not> vis now x \<noteq> None then Some (s, False) else drop_key s key)"
    using settles_drop [OF s, of now x] settles_keep [OF s, of False] by (cases "vis now x") (simp_all add: del_cell_def)
qed

lemma expire_at_implements: "implements key (sh_expire_at now key at) (expire_cell now at)"
proof (rule writer_implements [OF _ sh_expire_at_def])
  fix s f x
  assume s: "sh_wf s" "vals_ok (sh_ks s)" "sh_ks s = f(key := vis now x)" "evicted (sh_budget s) (sh_ks s) (sh_ks s)"
  have get: "fm_get (sh_map s) key = Some (vis now x)" using s(1,3) by (simp add: wf_get)
  have inv: "fm_inv (sh_map s)" using s(1) by (simp add: sh_wf_def sh_core_def)
  obtain m where m: "fm_get_mut (sh_map s) key (\<lambda>e. e\<lparr>en_expire_at := at\<rparr>) = Some m" "fm_inv m"
      "fm_map m = (sh_ks s)(key := map_option (\<lambda>e. e\<lparr>en_expire_at := at\<rparr>) (sh_ks s key))"
    by (rule fm.get_mutE [OF inv])
  show "settles key now f (sh_budget s) x (expire_cell now at x)
     (if \<not> vis now x \<noteq> None then Some (s, False)
      else do { found \<leftarrow> fm_get (sh_map s) key;
        (case found of None \<Rightarrow> Some (s, False)
         | Some _ \<Rightarrow> do { m \<leftarrow> fm_get_mut (sh_map s) key (\<lambda>e. e\<lparr>en_expire_at := at\<rparr>); Some (s\<lparr>sh_map := m\<rparr>, True) }) })"
  proof (cases "vis now x")
    case None
    with s settles_keep [OF s(1,3), of False] show ?thesis by (simp add: expire_cell_def)
  next
    case (Some e)
    let ?e = "e\<lparr>en_expire_at := at\<rparr>"
    have e: "sh_ks s key = Some e" and ks: "fm_map m = (sh_ks s)(key \<mapsto> ?e)" using m(3) s(3) Some by simp_all
    have same: "ks_bytes (fm_map m) = sh_bytes s"
      using overwrite_bytes(1) [OF s(1) e m(2) ks] s(1) by (simp add: usub_def split: if_splits)
    then have wf: "sh_wf (s\<lparr>sh_map := m\<rparr>)" using overwrite_bytes(2) [OF s(1) e m(2) ks] by simp
    have "evicted (sh_budget s) (fm_map m) (fm_map m)"
      using s(1,4) same by (simp add: evicted_def sh_wf_def sh_core_def)
    moreover have "vals_ok (fm_map m)"
      unfolding ks using vals_ok_get [OF s(2) e] by (intro vals_ok_upd [OF s(2)]) simp
    ultimately show ?thesis using m(1) get Some wf ks s(3) by (simp add: settles_def expire_cell_def)
  qed
qed

lemma entry_overwrite [simp]: "e\<lparr>en_value := v, en_expire_at := ex\<rparr> = \<lparr>en_value = v, en_expire_at = ex\<rparr>"
  by (cases e) simp

lemma set_writeE:
  assumes wf: "sh_wf s"
  obtains s' where "set_write (sh_ks s key \<noteq> None) key v ex s = Some s'" "sh_wf s'"
    "sh_ks s' = (sh_ks s)(key \<mapsto> \<lparr>en_value = VStr v, en_expire_at = ex\<rparr>)" "sh_budget s' = sh_budget s"
proof (cases "sh_ks s key")
  case None
  then obtain s' where "put_new s key (VStr v) ex = Some s'" "sh_wf s'"
      "sh_ks s' = (sh_ks s)(key \<mapsto> \<lparr>en_value = VStr v, en_expire_at = ex\<rparr>)" "sh_budget s' = sh_budget s"
    by (rule put_newE [OF wf])
  with None that show thesis by (simp add: set_write_def)
next
  case (Some e)
  have inv: "fm_inv (sh_map s)" using wf by (simp add: sh_wf_def sh_core_def)
  obtain m where m: "fm_get_mut (sh_map s) key (\<lambda>e. e\<lparr>en_value := VStr v, en_expire_at := ex\<rparr>) = Some m" "fm_inv m"
      "fm_map m = (sh_ks s)(key := map_option (\<lambda>e. e\<lparr>en_value := VStr v, en_expire_at := ex\<rparr>) (sh_ks s key))"
    by (rule fm.get_mutE [OF inv])
  have ks: "fm_map m = (sh_ks s)(key \<mapsto> \<lparr>en_value = VStr v, en_expire_at = ex\<rparr>)" using m(3) Some by simp
  note ow = overwrite_bytes [OF wf Some m(2) ks]
  obtain p where "touch (s\<lparr>sh_map := m, sh_bytes := ks_bytes (fm_map m)\<rparr>) key =
        Some (s\<lparr>sh_map := m, sh_bytes := ks_bytes (fm_map m)\<rparr>\<lparr>sh_pol := p\<rparr>)"
      "sh_wf (s\<lparr>sh_map := m, sh_bytes := ks_bytes (fm_map m)\<rparr>\<lparr>sh_pol := p\<rparr>)"
    by (rule sh_touchE [OF ow(2)])
  with Some m(1) ow(1) ks show thesis
    by (intro that [of "s\<lparr>sh_map := m, sh_bytes := ks_bytes (fm_map m), sh_pol := p\<rparr>"])
       (simp_all add: set_write_def wf_get [OF wf] value_bytes_def)
qed

lemma set_implements: "implements key (sh_set now key v opts) (set_cell now v opts)"
proof (rule writer_implements [OF _ sh_set_def])
  fix s f x
  assume s: "sh_wf s" "vals_ok (sh_ks s)" "sh_ks s = f(key := vis now x)"
  define ex where "ex = (if so_keep_ttl opts \<and> vis now x \<noteq> None then Option.bind (vis now x) en_expire_at
    else so_expire_at opts)"
  let ?e = "\<lparr>en_value = VStr v, en_expire_at = ex\<rparr>"
  have vals: "vals_ok (f(key \<mapsto> ?e))" using vals_ok_upd [OF s(2), of ?e key] s(3) by simp
  have vis: "sh_ks s key = vis now x" using s(3) by simp
  obtain s1 where s1: "set_write (vis now x \<noteq> None) key v ex s = Some s1" "sh_wf s1"
      "sh_ks s1 = f(key \<mapsto> ?e)" "sh_budget s1 = sh_budget s"
    using set_writeE [OF s(1), of key v ex] s(3) vis by auto
  show "settles key now f (sh_budget s) x (set_cell now v opts x)
     (if so_nx opts \<and> vis now x \<noteq> None then Some (s, False)
      else if so_xx opts \<and> \<not> vis now x \<noteq> None then Some (s, False)
      else do { found \<leftarrow> fm_get (sh_map s) key;
        let new_expire = (if so_keep_ttl opts \<and> vis now x \<noteq> None then Option.bind found en_expire_at
                          else so_expire_at opts);
        s \<leftarrow> set_write (vis now x \<noteq> None) key v new_expire s;
        s \<leftarrow> enforce_budget s; Some (s, True) })"
    unfolding wf_get [OF s(1)] vis Option.bind.simps Let_def ex_def [symmetric] s1(1) set_cell_def
    using settles_keep [OF s(1,3), of False] settles_enforce [OF s1(2,3) vals s1(4), of now x True] by auto
qed

text \<open>\<^verbatim>\<open>incr_by\<close> and \<^verbatim>\<open>append\<close> replace the entry by a fresh one.\<close>

lemma sh_replace_settles:
  assumes s: "sh_wf s" "vals_ok (sh_ks s)" "sh_ks s = f(key := vis now x)"
  shows "settles key now f (sh_budget s) x (Some \<lparr>en_value = VStr v, en_expire_at = ex\<rparr>, r)
    (do { s \<leftarrow> sh_replace (vis now x \<noteq> None) key v ex s; Some (s, r) })"
proof -
  let ?e = "\<lparr>en_value = VStr v, en_expire_at = ex\<rparr>"
  have vals: "vals_ok (f(key \<mapsto> ?e))" using vals_ok_upd [OF s(2), of ?e key] s(3) by simp
  obtain s1 where s1: "drop_key s key = Some (s1, sh_ks s key \<noteq> None)" "sh_wf s1"
      "sh_ks s1 = (sh_ks s)(key := None)" "sh_budget s1 = sh_budget s"
    by (rule drop_keyE [OF s(1)])
  obtain s2 where s2: "(if vis now x \<noteq> None then do { (s, _) \<leftarrow> drop_key s key; Some s } else Some s) = Some s2"
      "sh_wf s2" "sh_ks s2 = f(key := None)" "sh_budget s2 = sh_budget s"
    using s1 s that by (cases "vis now x") simp_all
  have "sh_ks s2 key = None" using s2(3) by simp
  then obtain s3 where s3: "put_new s2 key (VStr v) ex = Some s3" "sh_wf s3" "sh_ks s3 = (sh_ks s2)(key \<mapsto> ?e)"
      "sh_budget s3 = sh_budget s2"
    by (rule put_newE [OF s2(2)])
  have ks3: "sh_ks s3 = f(key \<mapsto> ?e)" using s3(3) s2(3) by simp
  have "do { s \<leftarrow> sh_replace (vis now x \<noteq> None) key v ex s; Some (s, r) } = do { s \<leftarrow> enforce_budget s3; Some (s, r) }"
    using s2(1) s3(1) by (simp add: sh_replace_def)
  then show ?thesis using settles_enforce [OF s3(2) ks3 vals, of "sh_budget s" now x r] s2(4) s3(4) by simp
qed

lemma incr_by_implements: "implements key (sh_incr_by now key delta) (incr_cell now delta)"
proof (rule writer_implements [OF _ sh_incr_by_def])
  fix s f x
  assume s: "sh_wf s" "vals_ok (sh_ks s)" "sh_ks s = f(key := vis now x)"
  have vis: "sh_ks s key = vis now x" using s(3) by simp
  have cur: "(if vis now x \<noteq> None then
        (case map_option en_value (vis now x) of
           Some (VStr v) \<Rightarrow> (case parse_value v of Some i \<Rightarrow> Inr i | None \<Rightarrow> Inl NOT_INTEGER)
         | Some _ \<Rightarrow> Inl WRONGTYPE
         | None \<Rightarrow> Inr 0)
      else Inr 0) = number_of (map_option en_value (vis now x))"
    by (cases "vis now x") (simp_all add: number_of_def)
  have ex: "(if vis now x \<noteq> None then Option.bind (vis now x) en_expire_at else None) = Option.bind (vis now x) en_expire_at"
    by (cases "vis now x") simp_all
  show "settles key now f (sh_budget s) x (incr_cell now delta x)
     (do { found \<leftarrow> fm_get (sh_map s) key;
       let cur = (if vis now x \<noteq> None then
                    (case map_option en_value found of
                       Some (VStr v) \<Rightarrow> (case parse_value v of Some i \<Rightarrow> Inr i | None \<Rightarrow> Inl NOT_INTEGER)
                     | Some _ \<Rightarrow> Inl WRONGTYPE
                     | None \<Rightarrow> Inr 0)
                  else Inr 0);
       (case cur of
          Inl err \<Rightarrow> Some (s, Inl err)
        | Inr cur \<Rightarrow>
            if \<not> i64_range (cur + delta) then Some (s, Inl WOULD_OVERFLOW)
            else do {
              let expire = (if vis now x \<noteq> None then Option.bind found en_expire_at else None);
              s \<leftarrow> sh_replace (vis now x \<noteq> None) key (show_int (cur + delta)) expire s;
              Some (s, Inr (cur + delta)) }) })"
    unfolding wf_get [OF s(1)] vis Option.bind.simps cur ex incr_cell_def Let_def
    using settles_keep [OF s(1,3)] sh_replace_settles [OF s]
    by (auto split: sum.splits)
qed

lemma append_implements: "implements key (sh_append now key suffix) (append_cell now suffix)"
proof (rule writer_implements [OF _ sh_append_def])
  fix s f x
  assume s: "sh_wf s" "vals_ok (sh_ks s)" "sh_ks s = f(key := vis now x)"
  have vis: "sh_ks s key = vis now x" using s(3) by simp
  show "settles key now f (sh_budget s) x (append_cell now suffix x)
     (do { found \<leftarrow> fm_get (sh_map s) key;
       if vis now x \<noteq> None \<and> (case map_option en_value found of Some (VStr _) \<Rightarrow> False | Some _ \<Rightarrow> True | None \<Rightarrow> False)
       then Some (s, Inl WRONGTYPE)
       else do {
         (v, expire) \<leftarrow>
           (if vis now x \<noteq> None then
              (case found of
                 None \<Rightarrow> None
               | Some e \<Rightarrow> (case en_value e of VStr w \<Rightarrow> Some (w, en_expire_at e) | _ \<Rightarrow> None))
            else Some ([], None));
         let v = v @ suffix;
         s \<leftarrow> sh_replace (vis now x \<noteq> None) key v expire s;
         Some (s, Inr (length v)) } })"
    unfolding wf_get [OF s(1)] vis Option.bind.simps append_cell_def get_answer_def
    using settles_keep [OF s(1,3), of "Inl WRONGTYPE"] sh_replace_settles [OF s]
    by (cases "vis now x") (auto simp: Let_def split: val.splits)
qed

section \<open>Collection operations implement their specifications\<close>

lemma push_implements:
  "implements key (sh_push now key vals left) (coll_cell list_variant now (list_push vals left))"
  unfolding sh_push_def by (rule list_coll.with_collection_implements) simp

lemma pop_implements:
  "implements key (sh_pop now key cnt left) (coll_cell list_variant now (list_pop cnt left))"
  unfolding sh_pop_def by (rule list_coll.with_collection_implements) simp

lemma hset_implements:
  "implements key (sh_hset now key kvs) (coll_cell hash_variant now (count_ops hash_insert kvs))"
  unfolding sh_hset_def by (rule hash_coll.with_collection_implements) (rule hset.loop_keeps)

lemma hdel_implements:
  "implements key (sh_hdel now key fs) (coll_cell hash_variant now (count_ops hash_remove fs))"
  unfolding sh_hdel_def by (rule hash_coll.with_collection_implements) (rule hdel.loop_keeps)

lemma sadd_implements:
  "implements key (sh_sadd now key ms) (coll_cell set_variant now (count_ops hset_insert ms))"
  unfolding sh_sadd_def by (rule set_coll.with_collection_implements) (rule sadd.loop_keeps)

lemma srem_implements:
  "implements key (sh_srem now key ms) (coll_cell set_variant now (count_ops hset_remove ms))"
  unfolding sh_srem_def by (rule set_coll.with_collection_implements) (rule srem.loop_keeps)

lemma zadd_implements:
  "implements key (sh_zadd now key sms) (coll_cell zset_variant now (count_ops zadd_op sms))"
  unfolding sh_zadd_def by (rule zset_coll.with_collection_implements) (rule zadd.loop_keeps)

lemma zrem_implements:
  "implements key (sh_zrem now key ms) (coll_cell zset_variant now (count_ops zset_remove ms))"
  unfolding sh_zrem_def by (rule zset_coll.with_collection_implements) (rule zrem.loop_keeps)

end
