(* ===== verification/Store.thy ===== *)
theory Store
  imports Store_Ops
begin

unbundle bit_operations_syntax

text \<open>
  The store of \<^verbatim>\<open>crates/core/src/store.rs\<close>: a power-of-two number of shards, a key being routed by
  \<^verbatim>\<open>router.hash_one(key) & mask\<close>. The router hash is a parameter kept in the store record. Each
  operation of \<^verbatim>\<open>impl Store\<close> holds the lock of the one shard it works on, so an execution of the
  server is a sequence of these operations, each with the time it read from the clock; the
  operations over all shards (\<^verbatim>\<open>dbsize\<close>, \<^verbatim>\<open>flush_all\<close>, \<^verbatim>\<open>purge_expired\<close>, \<^verbatim>\<open>keys\<close>) are modelled as one
  step each.
\<close>

section \<open>Data and routing\<close>

record store =
  st_shards :: "shard list"
  st_mask :: u64
  st_router :: "bytes \<Rightarrow> u64"

definition store_new :: "(bytes \<Rightarrow> u64) \<Rightarrow> (nat \<Rightarrow> hashers) \<Rightarrow> nat \<Rightarrow> nat \<Rightarrow> store" where
  "store_new router hs shards maxmemory =
     (let n = next_power_of_two (max shards 1);
          per_shard = (if maxmemory = 0 then 0 else max (maxmemory div n) 1)
      in \<lparr>st_shards = map (\<lambda>i. shard_new (hs i) per_shard) [0..<n],
          st_mask = of_nat n - 1, st_router = router\<rparr>)"

definition shard_idx :: "store \<Rightarrow> bytes \<Rightarrow> nat" where
  "shard_idx st key = unat (st_router st key AND st_mask st)"

text \<open>\<^verbatim>\<open>self.shard(key)\<close> and the use of the guard it returns.\<close>

definition on_shard :: "store \<Rightarrow> bytes \<Rightarrow> (shard \<Rightarrow> (shard \<times> 'r) option) \<Rightarrow> (store \<times> 'r) option" where
  "on_shard st key opr =
     do {
       s \<leftarrow> idx (st_shards st) (shard_idx st key);
       (s, r) \<leftarrow> opr s;
       Some (st\<lparr>st_shards := (st_shards st)[shard_idx st key := s]\<rparr>, r)
     }"

definition shard_count :: "store \<Rightarrow> nat" where
  "shard_count st = length (st_shards st)"

section \<open>Operations over all shards\<close>

definition dbsize :: "store \<Rightarrow> nat" where
  "dbsize st = (\<Sum>s \<leftarrow> st_shards st. fm_len (sh_map s))"

definition flush_all :: "(nat \<Rightarrow> hashers) \<Rightarrow> store \<Rightarrow> store" where
  "flush_all hs st =
     st\<lparr>st_shards := map (\<lambda>(i, s). shard_new (hs i) (sh_budget s)) (enumerate 0 (st_shards st))\<rparr>"

fun drop_keys :: "bytes list \<Rightarrow> shard \<Rightarrow> (shard \<times> nat) option" where
  "drop_keys [] s = Some (s, 0)"
| "drop_keys (k # ks) s =
     do {
       (s, dropped) \<leftarrow> drop_key s k;
       (s, n) \<leftarrow> drop_keys ks s;
       Some (s, (if dropped then 1 else 0) + n)
     }"

definition purge_shard :: "u64 \<Rightarrow> shard \<Rightarrow> (shard \<times> nat) option" where
  "purge_shard now s = drop_keys (map fst (filter (\<lambda>(k, e). expired now e) (fm_iter (sh_map s)))) s"

fun purge_shards :: "u64 \<Rightarrow> shard list \<Rightarrow> (shard list \<times> nat) option" where
  "purge_shards now [] = Some ([], 0)"
| "purge_shards now (s # ss) =
     do {
       (s, n) \<leftarrow> purge_shard now s;
       (ss, m) \<leftarrow> purge_shards now ss;
       Some (s # ss, n + m)
     }"

definition purge_expired :: "u64 \<Rightarrow> store \<Rightarrow> (store \<times> nat) option" where
  "purge_expired now st =
     do { (ss, removed) \<leftarrow> purge_shards now (st_shards st); Some (st\<lparr>st_shards := ss\<rparr>, removed) }"

definition store_keys :: "u64 \<Rightarrow> store \<Rightarrow> bytes list" where
  "store_keys now st =
     concat (map (\<lambda>s. map fst (filter (\<lambda>(k, e). \<not> expired now e) (fm_iter (sh_map s)))) (st_shards st))"

section \<open>The keyed operations, as one type\<close>

datatype store_op =
    S_Get bytes | S_ReadStr bytes | S_Set bytes bytes set_options | S_Del bytes | S_Exists bytes | S_TypeOf bytes
  | S_ExpireAt bytes "u64 option" | S_Pttl bytes | S_IncrBy bytes int | S_Append bytes bytes | S_Strlen bytes
  | S_Push bytes "bytes list" bool | S_Pop bytes nat bool | S_Llen bytes | S_Lrange bytes int int
  | S_Hset bytes "(bytes \<times> bytes) list" | S_Hget bytes bytes | S_Hdel bytes "bytes list" | S_Hlen bytes | S_Hgetall bytes
  | S_Sadd bytes "bytes list" | S_Srem bytes "bytes list" | S_Sismember bytes bytes | S_Scard bytes | S_Smembers bytes
  | S_Zadd bytes "(f64 \<times> bytes) list" | S_Zrem bytes "bytes list" | S_Zscore bytes bytes | S_Zcard bytes | S_Zrange bytes int int

datatype answer =
    A_Bool (un_Bool: bool) | A_Name (un_Name: string) | A_Ttl (un_Ttl: ttl) | A_Read (un_Read: str_read)
  | A_OptStr (un_OptStr: "bytes option result") | A_Count (un_Count: "nat result") | A_Int (un_Int: "int result")
  | A_Strs (un_Strs: "bytes list result") | A_Pairs (un_Pairs: "(bytes \<times> bytes) list result")
  | A_Member (un_Member: "bool result") | A_Score (un_Score: "f64 option result")
  | A_Scored (un_Scored: "(bytes \<times> f64) list result")

fun op_key :: "store_op \<Rightarrow> bytes" where
  "op_key (S_Get k) = k" | "op_key (S_ReadStr k) = k" | "op_key (S_Set k v opts) = k" | "op_key (S_Del k) = k" | "op_key (S_Exists k) = k"
| "op_key (S_TypeOf k) = k" | "op_key (S_ExpireAt k at) = k" | "op_key (S_Pttl k) = k" | "op_key (S_IncrBy k d) = k"
| "op_key (S_Append k v) = k" | "op_key (S_Strlen k) = k" | "op_key (S_Push k vs l) = k" | "op_key (S_Pop k n l) = k"
| "op_key (S_Llen k) = k" | "op_key (S_Lrange k a b) = k" | "op_key (S_Hset k kvs) = k" | "op_key (S_Hget k f) = k"
| "op_key (S_Hdel k fs) = k" | "op_key (S_Hlen k) = k" | "op_key (S_Hgetall k) = k" | "op_key (S_Sadd k ms) = k"
| "op_key (S_Srem k ms) = k" | "op_key (S_Sismember k m) = k" | "op_key (S_Scard k) = k" | "op_key (S_Smembers k) = k"
| "op_key (S_Zadd k sms) = k" | "op_key (S_Zrem k ms) = k" | "op_key (S_Zscore k m) = k" | "op_key (S_Zcard k) = k"
| "op_key (S_Zrange k a b) = k"

definition answering :: "('r \<Rightarrow> answer) \<Rightarrow> (shard \<Rightarrow> (shard \<times> 'r) option) \<Rightarrow> shard \<Rightarrow> (shard \<times> answer) option" where
  "answering h opr s = do { (s, r) \<leftarrow> opr s; Some (s, h r) }"

fun sh_step :: "u64 \<Rightarrow> store_op \<Rightarrow> shard \<Rightarrow> (shard \<times> answer) option" where
  "sh_step now (S_Get k) = answering A_OptStr (sh_get now k)"
| "sh_step now (S_ReadStr k) = answering A_Read (sh_read_str now k id)"
| "sh_step now (S_Set k v opts) = answering A_Bool (sh_set now k v opts)"
| "sh_step now (S_Del k) = answering A_Bool (sh_del now k)"
| "sh_step now (S_Exists k) = answering A_Bool (sh_exists now k)"
| "sh_step now (S_TypeOf k) = answering A_Name (sh_type_of now k)"
| "sh_step now (S_ExpireAt k at) = answering A_Bool (sh_expire_at now k at)"
| "sh_step now (S_Pttl k) = answering A_Ttl (sh_pttl now k)"
| "sh_step now (S_IncrBy k d) = answering A_Int (sh_incr_by now k d)"
| "sh_step now (S_Append k v) = answering A_Count (sh_append now k v)"
| "sh_step now (S_Strlen k) = answering A_Count (sh_strlen now k)"
| "sh_step now (S_Push k vs l) = answering A_Count (sh_push now k vs l)"
| "sh_step now (S_Pop k n l) = answering A_Strs (sh_pop now k n l)"
| "sh_step now (S_Llen k) = answering A_Count (sh_llen now k)"
| "sh_step now (S_Lrange k a b) = answering A_Strs (sh_lrange now k a b)"
| "sh_step now (S_Hset k kvs) = answering A_Count (sh_hset now k kvs)"
| "sh_step now (S_Hget k f) = answering A_OptStr (sh_hget now k f)"
| "sh_step now (S_Hdel k fs) = answering A_Count (sh_hdel now k fs)"
| "sh_step now (S_Hlen k) = answering A_Count (sh_hlen now k)"
| "sh_step now (S_Hgetall k) = answering A_Pairs (sh_hgetall now k)"
| "sh_step now (S_Sadd k ms) = answering A_Count (sh_sadd now k ms)"
| "sh_step now (S_Srem k ms) = answering A_Count (sh_srem now k ms)"
| "sh_step now (S_Sismember k m) = answering A_Member (sh_sismember now k m)"
| "sh_step now (S_Scard k) = answering A_Count (sh_scard now k)"
| "sh_step now (S_Smembers k) = answering A_Strs (sh_smembers now k)"
| "sh_step now (S_Zadd k sms) = answering A_Count (sh_zadd now k sms)"
| "sh_step now (S_Zrem k ms) = answering A_Count (sh_zrem now k ms)"
| "sh_step now (S_Zscore k m) = answering A_Score (sh_zscore now k m)"
| "sh_step now (S_Zcard k) = answering A_Count (sh_zcard now k)"
| "sh_step now (S_Zrange k a b) = answering A_Scored (sh_zrange now k a b)"

definition store_step :: "u64 \<Rightarrow> store_op \<Rightarrow> store \<Rightarrow> (store \<times> answer) option" where
  "store_step now op st = on_shard st (op_key op) (sh_step now op)"

text \<open>An execution: keyed operations, runs of the reaper, and flushes, each at its time.\<close>

datatype event = E_Op store_op | E_Purge | E_Flush "nat \<Rightarrow> hashers"

fun store_run :: "store \<Rightarrow> (u64 \<times> event) list \<Rightarrow> (store \<times> answer list) option" where
  "store_run st [] = Some (st, [])"
| "store_run st ((now, E_Op op) # es) =
     do { (st, a) \<leftarrow> store_step now op st; (st, as) \<leftarrow> store_run st es; Some (st, a # as) }"
| "store_run st ((now, E_Purge) # es) = do { (st, _) \<leftarrow> purge_expired now st; store_run st es }"
| "store_run st ((now, E_Flush hs) # es) = store_run (flush_all hs st) es"

section \<open>The reference: one keyspace\<close>

definition ans :: "('r \<Rightarrow> answer) \<Rightarrow> (entry option \<Rightarrow> entry option \<times> 'r) \<Rightarrow> entry option \<Rightarrow> entry option \<times> answer" where
  "ans h cell c = (fst (cell c), h (snd (cell c)))"

fun cell_step :: "u64 \<Rightarrow> store_op \<Rightarrow> entry option \<Rightarrow> entry option \<times> answer" where
  "cell_step now (S_Get k) = ans A_OptStr (read_cell now get_answer)"
| "cell_step now (S_ReadStr k) = ans A_Read (read_cell now (\<lambda>v. id (str_read_of v)))"
| "cell_step now (S_Set k v opts) = ans A_Bool (set_cell now v opts)"
| "cell_step now (S_Del k) = ans A_Bool (del_cell now)"
| "cell_step now (S_Exists k) = ans A_Bool (read_cell now (\<lambda>v. v \<noteq> None))"
| "cell_step now (S_TypeOf k) = ans A_Name (read_cell now (\<lambda>v. case v of None \<Rightarrow> ''none'' | Some w \<Rightarrow> type_name w))"
| "cell_step now (S_ExpireAt k at) = ans A_Bool (expire_cell now at)"
| "cell_step now (S_Pttl k) = ans A_Ttl (pttl_cell now)"
| "cell_step now (S_IncrBy k d) = ans A_Int (incr_cell now d)"
| "cell_step now (S_Append k v) = ans A_Count (append_cell now v)"
| "cell_step now (S_Strlen k) = ans A_Count (read_cell now strlen_answer)"
| "cell_step now (S_Push k vs l) = ans A_Count (coll_cell list_variant now (list_push vs l))"
| "cell_step now (S_Pop k n l) = ans A_Strs (coll_cell list_variant now (list_pop n l))"
| "cell_step now (S_Llen k) = ans A_Count (read_cell now
     (\<lambda>v. case v of Some (VList l) \<Rightarrow> Inr (length l) | Some _ \<Rightarrow> Inl WRONGTYPE | None \<Rightarrow> Inr 0))"
| "cell_step now (S_Lrange k a b) = ans A_Strs (read_cell now
     (\<lambda>v. case v of Some (VList l) \<Rightarrow> Inr (list_range l a b) | Some _ \<Rightarrow> Inl WRONGTYPE | None \<Rightarrow> Inr []))"
| "cell_step now (S_Hset k kvs) = ans A_Count (coll_cell hash_variant now (count_ops hash_insert kvs))"
| "cell_step now (S_Hget k f) = ans A_OptStr (read_cell now
     (\<lambda>v. case v of Some (VHash h) \<Rightarrow> Inr (map_of h f) | Some _ \<Rightarrow> Inl WRONGTYPE | None \<Rightarrow> Inr None))"
| "cell_step now (S_Hdel k fs) = ans A_Count (coll_cell hash_variant now (count_ops hash_remove fs))"
| "cell_step now (S_Hlen k) = ans A_Count (read_cell now
     (\<lambda>v. case v of Some (VHash h) \<Rightarrow> Inr (length h) | Some _ \<Rightarrow> Inl WRONGTYPE | None \<Rightarrow> Inr 0))"
| "cell_step now (S_Hgetall k) = ans A_Pairs (read_cell now
     (\<lambda>v. case v of Some (VHash h) \<Rightarrow> Inr h | Some _ \<Rightarrow> Inl WRONGTYPE | None \<Rightarrow> Inr []))"
| "cell_step now (S_Sadd k ms) = ans A_Count (coll_cell set_variant now (count_ops hset_insert ms))"
| "cell_step now (S_Srem k ms) = ans A_Count (coll_cell set_variant now (count_ops hset_remove ms))"
| "cell_step now (S_Sismember k m) = ans A_Member (read_cell now
     (\<lambda>v. case v of Some (VSet s) \<Rightarrow> Inr (m \<in> set s) | Some _ \<Rightarrow> Inl WRONGTYPE | None \<Rightarrow> Inr False))"
| "cell_step now (S_Scard k) = ans A_Count (read_cell now
     (\<lambda>v. case v of Some (VSet s) \<Rightarrow> Inr (length s) | Some _ \<Rightarrow> Inl WRONGTYPE | None \<Rightarrow> Inr 0))"
| "cell_step now (S_Smembers k) = ans A_Strs (read_cell now
     (\<lambda>v. case v of Some (VSet s) \<Rightarrow> Inr s | Some _ \<Rightarrow> Inl WRONGTYPE | None \<Rightarrow> Inr []))"
| "cell_step now (S_Zadd k sms) = ans A_Count (coll_cell zset_variant now (count_ops zadd_op sms))"
| "cell_step now (S_Zrem k ms) = ans A_Count (coll_cell zset_variant now (count_ops zset_remove ms))"
| "cell_step now (S_Zscore k m) = ans A_Score (read_cell now
     (\<lambda>v. case v of Some (VZSet z) \<Rightarrow> Inr (zset_score z m) | Some _ \<Rightarrow> Inl WRONGTYPE | None \<Rightarrow> Inr None))"
| "cell_step now (S_Zcard k) = ans A_Count (read_cell now
     (\<lambda>v. case v of Some (VZSet z) \<Rightarrow> Inr (zset_len z) | Some _ \<Rightarrow> Inl WRONGTYPE | None \<Rightarrow> Inr 0))"
| "cell_step now (S_Zrange k a b) = ans A_Scored (read_cell now
     (\<lambda>v. case v of Some (VZSet z) \<Rightarrow> Inr (zset_range z a b) | Some _ \<Rightarrow> Inl WRONGTYPE | None \<Rightarrow> Inr []))"

definition ks_step :: "u64 \<Rightarrow> store_op \<Rightarrow> keyspace \<Rightarrow> keyspace \<times> answer" where
  "ks_step now op f =
     (let (c, a) = cell_step now op (f (op_key op)) in (f(op_key op := c), a))"

fun ks_run :: "keyspace \<Rightarrow> (u64 \<times> event) list \<Rightarrow> keyspace \<times> answer list" where
  "ks_run f [] = (f, [])"
| "ks_run f ((now, E_Op op) # es) =
     (let (f, a) = ks_step now op f; (f, as) = ks_run f es in (f, a # as))"
| "ks_run f ((now, E_Purge) # es) = ks_run (\<lambda>k. vis now (f k)) es"
| "ks_run f ((now, E_Flush hs) # es) = ks_run Map.empty es"

section \<open>Invariant and abstraction\<close>

definition store_ks :: "store \<Rightarrow> keyspace" where
  "store_ks st = (\<lambda>k. sh_ks (st_shards st ! shard_idx st k) k)"

definition routed :: "store \<Rightarrow> nat \<Rightarrow> shard \<Rightarrow> bool" where
  "routed st i s \<longleftrightarrow> (\<forall>k \<in> dom (sh_ks s). shard_idx st k = i)"

definition st_inv :: "nat \<Rightarrow> store \<Rightarrow> bool" where
  "st_inv budget st \<longleftrightarrow>
     (\<exists>j \<le> 63. length (st_shards st) = 2 ^ j \<and> st_mask st = mask j)
     \<and> (\<forall>i < length (st_shards st). sh_inv (st_shards st ! i) \<and> sh_budget (st_shards st ! i) = budget
          \<and> routed st i (st_shards st ! i))"

section \<open>Routing\<close>

lemma st_invD:
  assumes "st_inv b st"
  shows "shard_idx st k < length (st_shards st)"
    and "i < length (st_shards st) \<Longrightarrow> sh_inv (st_shards st ! i)"
    and "i < length (st_shards st) \<Longrightarrow> sh_budget (st_shards st ! i) = b"
    and "i < length (st_shards st) \<Longrightarrow> routed st i (st_shards st ! i)"
    and "0 < length (st_shards st)"
proof -
  obtain j where j: "j \<le> 63" "length (st_shards st) = 2 ^ j" "st_mask st = mask j"
    using assms by (auto simp: st_inv_def)
  have "st_router st k AND mask j = take_bit j (st_router st k)" by (simp add: take_bit_eq_mask)
  then have "shard_idx st k = take_bit j (unat (st_router st k))"
    using j(3) by (simp add: shard_idx_def unsigned_take_bit_eq)
  then show "shard_idx st k < length (st_shards st)" by (simp add: j(2))
  show "0 < length (st_shards st)" by (simp add: j(2))
qed (use assms in \<open>auto simp: st_inv_def\<close>)

text \<open>The part of a keyspace that a shard holds.\<close>

definition part :: "store \<Rightarrow> nat \<Rightarrow> keyspace \<Rightarrow> keyspace" where
  "part st i f = f |` {k. shard_idx st k = i}"

lemma shard_part:
  assumes "st_inv b st" "i < length (st_shards st)"
  shows "sh_ks (st_shards st ! i) = part st i (store_ks st)"
proof
  fix k
  show "sh_ks (st_shards st ! i) k = part st i (store_ks st) k"
    using st_invD(4) [OF assms] by (auto simp: part_def store_ks_def routed_def restrict_map_def dom_def)
qed

lemma part_upd: "part st (shard_idx st k) (f(k := c)) = (part st (shard_idx st k) f)(k := c)"
  by (auto simp: part_def restrict_map_def)

text \<open>Replacing the shard of a key by one whose keyspace is a part of the updated one.\<close>

lemma shard_idx_shards [simp]: "shard_idx (st\<lparr>st_shards := ss\<rparr>) k = shard_idx st k"
  by (simp add: shard_idx_def)

lemma part_shards [simp]: "part (st\<lparr>st_shards := ss\<rparr>) = part st"
  by (simp add: part_def fun_eq_iff restrict_map_def)

lemma set_shard_inv:
  assumes inv: "st_inv b st" and i: "i < length (st_shards st)"
    and s: "sh_inv s" "sh_budget s = b" "routed st i s"
  defines "st' \<equiv> st\<lparr>st_shards := (st_shards st)[i := s]\<rparr>"
  shows "st_inv b st'" "store_ks st' k = (if shard_idx st k = i then sh_ks s k else store_ks st k)"
proof -
  have "routed st' = routed st" by (simp add: st'_def fun_eq_iff routed_def)
  then show "st_inv b st'"
    using inv s i by (auto simp: st_inv_def st'_def nth_list_update)
  show "store_ks st' k = (if shard_idx st k = i then sh_ks s k else store_ks st k)"
    using i by (simp add: store_ks_def st'_def)
qed

definition store_evicted :: "nat \<Rightarrow> store \<Rightarrow> bytes \<Rightarrow> keyspace \<Rightarrow> keyspace \<Rightarrow> bool" where
  "store_evicted b st key f g \<longleftrightarrow>
     evicted b (part st (shard_idx st key) f) (part st (shard_idx st key) g)
     \<and> (\<forall>k. shard_idx st k \<noteq> shard_idx st key \<longrightarrow> g k = f k)"

lemma store_evicted_unbounded: "store_evicted 0 st key f g \<Longrightarrow> g = f"
  by (auto simp: store_evicted_def evicted_def part_def fun_eq_iff restrict_map_def split: if_splits)

lemma store_evicted_le: "store_evicted b st key f g \<Longrightarrow> g \<subseteq>\<^sub>m f"
  by (auto simp: store_evicted_def evicted_def part_def map_le_def restrict_map_def dom_def split: if_splits)

lemma on_shard_returns:
  assumes inv: "st_inv b st" and impl: "implements key opr cell"
  shows "returns (on_shard st key opr) (\<lambda>(st', r). st_inv b st' \<and> r = snd (cell (store_ks st key))
    \<and> store_evicted b st key ((store_ks st)(key := fst (cell (store_ks st key)))) (store_ks st'))"
proof -
  let ?i = "shard_idx st key" let ?s = "st_shards st ! ?i"
  note D = st_invD [OF inv]
  have cell: "sh_ks ?s key = store_ks st key" by (simp add: store_ks_def)
  have part: "sh_ks ?s = part st ?i (store_ks st)" by (rule shard_part [OF inv D(1)])
  have step: "returns (opr ?s) (\<lambda>(s', r). sh_inv s' \<and> sh_budget s' = sh_budget ?s \<and> r = snd (cell (sh_ks ?s key))
      \<and> evicted (sh_budget ?s) ((sh_ks ?s)(key := fst (cell (sh_ks ?s key)))) (sh_ks s'))"
    using impl D(2) [OF D(1)] by (simp add: implements_def)
  obtain s' where s': "opr ?s = Some (s', snd (cell (store_ks st key)))" "sh_inv s'" "sh_budget s' = b"
      "evicted b (part st ?i ((store_ks st)(key := fst (cell (store_ks st key))))) (sh_ks s')"
    using step unfolding part_upd part [symmetric] cell D(3) [OF D(1)] by (auto elim: returnsE)
  have routed: "routed st ?i s'"
    using s'(4) by (force simp: routed_def evicted_def part_def map_le_def dom_def restrict_map_def split: if_splits)
  let ?st = "st\<lparr>st_shards := (st_shards st)[?i := s']\<rparr>"
  note st' = set_shard_inv [OF inv D(1) s'(2,3) routed]
  have "part st ?i (store_ks ?st) = sh_ks s'"
    using shard_part [OF st'(1), of ?i] D(1) by simp
  then have "store_evicted b st key ((store_ks st)(key := fst (cell (store_ks st key)))) (store_ks ?st)"
    using s'(4) st'(2) by (auto simp: store_evicted_def)
  then show ?thesis using s'(1) D(1) st'(1) by (simp add: on_shard_def)
qed

section \<open>Keyed operations\<close>

lemma answering_implements: "implements key opr cell \<Longrightarrow> implements key (answering h opr) (ans h cell)"
  by (fastforce simp: implements_def answering_def ans_def elim!: returnsE)

lemmas op_implements = get_implements read_str_implements set_implements del_implements exists_implements type_of_implements
  expire_at_implements pttl_implements incr_by_implements append_implements strlen_implements
  push_implements pop_implements hset_implements hdel_implements sadd_implements srem_implements
  zadd_implements zrem_implements read_collection_implements

lemmas collection_readers_def = sh_llen_def sh_lrange_def sh_hget_def sh_hlen_def sh_hgetall_def
  sh_sismember_def sh_scard_def sh_smembers_def sh_zscore_def sh_zcard_def sh_zrange_def

lemma sh_step_implements: "implements (op_key op) (sh_step now op) (cell_step now op)"
  by (cases op) (simp_all only: op_key.simps sh_step.simps cell_step.simps collection_readers_def
      op_implements answering_implements)

lemma store_step_returns:
  assumes "st_inv b st"
  shows "returns (store_step now op st) (\<lambda>(st', a). st_inv b st' \<and> a = snd (ks_step now op (store_ks st))
    \<and> store_evicted b st (op_key op) (fst (ks_step now op (store_ks st))) (store_ks st'))"
  using on_shard_returns [OF assms sh_step_implements, of op now]
  by (simp add: store_step_def ks_step_def split_def Let_def)

text \<open>An expired entry is indistinguishable from an absent one, whether or not it has been purged.\<close>

lemma vis_None [simp]: "vis now None = None"
  by (simp add: vis_def)

lemma vis_vis [simp]: "vis now (vis now c) = vis now c"
  by (auto simp: vis_def split: option.splits if_splits)

context collection_variant
begin

lemma coll_cell_vis: "coll_cell V now body (vis now c) = coll_cell V now body c"
proof (cases "vis now c")
  case None
  then show ?thesis by (simp add: coll_cell_def coll_entry_def proj_inj)
next
  case (Some e)
  then have "vis now c = c" by (simp add: vis_Some_iff)
  then show ?thesis by simp
qed

end

lemma cell_step_vis: "cell_step now op (vis now c) = cell_step now op c"
  by (cases op) (simp_all add: ans_def read_cell_def set_cell_def del_cell_def expire_cell_def pttl_cell_def
      incr_cell_def append_cell_def list_coll.coll_cell_vis hash_coll.coll_cell_vis set_coll.coll_cell_vis
      zset_coll.coll_cell_vis cong: option.case_cong)

section \<open>Operations over all shards\<close>

lemma flush_all_inv:
  assumes "st_inv b st" shows "st_inv b (flush_all hs st)" "store_ks (flush_all hs st) = Map.empty"
proof -
  have nth: "st_shards (flush_all hs st) ! i = shard_new (hs i) b" if "i < length (st_shards st)" for i
    using that st_invD(3) [OF assms that] by (simp add: flush_all_def nth_enumerate_eq)
  have len: "length (st_shards (flush_all hs st)) = length (st_shards st)" by (simp add: flush_all_def)
  have idx: "shard_idx (flush_all hs st) = shard_idx st" by (simp add: flush_all_def fun_eq_iff)
  show "st_inv b (flush_all hs st)"
    using assms nth len by (auto simp: st_inv_def routed_def) (auto simp: flush_all_def)
  show "store_ks (flush_all hs st) = Map.empty"
    using nth st_invD(1) [OF assms] by (simp add: store_ks_def fun_eq_iff idx)
qed

lemma drop_keys_returns:
  "sh_wf s \<Longrightarrow> distinct ks \<Longrightarrow> set ks \<subseteq> dom (sh_ks s) \<Longrightarrow> returns (drop_keys ks s)
     (\<lambda>(s', n). sh_wf s' \<and> sh_budget s' = sh_budget s \<and> n = length ks \<and> sh_ks s' = sh_ks s |` (- set ks))"
proof (induction ks arbitrary: s)
  case (Cons k ks)
  obtain s1 where s1: "drop_key s k = Some (s1, sh_ks s k \<noteq> None)" "sh_wf s1"
      "sh_ks s1 = (sh_ks s)(k := None)" "sh_budget s1 = sh_budget s"
    by (rule drop_keyE [OF Cons.prems(1)])
  have "set ks \<subseteq> dom (sh_ks s1)" using Cons.prems(2,3) s1(3) by auto
  then obtain s' where "drop_keys ks s1 = Some (s', length ks)" "sh_wf s'" "sh_budget s' = sh_budget s1"
      "sh_ks s' = sh_ks s1 |` (- set ks)"
    using Cons.IH [OF s1(2)] Cons.prems(2) by (auto elim!: returnsE)
  moreover have "(sh_ks s)(k := None) |` (- set ks) = sh_ks s |` (- set (k # ks))"
    by (auto simp: restrict_map_def)
  moreover have "sh_ks s k \<noteq> None" using Cons.prems(3) by auto
  ultimately show ?case using s1 by simp
qed (simp add: restrict_map_def)

lemma purge_shardE:
  assumes inv: "sh_inv s"
  obtains s' where "purge_shard now s = Some (s', card {k. \<exists>e. sh_ks s k = Some e \<and> expired now e})"
    "sh_inv s'" "sh_budget s' = sh_budget s" "sh_ks s' = (\<lambda>k. vis now (sh_ks s k))"
proof -
  have fm: "fm_inv (sh_map s)" and wf: "sh_wf s" using inv by (simp_all add: sh_inv_def sh_wf_def sh_core_def)
  let ?ks = "map fst (filter (\<lambda>(k, e). expired now e) (fm_iter (sh_map s)))"
  have set: "set ?ks = {k. \<exists>e. sh_ks s k = Some e \<and> expired now e}"
    using fm.in_iter_iff [OF fm] by (force simp: image_iff)
  have dist: "distinct ?ks" using fm.iter_law [OF fm] by (simp add: distinct_map_filter)
  have sub: "set ?ks \<subseteq> dom (sh_ks s)" unfolding set by auto
  have len: "length ?ks = card {k. \<exists>e. sh_ks s k = Some e \<and> expired now e}"
    using distinct_card [OF dist] unfolding set by simp
  have ks: "sh_ks s |` (- {k. \<exists>e. sh_ks s k = Some e \<and> expired now e}) = (\<lambda>k. vis now (sh_ks s k))"
    by (auto simp: restrict_map_def vis_def fun_eq_iff split: option.splits)
  obtain s' where s': "drop_keys ?ks s = Some (s', length ?ks)" "sh_wf s'" "sh_budget s' = sh_budget s"
      "sh_ks s' = (\<lambda>k. vis now (sh_ks s k))"
    using drop_keys_returns [OF wf dist sub] unfolding set ks by (auto elim!: returnsE)
  have "sh_ks s' \<subseteq>\<^sub>m sh_ks s" by (auto simp: s'(4) map_le_def vis_Some_iff)
  with inv_shrink [OF inv this] inv_evicted [OF s'(2)] s' have "sh_inv s'" by simp
  then show thesis using s' unfolding len by (intro that [of s']) (simp_all add: purge_shard_def)
qed

lemma purge_shards_returns:
  "\<forall>s \<in> set ss. sh_inv s \<Longrightarrow> returns (purge_shards now ss) (\<lambda>(ss', n). length ss' = length ss
     \<and> n = (\<Sum>s \<leftarrow> ss. card {k. \<exists>e. sh_ks s k = Some e \<and> expired now e})
     \<and> (\<forall>i < length ss. sh_inv (ss' ! i) \<and> sh_budget (ss' ! i) = sh_budget (ss ! i)
          \<and> sh_ks (ss' ! i) = (\<lambda>k. vis now (sh_ks (ss ! i) k))))"
proof (induction ss)
  case (Cons s ss)
  have inv: "sh_inv s" using Cons.prems by simp
  obtain s' where s': "purge_shard now s = Some (s', card {k. \<exists>e. sh_ks s k = Some e \<and> expired now e})"
    "sh_inv s'" "sh_budget s' = sh_budget s" "sh_ks s' = (\<lambda>k. vis now (sh_ks s k))"
    by (rule purge_shardE [OF inv])
  obtain ss' where "purge_shards now ss = Some (ss', \<Sum>s \<leftarrow> ss. card {k. \<exists>e. sh_ks s k = Some e \<and> expired now e})"
      "length ss' = length ss"
      "\<forall>i < length ss. sh_inv (ss' ! i) \<and> sh_budget (ss' ! i) = sh_budget (ss ! i)
          \<and> sh_ks (ss' ! i) = (\<lambda>k. vis now (sh_ks (ss ! i) k))"
    using Cons.IH Cons.prems by (auto elim!: returnsE)
  with s' show ?case by (auto simp: nth_Cons split: nat.splits)
qed simp

lemma purge_expiredE:
  assumes inv: "st_inv b st"
  obtains st' where
    "purge_expired now st = Some (st', \<Sum>s \<leftarrow> st_shards st. card {k. \<exists>e. sh_ks s k = Some e \<and> expired now e})"
    "st_inv b st'" "store_ks st' = (\<lambda>k. vis now (store_ks st k))"
proof -
  note D = st_invD [OF inv]
  have "\<forall>s \<in> set (st_shards st). sh_inv s" using D(2) by (auto simp: in_set_conv_nth)
  then obtain ss' where ss':
      "purge_shards now (st_shards st) = Some (ss', \<Sum>s \<leftarrow> st_shards st. card {k. \<exists>e. sh_ks s k = Some e \<and> expired now e})"
      "length ss' = length (st_shards st)"
      "\<And>i. i < length (st_shards st) \<Longrightarrow> sh_inv (ss' ! i) \<and> sh_budget (ss' ! i) = sh_budget (st_shards st ! i)
          \<and> sh_ks (ss' ! i) = (\<lambda>k. vis now (sh_ks (st_shards st ! i) k))"
    using purge_shards_returns [of "st_shards st" now] by (auto elim!: returnsE)
  let ?st = "st\<lparr>st_shards := ss'\<rparr>"
  have "routed ?st i (ss' ! i)" if "i < length ss'" for i
    using D(4) [of i] ss'(2,3) that by (auto simp: routed_def vis_Some_iff dom_def)
  then have "st_inv b ?st" using inv ss'(2,3) D(3) by (simp add: st_inv_def)
  moreover have "store_ks ?st = (\<lambda>k. vis now (store_ks st k))"
    using ss'(3) [OF D(1)] by (simp add: store_ks_def fun_eq_iff)
  ultimately show thesis using ss'(1) that by (simp add: purge_expired_def)
qed

section \<open>A new store\<close>

lemma pow2_le_exp: "pow2 n \<Longrightarrow> n \<le> 2 ^ m \<Longrightarrow> \<exists>j \<le> m. n = 2 ^ j"
  by (auto simp: pow2_def)

lemma npot_from_le: "pow2 p \<Longrightarrow> p \<le> 2 ^ m \<Longrightarrow> n \<le> 2 ^ m \<Longrightarrow> npot_from n p \<le> 2 ^ m"
proof (induction n p rule: npot_from.induct)
  case (1 n p)
  show ?case
  proof (cases "p \<ge> n \<or> p = 0")
    case True
    with 1 show ?thesis by (subst npot_from.simps) auto
  next
    case False
    obtain j where j: "p = 2 ^ j" using "1.prems"(1) by (auto simp: pow2_def)
    have "j < m" using False "1.prems"(3) j by (metis leI le_trans not_le power_increasing one_le_numeral)
    then have "2 * p \<le> 2 ^ m" unfolding j power_Suc [symmetric] by (intro power_increasing) auto
    with 1 False pow2_double show ?thesis by (subst npot_from.simps) auto
  qed
qed

definition budget_of :: "nat \<Rightarrow> nat \<Rightarrow> nat" where
  "budget_of shards maxmemory =
     (if maxmemory = 0 then 0 else max (maxmemory div next_power_of_two (max shards 1)) 1)"

lemma store_new_inv:
  assumes "shards \<le> 2 ^ 63"
  shows "st_inv (budget_of shards maxmemory) (store_new router hs shards maxmemory)"
    and "store_ks (store_new router hs shards maxmemory) = Map.empty"
proof -
  let ?st = "store_new router hs shards maxmemory" and ?n = "next_power_of_two (max shards 1)"
  have "pow2 ?n" using next_power_of_two_ge by blast
  moreover have "?n \<le> 2 ^ 63" unfolding next_power_of_two_def
    by (rule npot_from_le) (use assms in \<open>auto simp: pow2_def intro: exI [of _ 0]\<close>)
  ultimately obtain j where j: "j \<le> 63" "?n = 2 ^ j" using pow2_le_exp by blast
  have st: "st_shards ?st = map (\<lambda>i. shard_new (hs i) (budget_of shards maxmemory)) [0..<2 ^ j]"
      "st_mask ?st = mask j"
    using j(2) by (simp_all add: store_new_def budget_of_def Let_def mask_eq_exp_minus_1)
  then show inv: "st_inv (budget_of shards maxmemory) ?st"
    using j(1) by (auto simp: st_inv_def routed_def)
  show "store_ks ?st = Map.empty"
    using st_invD(1) [OF inv] by (simp add: store_ks_def fun_eq_iff st)
qed

section \<open>Runs\<close>

lemma store_run_inv:
  "st_inv b st \<Longrightarrow> returns (store_run st es) (\<lambda>(st', as). st_inv b st')"
proof (induction st es rule: store_run.induct)
  case (2 st now op es)
  obtain st' a where st': "store_step now op st = Some (st', a)" "st_inv b st'"
    using store_step_returns [OF "2.prems", of now op] by (auto elim!: returnsE)
  from "2.IH" [OF st'(1) refl st'(2)] st'(1) show ?case by (auto elim!: returnsE)
next
  case (3 st now es)
  obtain st' n where st': "purge_expired now st = Some (st', n)" "st_inv b st'"
    by (rule purge_expiredE [OF "3.prems"]) 
  from "3.IH" [OF st'(1) refl st'(2)] st'(1) show ?case by simp
next
  case (4 st now hs es)
  from "4.IH" [OF flush_all_inv(1) [OF "4.prems"]] show ?case by simp
qed simp

lemma store_run_unbounded:
  "st_inv 0 st \<Longrightarrow> returns (store_run st es) (\<lambda>(st', as). st_inv 0 st' \<and> ks_run (store_ks st) es = (store_ks st', as))"
proof (induction st es rule: store_run.induct)
  case (2 st now op es)
  let ?r = "ks_step now op (store_ks st)"
  obtain st' where st': "store_step now op st = Some (st', snd ?r)" "st_inv 0 st'" "store_ks st' = fst ?r"
    using store_step_returns [OF "2.prems", of now op] store_evicted_unbounded by (auto elim!: returnsE)
  from "2.IH" [OF st'(1) refl st'(2)] st'(1,3) show ?case by (auto simp: split_def Let_def elim!: returnsE)
next
  case (3 st now es)
  obtain st' n where st': "purge_expired now st = Some (st', n)" "st_inv 0 st'"
      "store_ks st' = (\<lambda>k. vis now (store_ks st k))"
    by (rule purge_expiredE [OF "3.prems"])
  from "3.IH" [OF st'(1) refl st'(2)] st'(1,3) show ?case by simp
next
  case (4 st now hs es)
  from "4.IH" [OF flush_all_inv(1) [OF "4.prems"]] flush_all_inv(2) [OF "4.prems"] show ?case by simp
qed simp

section \<open>Counting and listing keys\<close>

lemma shard_dom:
  assumes "st_inv b st" "i < length (st_shards st)"
  shows "dom (sh_ks (st_shards st ! i)) = {k \<in> dom (store_ks st). shard_idx st k = i}"
  unfolding shard_part [OF assms] by (auto simp: part_def restrict_map_def split: if_splits)

lemma finite_store_ks: "st_inv b st \<Longrightarrow> finite (dom (store_ks st))"
proof -
  assume inv: "st_inv b st"
  note D = st_invD [OF inv]
  have "finite (dom (sh_ks (st_shards st ! i)))" if "i < length (st_shards st)" for i
    using D(2) [OF that] by (simp add: sh_inv_def sh_wf_def sh_core_def fm.finite_dom)
  moreover have "dom (store_ks st) = (\<Union>i < length (st_shards st). dom (sh_ks (st_shards st ! i)))"
    using D(1) shard_dom [OF inv] by auto
  ultimately show ?thesis by simp
qed

text \<open>Counting a set of keys shard by shard.\<close>

lemma card_by_shard:
  assumes "st_inv b st" "finite D"
  shows "(\<Sum>i < length (st_shards st). card {k \<in> D. shard_idx st k = i}) = card D"
proof -
  have "(\<Sum>i < length (st_shards st). card {k \<in> D. shard_idx st k = i}) =
      card (\<Union>i < length (st_shards st). {k \<in> D. shard_idx st k = i})"
    using assms(2) by (intro card_UN_disjoint [symmetric]) auto
  also have "(\<Union>i < length (st_shards st). {k \<in> D. shard_idx st k = i}) = D"
    using st_invD(1) [OF assms(1)] by auto
  finally show ?thesis .
qed

lemma dbsize_card:
  assumes inv: "st_inv b st" shows "dbsize st = card (dom (store_ks st))"
proof -
  have "fm_len (sh_map (st_shards st ! i)) = card {k \<in> dom (store_ks st). shard_idx st k = i}"
    if "i < length (st_shards st)" for i
    using st_invD(2) [OF inv that] shard_dom [OF inv that] by (simp add: sh_inv_def sh_wf_def sh_core_def fm.sz_card)
  then show ?thesis
    using card_by_shard [OF inv finite_store_ks [OF inv]]
    by (simp add: dbsize_def sum_list_sum_nth atLeast0LessThan)
qed

lemma expired_count:
  assumes inv: "st_inv b st"
  shows "(\<Sum>s \<leftarrow> st_shards st. card {k. \<exists>e. sh_ks s k = Some e \<and> expired now e}) + card (dom (\<lambda>k. vis now (store_ks st k)))
    = card (dom (store_ks st))"
proof -
  let ?E = "{k. \<exists>e. store_ks st k = Some e \<and> expired now e}"
  have fin: "finite ?E" by (rule finite_subset [OF _ finite_store_ks [OF inv]]) auto
  have "{k. \<exists>e. sh_ks (st_shards st ! i) k = Some e \<and> expired now e} = {k \<in> ?E. shard_idx st k = i}"
    if "i < length (st_shards st)" for i
    unfolding shard_part [OF inv that] by (auto simp: part_def restrict_map_def split: if_splits)
  then have "(\<Sum>s \<leftarrow> st_shards st. card {k. \<exists>e. sh_ks s k = Some e \<and> expired now e}) = card ?E"
    using card_by_shard [OF inv fin] by (simp add: sum_list_sum_nth atLeast0LessThan)
  moreover have "dom (store_ks st) = ?E \<union> dom (\<lambda>k. vis now (store_ks st k))"
    by (auto simp: vis_def split: option.splits if_splits)
  moreover have "card (?E \<union> dom (\<lambda>k. vis now (store_ks st k))) = card ?E + card (dom (\<lambda>k. vis now (store_ks st k)))"
    by (rule card_Un_disjoint [OF fin])
       (auto simp: vis_Some_iff intro: finite_subset [OF _ finite_store_ks [OF inv]])
  ultimately show ?thesis by simp
qed

lemma distinct_concat_nth:
  "(\<And>ys. ys \<in> set xs \<Longrightarrow> distinct ys) \<Longrightarrow>
   (\<And>i j. i < j \<Longrightarrow> j < length xs \<Longrightarrow> set (xs ! i) \<inter> set (xs ! j) = {}) \<Longrightarrow> distinct (concat xs)"
proof (induction xs)
  case (Cons y xs)
  have "set y \<inter> set (xs ! j) = {}" if "j < length xs" for j
    using Cons.prems(2) [of 0 "Suc j"] that by simp
  then have "set y \<inter> set (concat xs) = {}" by (fastforce simp: in_set_conv_nth)
  moreover have "distinct (concat xs)"
    using Cons.prems(1) Cons.prems(2) [of "Suc _" "Suc _"] by (intro Cons.IH) auto
  ultimately show ?case using Cons.prems(1) by simp
qed simp

lemma shard_keys:
  assumes "fm_inv (sh_map s)"
  shows "set (map fst (filter (\<lambda>(k, e). \<not> expired now e) (fm_iter (sh_map s)))) = {k. vis now (sh_ks s k) \<noteq> None}"
    and "distinct (map fst (filter (\<lambda>(k, e). \<not> expired now e) (fm_iter (sh_map s))))"
proof -
  have "k \<in> set (map fst (filter (\<lambda>(k, e). \<not> expired now e) (fm_iter (sh_map s)))) \<longleftrightarrow>
      (\<exists>e. sh_ks s k = Some e \<and> \<not> expired now e)" for k
    using fm.in_iter_iff [OF assms, of k] by (force simp: image_iff)
  then show "set (map fst (filter (\<lambda>(k, e). \<not> expired now e) (fm_iter (sh_map s)))) = {k. vis now (sh_ks s k) \<noteq> None}"
    by (intro set_eqI) (simp only: mem_Collect_eq not_None_eq vis_Some_iff)
  show "distinct (map fst (filter (\<lambda>(k, e). \<not> expired now e) (fm_iter (sh_map s))))"
    using fm.iter_law [OF assms] by (simp add: distinct_map_filter)
qed

lemma store_keys_set:
  assumes inv: "st_inv b st"
  shows "set (store_keys now st) = {k. vis now (store_ks st k) \<noteq> None}" and "distinct (store_keys now st)"
proof -
  note D = st_invD [OF inv]
  let ?K = "\<lambda>s. map fst (filter (\<lambda>(k, e). \<not> expired now e) (fm_iter (sh_map s)))"
  have fm: "fm_inv (sh_map s)" if "s \<in> set (st_shards st)" for s
    using that D(2) by (auto simp: in_set_conv_nth sh_inv_def sh_wf_def sh_core_def)
  have K: "set (?K (st_shards st ! i)) = {k. vis now (store_ks st k) \<noteq> None \<and> shard_idx st k = i}"
    if "i < length (st_shards st)" for i
    unfolding shard_keys(1) [OF fm [OF nth_mem [OF that]]] shard_part [OF inv that]
    by (auto simp: part_def restrict_map_def)
  show "set (store_keys now st) = {k. vis now (store_ks st k) \<noteq> None}"
  proof (rule set_eqI)
    fix k
    have "k \<in> set (store_keys now st) \<longleftrightarrow> (\<exists>i < length (st_shards st). k \<in> set (?K (st_shards st ! i)))"
      unfolding store_keys_def set_concat by (simp del: set_filter) (metis in_set_conv_nth)
    with K D(1) show "k \<in> set (store_keys now st) \<longleftrightarrow> k \<in> {k. vis now (store_ks st k) \<noteq> None}"
      by (auto simp del: set_map)
  qed
  show "distinct (store_keys now st)"
    unfolding store_keys_def
  proof (rule distinct_concat_nth)
    show "distinct ys" if "ys \<in> set (map ?K (st_shards st))" for ys
      using that shard_keys(2) [OF fm] by (simp only: set_map image_iff) blast
    show "set (map ?K (st_shards st) ! i) \<inter> set (map ?K (st_shards st) ! j) = {}"
      if "i < j" "j < length (map ?K (st_shards st))" for i j
      using K [of i] K [of j] that by (simp del: set_map) auto
  qed
qed

section \<open>The memory bound\<close>

text \<open>The budget of a shard is at least one byte even when \<^verbatim>\<open>maxmemory\<close> is smaller than the number of
  shards, but an entry costs at least \<^const>\<open>ENTRY_OVERHEAD\<close> bytes, so such a shard stays empty.\<close>

lemma ks_bytes_small:
  assumes "finite (dom f)" "ks_bytes f < ENTRY_OVERHEAD" shows "ks_bytes f = 0"
proof (cases "f = Map.empty")
  case False
  then obtain k e where "f k = Some e" by (meson not_Some_eq ext)
  from msum_ge [OF assms(1) this, of entry_cost] assms(2) show ?thesis
    by (simp add: entry_cost_def key_overhead_def)
qed simp

definition store_bytes :: "store \<Rightarrow> nat" where
  "store_bytes st = (\<Sum>s \<leftarrow> st_shards st. sh_bytes s)"

lemma store_bytes_le:
  assumes inv: "st_inv (budget_of shards maxmemory) st" and m: "maxmemory \<noteq> 0"
    and n: "length (st_shards st) = next_power_of_two (max shards 1)"
  shows "store_bytes st \<le> maxmemory"
proof -
  note D = st_invD [OF inv]
  let ?n = "length (st_shards st)"
  have s: "sh_bytes (st_shards st ! i) \<le> maxmemory div ?n" if i: "i < ?n" for i
  proof -
    have le: "sh_bytes (st_shards st ! i) \<le> max (maxmemory div ?n) 1"
      and eq: "sh_bytes (st_shards st ! i) = ks_bytes (sh_ks (st_shards st ! i))"
      and fin: "finite (dom (sh_ks (st_shards st ! i)))"
      using D(2,3) [OF i] m n by (auto simp: sh_inv_def sh_wf_def sh_core_def budget_of_def fm.finite_dom)
    show ?thesis
    proof (cases "maxmemory div ?n")
      case 0
      with le eq ks_bytes_small [OF fin] show ?thesis by (simp add: ENTRY_OVERHEAD_def)
    qed (use le in simp)
  qed
  have "store_bytes st = (\<Sum>i < ?n. sh_bytes (st_shards st ! i))"
    by (simp add: store_bytes_def sum_list_sum_nth atLeast0LessThan)
  also have "\<dots> \<le> (\<Sum>i < ?n. maxmemory div ?n)" using s by (intro sum_mono) auto
  also have "\<dots> \<le> maxmemory" by simp
  finally show ?thesis .
qed

lemma run_length: "store_run st es = Some (st', as) \<Longrightarrow> st_inv b st \<Longrightarrow> length (st_shards st') = length (st_shards st)"
proof (induction st es arbitrary: as rule: store_run.induct)
  case (2 st now op es)
  obtain st1 a where st1: "store_step now op st = Some (st1, a)" "st_inv b st1"
    using store_step_returns [OF "2.prems"(2), of now op] by (auto elim!: returnsE)
  then have "length (st_shards st1) = length (st_shards st)"
    by (auto simp: store_step_def on_shard_def bind_eq_Some_conv)
  with "2.IH" [OF st1(1) refl _ st1(2)] "2.prems"(1) st1(1) show ?case
    by (auto simp: bind_eq_Some_conv)
next
  case (3 st now es)
  obtain st1 n where st1: "purge_expired now st = Some (st1, n)" "st_inv b st1"
    by (rule purge_expiredE [OF "3.prems"(2)])
  have "\<forall>s \<in> set (st_shards st). sh_inv s" using st_invD(2) [OF "3.prems"(2)] by (auto simp: in_set_conv_nth)
  from purge_shards_returns [OF this, of now] st1(1) have "length (st_shards st1) = length (st_shards st)"
    by (auto simp: purge_expired_def bind_eq_Some_conv elim!: returnsE)
  with "3.IH" [OF st1(1) refl _ st1(2)] "3.prems"(1) st1(1) show ?case by simp
next
  case (4 st now hs es)
  have "length (st_shards (flush_all hs st)) = length (st_shards st)" by (simp add: flush_all_def)
  with "4.IH" [OF _ flush_all_inv(1) [OF "4.prems"(2)]] "4.prems"(1) show ?case by simp
qed simp

section \<open>Properties\<close>

text \<open>Hash functions under which all keys collide, for the examples.\<close>

definition zero_hashers :: "nat \<Rightarrow> hashers" where
  "zero_hashers i = \<lparr>h_map = (\<lambda>_. 0), h_meta = (\<lambda>_. 0), h_ghost = (\<lambda>_. 0)\<rparr>"

text \<open>C1: The sharded store is one keyspace. Without a memory limit, on every sequence of operations,
  reaper runs and flushes at any times, with any number of shards and any hash functions, every
  operation returns, and the answers and the final contents are those of the reference keyspace,
  in which each operation acts on the cell of its key alone.\<close>

theorem store_refines_keyspace:
  assumes "shards \<le> 2 ^ 63"
  shows "\<exists>st. store_run (store_new router hs shards 0) es = Some (st, snd (ks_run Map.empty es))
    \<and> store_ks st = fst (ks_run Map.empty es)"
proof -
  have "st_inv 0 (store_new router hs shards 0)" using store_new_inv(1) [OF assms, of 0] by (simp add: budget_of_def)
  from store_run_unbounded [OF this, of es] store_new_inv(2) [OF assms] show ?thesis
    by (auto simp: returns_iff)
qed

theorem store_refines_keyspace_witness:
  "\<exists>st. store_run (store_new (\<lambda>_. 7) zero_hashers 4 0)
     [(1, E_Op (S_Append ''k'' ''v'')), (2, E_Op (S_ExpireAt ''k'' (Some 10))), (9, E_Op (S_Get ''k'')),
      (10, E_Op (S_Get ''k'')), (11, E_Op (S_Push ''k'' [''x''] True)), (11, E_Op (S_Strlen ''k''))]
     = Some (st, [A_Count (Inr 1), A_Bool True, A_OptStr (Inr (Some ''v'')), A_OptStr (Inr None), A_Count (Inr 1),
                  A_Count (Inl WRONGTYPE)])"
proof -
  let ?es = "[(1, E_Op (S_Append ''k'' ''v'')), (2, E_Op (S_ExpireAt ''k'' (Some 10))), (9, E_Op (S_Get ''k'')),
      (10, E_Op (S_Get ''k'')), (11, E_Op (S_Push ''k'' [''x''] True)), (11, E_Op (S_Strlen ''k''))]"
  have "snd (ks_run Map.empty ?es) = [A_Count (Inr 1), A_Bool True, A_OptStr (Inr (Some ''v'')), A_OptStr (Inr None),
      A_Count (Inr 1), A_Count (Inl WRONGTYPE)]"
    by (simp add: ks_step_def ans_def append_cell_def get_answer_def expire_cell_def read_cell_def strlen_answer_def
        coll_cell_def coll_entry_def list_variant_def list_push_def vis_def expired_def)
  then show ?thesis using store_refines_keyspace [of 4 "\<lambda>_. 7" zero_hashers ?es] by auto
qed

text \<open>C3: The memory limit holds. On a store with a limit every operation of every sequence returns
  (in particular the eviction loop ends), the total byte count is at most \<^verbatim>\<open>maxmemory\<close> afterwards,
  and the count of each shard is exactly the cost of its entries.\<close>

theorem store_memory_bound:
  assumes "shards \<le> 2 ^ 63" "maxmemory \<noteq> 0"
  shows "\<exists>st as. store_run (store_new router hs shards maxmemory) es = Some (st, as) \<and> store_bytes st \<le> maxmemory
    \<and> (\<forall>s \<in> set (st_shards st). sh_bytes s = ks_bytes (sh_ks s))"
proof -
  let ?st = "store_new router hs shards maxmemory"
  note inv = store_new_inv(1) [OF assms(1), of maxmemory router hs]
  obtain st as where run: "store_run ?st es = Some (st, as)" "st_inv (budget_of shards maxmemory) st"
    using store_run_inv [OF inv, of es] by (auto simp: returns_iff)
  have "length (st_shards st) = next_power_of_two (max shards 1)"
    using run_length [OF run(1) inv] by (simp add: store_new_def Let_def)
  from store_bytes_le [OF run(2) assms(2) this] run show ?thesis
    using st_invD(2) [OF run(2)] by (auto simp: in_set_conv_nth sh_inv_def sh_wf_def sh_core_def)
qed

theorem store_memory_bound_witness:
  "\<exists>st as. store_run (store_new (\<lambda>_. 7) zero_hashers 4 400) [(0, E_Op (S_Append ''a'' ''xyz'')), (0, E_Op (S_Append ''b'' ''xyz''))]
     = Some (st, as) \<and> store_bytes st \<le> 400"
  using store_memory_bound [of 4 400 "\<lambda>_. 7" zero_hashers "[(0, E_Op (S_Append ''a'' ''xyz'')), (0, E_Op (S_Append ''b'' ''xyz''))]"]
  by auto

text \<open>C5: One operation on any well-formed store, limited or not, answers what the reference answers on
  the current contents; the new contents are the reference's, less evicted entries, and nothing
  is evicted while the shard of the key is within its budget.\<close>

theorem store_step_sound:
  assumes "st_inv budget st"
  shows "\<exists>st'. store_step now op st = Some (st', snd (ks_step now op (store_ks st))) \<and> st_inv budget st'
    \<and> store_ks st' \<subseteq>\<^sub>m fst (ks_step now op (store_ks st))
    \<and> (budget = 0 \<or> ks_bytes (part st (shard_idx st (op_key op)) (fst (ks_step now op (store_ks st)))) \<le> budget
        \<longrightarrow> store_ks st' = fst (ks_step now op (store_ks st)))"
proof -
  let ?f = "fst (ks_step now op (store_ks st))"
  obtain st' where st': "store_step now op st = Some (st', snd (ks_step now op (store_ks st)))" "st_inv budget st'"
      "store_evicted budget st (op_key op) ?f (store_ks st')"
    using store_step_returns [OF assms, of now op] by (auto simp: returns_iff)
  have "store_ks st' = ?f" if "budget = 0 \<or> ks_bytes (part st (shard_idx st (op_key op)) ?f) \<le> budget"
  proof
    fix k
    have eq: "part st (shard_idx st (op_key op)) (store_ks st') = part st (shard_idx st (op_key op)) ?f"
      using that st'(3) by (simp add: store_evicted_def evicted_def)
    show "store_ks st' k = ?f k"
      using fun_cong [OF eq, of k] st'(3) by (cases "shard_idx st k = shard_idx st (op_key op)") (auto simp: part_def store_evicted_def)
  qed
  with st' store_evicted_le [OF st'(3)] show ?thesis by blast
qed

theorem store_step_sound_witness:
  "\<exists>st'. store_step 5 (S_Get ''k'') (store_new (\<lambda>_. 7) zero_hashers 4 1000) = Some (st', A_OptStr (Inr None))"
  using store_step_sound [OF store_new_inv(1) [of 4 1000 "\<lambda>_. 7" zero_hashers], of 5 "S_Get ''k''"]
  by (auto simp: ks_step_def ans_def read_cell_def get_answer_def store_new_inv(2))



text \<open>\<^verbatim>\<open>KEYS\<close> lists every unexpired key of the store exactly once, whatever shard it is in, and never
  more keys than \<^verbatim>\<open>DBSIZE\<close> counts.\<close>

theorem keys_lists_live:
  assumes "st_inv budget st"
  shows "distinct (store_keys now st) \<and> set (store_keys now st) = {k. vis now (store_ks st k) \<noteq> None}
    \<and> length (store_keys now st) \<le> dbsize st"
proof -
  have "set (store_keys now st) \<subseteq> dom (store_ks st)"
    unfolding store_keys_set(1) [OF assms] by (auto simp: vis_Some_iff)
  then have "card (set (store_keys now st)) \<le> dbsize st"
    unfolding dbsize_card [OF assms] by (intro card_mono finite_store_ks [OF assms])
  then show ?thesis using store_keys_set [OF assms, of now] distinct_card [OF store_keys_set(2) [OF assms, of now]] by simp
qed

theorem keys_lists_live_witness: "store_keys 9 (store_new (\<lambda>_. 7) zero_hashers 4 0) = []"
  using keys_lists_live [OF store_new_inv(1) [of 4 0 "\<lambda>_. 7" zero_hashers], of 9]
  by (simp add: dbsize_card [OF store_new_inv(1)] store_new_inv(2))

lemma incr_cell_num:
  assumes "c = None \<and> n = 0 \<or> c = Some \<lparr>en_value = VStr (show_int n), en_expire_at = None\<rparr>" "i64_range n" "i64_range (n + d)"
  shows "incr_cell now d c = (Some \<lparr>en_value = VStr (show_int (n + d)), en_expire_at = None\<rparr>, Inr (n + d))"
  using assms
  by (auto simp: incr_cell_def number_of_def vis_def expired_def parse_value_def utf8_graphic show_int_graphic
      trim_graphic parse_i64_show_int)

lemma ks_run_append:
  "ks_run f (es @ es') = (fst (ks_run (fst (ks_run f es)) es'), snd (ks_run f es) @ snd (ks_run (fst (ks_run f es)) es'))"
proof (induction es arbitrary: f)
  case (Cons x es)
  obtain now e where "x = (now, e)" by force
  with Cons.IH show ?case by (cases e) (simp_all add: split_def Let_def)
qed simp

lemma incr_run:
  assumes "\<forall>d \<in> set ds. 0 \<le> d" "0 \<le> n" "n + sum_list ds < 2 ^ 63" "ds \<noteq> []"
    and "f k = None \<and> n = 0 \<or> f k = Some \<lparr>en_value = VStr (show_int n), en_expire_at = None\<rparr>"
  shows "fst (ks_run f (map (\<lambda>d. (now, E_Op (S_IncrBy k d))) ds)) =
    f(k \<mapsto> \<lparr>en_value = VStr (show_int (n + sum_list ds)), en_expire_at = None\<rparr>)"
  using assms
proof (induction ds arbitrary: f n)
  case (Cons d ds)
  have sum: "0 \<le> sum_list ds" using Cons.prems(1) by (intro sum_list_nonneg) auto
  have rng: "i64_range n" "i64_range (n + d)" using Cons.prems(1-3) sum by (auto simp: i64_range_def)
  let ?f = "f(k \<mapsto> \<lparr>en_value = VStr (show_int (n + d)), en_expire_at = None\<rparr>)"
  have step: "ks_step now (S_IncrBy k d) f = (?f, A_Int (Inr (n + d)))"
    using incr_cell_num [OF Cons.prems(5) rng] by (simp add: ks_step_def ans_def)
  have "fst (ks_run ?f (map (\<lambda>d. (now, E_Op (S_IncrBy k d))) ds)) =
      ?f(k \<mapsto> \<lparr>en_value = VStr (show_int (n + d + sum_list ds)), en_expire_at = None\<rparr>)" if "ds \<noteq> []"
    by (rule Cons.IH) (use Cons.prems that in auto)
  then show ?case using step by (cases "ds = []") (simp_all add: split_def Let_def add.assoc)
qed simp

text \<open>C13: Concurrent increments are exact: whatever the order in which a collection of increments of one
  key is serialised, the value read afterwards is their sum.\<close>

theorem concurrent_incr_exact:
  assumes "\<forall>d \<in> set ds. 0 \<le> d" "sum_list ds < 2 ^ 63" "ds \<noteq> []" "mset ds' = mset ds" "shards \<le> 2 ^ 63"
  shows "\<exists>st as. store_run (store_new router hs shards 0)
      (map (\<lambda>d. (now, E_Op (S_IncrBy k d))) ds' @ [(now', E_Op (S_Get k))])
    = Some (st, as @ [A_OptStr (Inr (Some (show_int (sum_list ds))))])"
proof -
  let ?es = "map (\<lambda>d. (now, E_Op (S_IncrBy k d))) ds' @ [(now', E_Op (S_Get k))]"
  have ds': "\<forall>d \<in> set ds'. 0 \<le> d" "sum_list ds' = sum_list ds" "ds' \<noteq> []"
    using assms(1,3,4) by (metis set_mset_mset, metis sum_mset_sum_list, metis mset_zero_iff)
  have "st_inv 0 (store_new router hs shards 0)" using store_new_inv(1) [OF assms(5), of 0] by (simp add: budget_of_def)
  then have run: "\<exists>st. store_run (store_new router hs shards 0) ?es = Some (st, snd (ks_run Map.empty ?es))"
    using store_run_unbounded [of "store_new router hs shards 0" ?es] store_new_inv(2) [OF assms(5)]
    by (auto simp: returns_iff)
  have "fst (ks_run Map.empty (map (\<lambda>d. (now, E_Op (S_IncrBy k d))) ds')) =
      [k \<mapsto> \<lparr>en_value = VStr (show_int (sum_list ds)), en_expire_at = None\<rparr>]"
    using incr_run [OF ds'(1), of 0 Map.empty k now] ds' assms(2) by simp
  then have "\<exists>as. snd (ks_run Map.empty ?es) = as @ [A_OptStr (Inr (Some (show_int (sum_list ds))))]"
    by (simp add: ks_run_append ks_step_def ans_def read_cell_def get_answer_def vis_def expired_def)
  with run show ?thesis by metis
qed

theorem concurrent_incr_exact_witness:
  "\<exists>st as. store_run (store_new (\<lambda>_. 7) zero_hashers 4 0)
      (map (\<lambda>d. (5, E_Op (S_IncrBy ''c'' d))) [2, 1, 1] @ [(6, E_Op (S_Get ''c''))])
    = Some (st, as @ [A_OptStr (Inr (Some (show_int 4)))])"
  using concurrent_incr_exact [of "[1, 1, 2]" "[2, 1, 1]" 4 "\<lambda>_. 7" zero_hashers 5 "''c''" 6] by simp

end
