(* ===== verification/Program.thy ===== *)
theory Program
  imports Store
begin

text \<open>
  Commands as programs over the store. A command handler of \<^verbatim>\<open>crates/server/src/commands.rs\<close> runs a few
  store operations, each atomic under the lock of a shard, and may read the clock; between two of
  them other connections may run. A handler is therefore a resumption: it is done with a result, or
  it makes a request and continues with the response. One \<^verbatim>\<open>now_ms()\<close> reading belongs to every
  request, the operations of the store reading the clock themselves.

  \<open>exec\<close> runs a program on the store without interference; \<open>ks_exec\<close> is its specification on the
  reference keyspace, and every execution is shown to be one of those it allows. \<open>asks\<close> and
  \<open>yields\<close> bound what requests a program can make and what results it can give.
\<close>

section \<open>Requests and programs\<close>

datatype request = Q_Now | Q_Op store_op | Q_Keys | Q_Dbsize | Q_Shards | Q_Flush | Q_Save

datatype response =
    P_Time (the_time: u64) | P_Answer (the_answer: answer) | P_Keys (the_keys: "bytes list") | P_Count (the_count: nat)
  | P_Done | P_Saved (the_error: "string option")

datatype 'r prog = Done 'r | Ask request "response \<Rightarrow> 'r prog"

text \<open>What the program's environment decides: the readings of the clock, the seeds of the hash
  functions of a flushed store, and whether a snapshot file could be written.\<close>

record environ =
  ev_clock :: "nat \<Rightarrow> u64"
  ev_seeds :: "nat \<Rightarrow> nat \<Rightarrow> hashers"
  ev_save :: "nat \<Rightarrow> string option"

fun serve :: "environ \<Rightarrow> nat \<Rightarrow> request \<Rightarrow> store \<Rightarrow> (store \<times> response) option" where
  "serve ev n Q_Now st = Some (st, P_Time (ev_clock ev n))"
| "serve ev n (Q_Op op) st = do { (st, a) \<leftarrow> store_step (ev_clock ev n) op st; Some (st, P_Answer a) }"
| "serve ev n Q_Keys st = Some (st, P_Keys (store_keys (ev_clock ev n) st))"
| "serve ev n Q_Dbsize st = Some (st, P_Count (dbsize st))"
| "serve ev n Q_Shards st = Some (st, P_Count (shard_count st))"
| "serve ev n Q_Flush st = Some (flush_all (ev_seeds ev n) st, P_Done)"
| "serve ev n Q_Save st = Some (st, P_Saved (ev_save ev n))"

primrec exec :: "environ \<Rightarrow> nat \<Rightarrow> 'r prog \<Rightarrow> store \<Rightarrow> (store \<times> nat \<times> 'r) option" where
  "exec ev n (Done r) st = Some (st, n, r)"
| "exec ev n (Ask q k) st = do { (st, p) \<leftarrow> serve ev n q st; exec ev (Suc n) (k p) st }"

text \<open>The requests by the name of the function of the source they stand for.\<close>

abbreviation now_ms :: "(u64 \<Rightarrow> 'r prog) \<Rightarrow> 'r prog" where "now_ms k \<equiv> Ask Q_Now (\<lambda>p. k (the_time p))"
abbreviation q_keys :: "(bytes list \<Rightarrow> 'r prog) \<Rightarrow> 'r prog" where "q_keys k \<equiv> Ask Q_Keys (\<lambda>p. k (the_keys p))"
abbreviation q_dbsize :: "(nat \<Rightarrow> 'r prog) \<Rightarrow> 'r prog" where "q_dbsize k \<equiv> Ask Q_Dbsize (\<lambda>p. k (the_count p))"
abbreviation q_shard_count :: "(nat \<Rightarrow> 'r prog) \<Rightarrow> 'r prog" where "q_shard_count k \<equiv> Ask Q_Shards (\<lambda>p. k (the_count p))"
abbreviation q_flush_all :: "'r prog \<Rightarrow> 'r prog" where "q_flush_all k \<equiv> Ask Q_Flush (\<lambda>_. k)"
abbreviation q_save :: "(string option \<Rightarrow> 'r prog) \<Rightarrow> 'r prog" where "q_save k \<equiv> Ask Q_Save (\<lambda>p. k (the_error p))"
abbreviation q_bool :: "store_op \<Rightarrow> (bool \<Rightarrow> 'r prog) \<Rightarrow> 'r prog" where
  "q_bool op k \<equiv> Ask (Q_Op op) (\<lambda>p. k (un_Bool (the_answer p)))"
abbreviation q_name :: "store_op \<Rightarrow> (string \<Rightarrow> 'r prog) \<Rightarrow> 'r prog" where
  "q_name op k \<equiv> Ask (Q_Op op) (\<lambda>p. k (un_Name (the_answer p)))"
abbreviation q_ttl :: "store_op \<Rightarrow> (ttl \<Rightarrow> 'r prog) \<Rightarrow> 'r prog" where
  "q_ttl op k \<equiv> Ask (Q_Op op) (\<lambda>p. k (un_Ttl (the_answer p)))"
abbreviation q_read :: "store_op \<Rightarrow> (str_read \<Rightarrow> 'r prog) \<Rightarrow> 'r prog" where
  "q_read op k \<equiv> Ask (Q_Op op) (\<lambda>p. k (un_Read (the_answer p)))"
abbreviation q_optstr :: "store_op \<Rightarrow> (bytes option result \<Rightarrow> 'r prog) \<Rightarrow> 'r prog" where
  "q_optstr op k \<equiv> Ask (Q_Op op) (\<lambda>p. k (un_OptStr (the_answer p)))"
abbreviation q_count :: "store_op \<Rightarrow> (nat result \<Rightarrow> 'r prog) \<Rightarrow> 'r prog" where
  "q_count op k \<equiv> Ask (Q_Op op) (\<lambda>p. k (un_Count (the_answer p)))"
abbreviation q_int :: "store_op \<Rightarrow> (int result \<Rightarrow> 'r prog) \<Rightarrow> 'r prog" where
  "q_int op k \<equiv> Ask (Q_Op op) (\<lambda>p. k (un_Int (the_answer p)))"
abbreviation q_strs :: "store_op \<Rightarrow> (bytes list result \<Rightarrow> 'r prog) \<Rightarrow> 'r prog" where
  "q_strs op k \<equiv> Ask (Q_Op op) (\<lambda>p. k (un_Strs (the_answer p)))"
abbreviation q_pairs :: "store_op \<Rightarrow> ((bytes \<times> bytes) list result \<Rightarrow> 'r prog) \<Rightarrow> 'r prog" where
  "q_pairs op k \<equiv> Ask (Q_Op op) (\<lambda>p. k (un_Pairs (the_answer p)))"
abbreviation q_member :: "store_op \<Rightarrow> (bool result \<Rightarrow> 'r prog) \<Rightarrow> 'r prog" where
  "q_member op k \<equiv> Ask (Q_Op op) (\<lambda>p. k (un_Member (the_answer p)))"
abbreviation q_score :: "store_op \<Rightarrow> (f64 option result \<Rightarrow> 'r prog) \<Rightarrow> 'r prog" where
  "q_score op k \<equiv> Ask (Q_Op op) (\<lambda>p. k (un_Score (the_answer p)))"
abbreviation q_scored :: "store_op \<Rightarrow> ((bytes \<times> f64) list result \<Rightarrow> 'r prog) \<Rightarrow> 'r prog" where
  "q_scored op k \<equiv> Ask (Q_Op op) (\<lambda>p. k (un_Scored (the_answer p)))"

text \<open>A loop of the source over a list, one round per element, collecting what the rounds give.\<close>

fun for_each :: "('x \<Rightarrow> ('y \<Rightarrow> 'r prog) \<Rightarrow> 'r prog) \<Rightarrow> 'x list \<Rightarrow> ('y list \<Rightarrow> 'r prog) \<Rightarrow> 'r prog" where
  "for_each body [] k = k []"
| "for_each body (x # xs) k = body x (\<lambda>y. for_each body xs (\<lambda>ys. k (y # ys)))"

section \<open>Specification\<close>

text \<open>What a request may do to the keyspace and what it may answer. With a memory limit the store
  may evict entries, but only after a request that did not merely drop entries.\<close>

fun allowed :: "bool \<Rightarrow> environ \<Rightarrow> nat \<Rightarrow> request \<Rightarrow> keyspace \<Rightarrow> keyspace \<Rightarrow> response \<Rightarrow> bool" where
  "allowed limited ev n Q_Now f g p \<longleftrightarrow> g = f \<and> p = P_Time (ev_clock ev n)"
| "allowed limited ev n (Q_Op op) f g p \<longleftrightarrow>
     (let (h, a) = ks_step (ev_clock ev n) op f in
      p = P_Answer a \<and> g \<subseteq>\<^sub>m h \<and> (\<not> limited \<or> h \<subseteq>\<^sub>m f \<longrightarrow> g = h))"
| "allowed limited ev n Q_Keys f g p \<longleftrightarrow>
     g = f \<and> (\<exists>ks. p = P_Keys ks \<and> distinct ks \<and> set ks = {k. vis (ev_clock ev n) (f k) \<noteq> None})"
| "allowed limited ev n Q_Dbsize f g p \<longleftrightarrow> g = f \<and> p = P_Count (card (dom f))"
| "allowed limited ev n Q_Shards f g p \<longleftrightarrow> g = f \<and> (\<exists>c. p = P_Count c)"
| "allowed limited ev n Q_Flush f g p \<longleftrightarrow> g = Map.empty \<and> p = P_Done"
| "allowed limited ev n Q_Save f g p \<longleftrightarrow> g = f \<and> p = P_Saved (ev_save ev n)"

inductive ks_exec :: "bool \<Rightarrow> environ \<Rightarrow> nat \<Rightarrow> keyspace \<Rightarrow> 'r prog \<Rightarrow> keyspace \<Rightarrow> nat \<Rightarrow> 'r \<Rightarrow> bool" where
  ks_done: "ks_exec limited ev n f (Done r) f n r"
| ks_ask: "allowed limited ev n q f f1 p \<Longrightarrow> ks_exec limited ev (Suc n) f1 (k p) g m r \<Longrightarrow>
     ks_exec limited ev n f (Ask q k) g m r"

inductive_simps ks_exec_Done [simp]: "ks_exec limited ev n f (Done r) g m r'"
inductive_simps ks_exec_Ask: "ks_exec limited ev n f (Ask q k) g m r"

lemma part_mono: "f \<subseteq>\<^sub>m g \<Longrightarrow> part st i f \<subseteq>\<^sub>m part st i g"
  by (auto simp: map_le_def part_def restrict_map_def dom_def split: if_splits)

text \<open>A request that only drops entries stays within the budget, so nothing is evicted.\<close>

lemma shrinking_step:
  assumes inv: "st_inv b st" and le: "h \<subseteq>\<^sub>m store_ks st" and ev: "store_evicted b st key h (store_ks st')"
  shows "store_ks st' = h"
proof
  fix k
  let ?i = "shard_idx st key"
  note D = st_invD [OF inv]
  have "part st ?i h \<subseteq>\<^sub>m sh_ks (st_shards st ! ?i)"
    using part_mono [OF le, of st ?i] shard_part [OF inv D(1)] by simp
  from inv_shrink(2) [OF D(2) [OF D(1)] this] D(3) [OF D(1)] have "b = 0 \<or> ks_bytes (part st ?i h) \<le> b"
    by (auto simp: evicted_def)
  then have eq: "part st ?i (store_ks st') = part st ?i h" using ev by (auto simp: store_evicted_def evicted_def)
  show "store_ks st' k = h k"
    using fun_cong [OF eq, of k] ev by (cases "shard_idx st k = ?i") (auto simp: part_def store_evicted_def)
qed

lemma serve_allowed:
  assumes inv: "st_inv b st"
  shows "returns (serve ev n q st) (\<lambda>(st', p). st_inv b st' \<and> allowed (b \<noteq> 0) ev n q (store_ks st) (store_ks st') p)"
proof (cases q)
  case (Q_Op op)
  let ?r = "ks_step (ev_clock ev n) op (store_ks st)"
  obtain st' where st': "store_step (ev_clock ev n) op st = Some (st', snd ?r)" "st_inv b st'"
      "store_evicted b st (op_key op) (fst ?r) (store_ks st')"
    using store_step_returns [OF inv, of "ev_clock ev n" op] by (auto simp: returns_iff)
  have "store_ks st' = fst ?r" if "b = 0 \<or> fst ?r \<subseteq>\<^sub>m store_ks st"
    using that shrinking_step [OF inv _ st'(3)] store_evicted_unbounded st'(3) by blast
  with st' store_evicted_le [OF st'(3)] show ?thesis by (simp add: Q_Op split_def Let_def)
qed (use inv store_keys_set [OF inv] flush_all_inv [OF inv] dbsize_card [OF inv] in auto)

theorem exec_allowed:
  assumes "st_inv b st"
  shows "returns (exec ev n prog st)
    (\<lambda>(st', m, r). st_inv b st' \<and> ks_exec (b \<noteq> 0) ev n (store_ks st) prog (store_ks st') m r)"
  using assms
proof (induction prog arbitrary: n st)
  case (Ask q k)
  obtain st1 p where 1: "serve ev n q st = Some (st1, p)" "st_inv b st1"
      "allowed (b \<noteq> 0) ev n q (store_ks st) (store_ks st1) p"
    using serve_allowed [OF Ask.prems, of ev n q] by (auto simp: returns_iff)
  obtain st' m r where "exec ev (Suc n) (k p) st1 = Some (st', m, r)" "st_inv b st'"
      "ks_exec (b \<noteq> 0) ev (Suc n) (store_ks st1) (k p) (store_ks st') m r"
    using Ask.IH [OF _ 1(2), of "k p" "Suc n"] by (auto simp: returns_iff)
  with 1 show ?case by (auto intro: ks_ask)
qed simp

section \<open>Sequencing\<close>

text \<open>A program followed by another that uses its result: the way the loops of the server run one
  command after the other.\<close>

primrec prog_bind :: "'a prog \<Rightarrow> ('a \<Rightarrow> 'b prog) \<Rightarrow> 'b prog" where
  "prog_bind (Done r) k = k r"
| "prog_bind (Ask q c) k = Ask q (\<lambda>p. prog_bind (c p) k)"

lemma prog_bind_Done [simp]: "prog_bind prog Done = prog"
  by (induction prog) auto

lemma prog_bind_assoc: "prog_bind (prog_bind prog k) k' = prog_bind prog (\<lambda>r. prog_bind (k r) k')"
  by (induction prog) auto

lemma map_prog_bind: "map_prog h prog = prog_bind prog (Done \<circ> h)"
  by (induction prog) auto

lemma exec_bind:
  "exec ev n (prog_bind prog k) st = Option.bind (exec ev n prog st) (\<lambda>(st', m, r). exec ev m (k r) st')"
  by (induction prog arbitrary: n st) (auto split: bind_splits)

lemma ks_exec_bind:
  "ks_exec limited ev n f (prog_bind prog k) g m r \<longleftrightarrow>
     (\<exists>h i x. ks_exec limited ev n f prog h i x \<and> ks_exec limited ev i h (k x) g m r)"
  by (induction prog arbitrary: n f) (simp_all add: ks_exec_Ask, blast)

section \<open>Which requests and which results\<close>

primrec asks :: "(request \<Rightarrow> bool) \<Rightarrow> 'r prog \<Rightarrow> bool" where
  "asks P (Done r) \<longleftrightarrow> True"
| "asks P (Ask q k) \<longleftrightarrow> P q \<and> (\<forall>p. asks P (k p))"

primrec yields :: "('r \<Rightarrow> bool) \<Rightarrow> 'r prog \<Rightarrow> bool" where
  "yields P (Done r) \<longleftrightarrow> P r"
| "yields P (Ask q k) \<longleftrightarrow> (\<forall>p. yields P (k p))"

lemma yieldsD: "ks_exec limited ev n f prog g m r \<Longrightarrow> yields P prog \<Longrightarrow> P r"
  by (induction rule: ks_exec.induct) auto

lemma exec_yieldsD: "exec ev n prog st = Some (st', m, r) \<Longrightarrow> yields P prog \<Longrightarrow> P r"
  by (induction prog arbitrary: n st) (fastforce simp: bind_eq_Some_conv)+

lemma ks_exec_tick: "ks_exec limited ev n f prog g m r \<Longrightarrow> n \<le> m"
  by (induction rule: ks_exec.induct) auto

lemma asks_map [simp]: "asks P (map_prog h prog) \<longleftrightarrow> asks P prog"
  by (induction prog) auto

lemma yields_map [simp]: "yields P (map_prog h prog) \<longleftrightarrow> yields (P \<circ> h) prog"
  by (induction prog) auto

lemma asks_bind: "asks P prog \<Longrightarrow> (\<And>r. asks P (k r)) \<Longrightarrow> asks P (prog_bind prog k)"
  by (induction prog) auto

lemma asks_for_each:
  assumes "\<And>x next. (\<And>y. asks P (next y)) \<Longrightarrow> asks P (body x next)" "\<And>ys. asks P (k ys)"
  shows "asks P (for_each body xs k)"
  using assms(2)
proof (induction xs arbitrary: k)
  case (Cons x xs)
  then show ?case by (auto intro!: assms(1) Cons.IH)
qed simp

lemma yields_for_each:
  assumes "\<And>x next. (\<And>y. yields P (next y)) \<Longrightarrow> yields P (body x next)" "\<And>ys. yields P (k ys)"
  shows "yields P (for_each body xs k)"
  using assms(2)
proof (induction xs arbitrary: k)
  case (Cons x xs)
  then show ?case by (auto intro!: assms(1) Cons.IH)
qed simp

section \<open>Requests without effect\<close>

text \<open>The operations that never change a live entry, and for the others the answers by which they
  report that nothing was changed.\<close>

fun mutates :: "store_op \<Rightarrow> bool" where
  "mutates (S_Set k v opts) \<longleftrightarrow> True" | "mutates (S_Del k) \<longleftrightarrow> True" | "mutates (S_ExpireAt k at) \<longleftrightarrow> True"
| "mutates (S_IncrBy k d) \<longleftrightarrow> True" | "mutates (S_Append k v) \<longleftrightarrow> True" | "mutates (S_Push k vs l) \<longleftrightarrow> True"
| "mutates (S_Pop k n l) \<longleftrightarrow> True" | "mutates (S_Hset k kvs) \<longleftrightarrow> True" | "mutates (S_Hdel k fs) \<longleftrightarrow> True"
| "mutates (S_Sadd k ms) \<longleftrightarrow> True" | "mutates (S_Srem k ms) \<longleftrightarrow> True" | "mutates (S_Zadd k sms) \<longleftrightarrow> True"
| "mutates (S_Zrem k ms) \<longleftrightarrow> True" | "mutates _ \<longleftrightarrow> False"

definition failed :: "'a result \<Rightarrow> bool" where
  "failed r \<longleftrightarrow> (case r of Inl _ \<Rightarrow> True | Inr _ \<Rightarrow> False)"

definition zero_count :: "nat result \<Rightarrow> bool" where
  "zero_count r \<longleftrightarrow> (case r of Inl _ \<Rightarrow> True | Inr n \<Rightarrow> n = 0)"

lemma result_simps [simp]:
  "failed (Inl e)" "\<not> failed (Inr x)" "zero_count (Inl e)" "zero_count (Inr n) \<longleftrightarrow> n = 0"
  by (simp_all add: failed_def zero_count_def)

fun no_change :: "store_op \<Rightarrow> answer \<Rightarrow> bool" where
  "no_change (S_Set k v opts) a \<longleftrightarrow> \<not> un_Bool a"
| "no_change (S_Del k) a \<longleftrightarrow> \<not> un_Bool a"
| "no_change (S_ExpireAt k at) a \<longleftrightarrow> \<not> un_Bool a"
| "no_change (S_IncrBy k d) a \<longleftrightarrow> failed (un_Int a)"
| "no_change (S_Append k v) a \<longleftrightarrow> failed (un_Count a)"
| "no_change (S_Push k vs l) a \<longleftrightarrow> failed (un_Count a)"
| "no_change (S_Pop k n l) a \<longleftrightarrow> failed (un_Strs a) \<or> un_Strs a = Inr []"
| "no_change (S_Hset k kvs) a \<longleftrightarrow> failed (un_Count a)"
| "no_change (S_Hdel k fs) a \<longleftrightarrow> zero_count (un_Count a)"
| "no_change (S_Sadd k ms) a \<longleftrightarrow> zero_count (un_Count a)"
| "no_change (S_Srem k ms) a \<longleftrightarrow> zero_count (un_Count a)"
| "no_change (S_Zadd k sms) a \<longleftrightarrow> failed (un_Count a)"
| "no_change (S_Zrem k ms) a \<longleftrightarrow> zero_count (un_Count a)"
| "no_change _ a \<longleftrightarrow> True"

lemma reader_no_change: "\<not> mutates op \<Longrightarrow> no_change op a"
  by (cases op) simp_all

text \<open>A counting loop that counts nothing changes nothing.\<close>

lemma count_zero:
  assumes "\<And>c x. \<not> snd (opr c x) \<Longrightarrow> fst (opr c x) = c"
  shows "fst (count_ops opr xs c) = 0 \<Longrightarrow> snd (count_ops opr xs c) = c"
  by (induction xs arbitrary: c) (auto simp: split_def Let_def assms split: if_splits)

locale exact_variant = collection_variant +
  assumes empty_make: "vr_empty V (vr_make V)"
    and inj_proj: "vr_proj V v = Some c \<Longrightarrow> vr_inj V c = v"
begin

lemma coll_cell_no_change:
  assumes "nc (snd (coll_cell V now body x))" "\<And>e. x = Some e \<Longrightarrow> value_ok (en_value e)"
    and "\<And>c r c'. nc (Inr r) \<Longrightarrow> body c = (r, c') \<Longrightarrow> c' = c"
  shows "fst (coll_cell V now body x) = vis now x"
proof (cases "vis now x")
  case None
  then have e: "coll_entry V now x = \<lparr>en_value = vr_inj V (vr_make V), en_expire_at = None\<rparr>" by (simp add: coll_entry_def)
  obtain r c' where b: "body (vr_make V) = (r, c')" by (cases "body (vr_make V)")
  with assms(1) e have "nc (Inr r)" by (simp add: coll_cell_def proj_inj Let_def)
  with b assms(3) have "c' = vr_make V" by blast
  with b e None empty_make show ?thesis by (simp add: coll_cell_def proj_inj Let_def)
next
  case (Some e)
  then have x: "x = Some e" and e: "coll_entry V now x = e" by (simp_all add: coll_entry_def) (simp add: vis_Some_iff)
  show ?thesis
  proof (cases "vr_proj V (en_value e)")
    case None
    then show ?thesis using x e Some by (simp add: coll_cell_def Let_def)
  next
    case (Some c)
    obtain r c' where b: "body c = (r, c')" by (cases "body c")
    with assms(1) e Some have "nc (Inr r)" by (simp add: coll_cell_def Let_def)
    with b assms(3) have c': "c' = c" by blast
    have "\<not> vr_empty V c" "vr_inj V c = en_value e"
      using value_ok_iff [OF Some] inj_proj [OF Some] assms(2) x by auto
    with b c' e Some \<open>vis now x = Some _\<close> show ?thesis by (simp add: coll_cell_def Let_def)
  qed
qed

lemma coll_cell_count:
  assumes "zero_count (snd (coll_cell V now (count_ops opr xs) x))" "\<And>e. x = Some e \<Longrightarrow> value_ok (en_value e)"
    and "\<And>c a. \<not> snd (opr c a) \<Longrightarrow> fst (opr c a) = c"
  shows "fst (coll_cell V now (count_ops opr xs) x) = vis now x"
proof (rule coll_cell_no_change [where nc = zero_count, OF assms(1,2)])
  fix c r c'
  assume "zero_count (Inr r)" "count_ops opr xs c = (r, c')"
  with count_zero [of opr xs c] assms(3) show "c' = c" by simp
qed

end

interpretation list_exact: exact_variant list_variant "\<lambda>_. True"
  by unfold_locales (auto simp: list_variant_def split: val.splits)

interpretation hash_exact: exact_variant hash_variant hash_ok
  by unfold_locales (auto simp: hash_variant_def split: val.splits)

interpretation set_exact: exact_variant set_variant distinct
  by unfold_locales (auto simp: set_variant_def split: val.splits)

interpretation zset_exact: exact_variant zset_variant zset_ok
  by unfold_locales (auto simp: zset_variant_def zset_default_def zset_len_def split: val.splits)

lemma pop_nothing: "list_pop n l c = ([], c') \<Longrightarrow> c' = c"
  by (cases n; cases c) (auto simp: split_def Let_def)

lemma no_change_elements:
  "\<not> snd (hash_remove h f) \<Longrightarrow> fst (hash_remove h f) = h" "\<not> snd (hset_insert s m) \<Longrightarrow> fst (hset_insert s m) = s"
  "\<not> snd (hset_remove s m) \<Longrightarrow> fst (hset_remove s m) = s" "\<not> snd (zset_remove z m) \<Longrightarrow> fst (zset_remove z m) = z"
  by (auto simp: hash_remove_def map_of_eq_None_iff intro: delete_id)
     (auto simp: hset_insert_def hset_remove_def zset_remove_def split: option.splits if_splits)

lemmas string_cells = read_cell_def pttl_cell_def set_cell_def del_cell_def expire_cell_def incr_cell_def append_cell_def

lemma no_change_cell:
  assumes "no_change op (snd (cell_step now op c))" "\<And>e. c = Some e \<Longrightarrow> value_ok (en_value e)"
  shows "fst (cell_step now op c) = vis now c"
proof (cases op)
  case (S_Pop k n l)
  have "failed r \<or> r = Inr [] \<Longrightarrow> r = Inr r' \<Longrightarrow> r' = []" for r and r' :: "bytes list" by auto
  with S_Pop assms show ?thesis
    by (auto simp: ans_def intro!: list_exact.coll_cell_no_change [where nc = "\<lambda>r. failed r \<or> r = Inr []"] dest: pop_nothing)
next
  case (S_Push k vs l)
  with assms show ?thesis by (auto simp: ans_def intro!: list_exact.coll_cell_no_change [where nc = failed])
next
  case (S_Hset k kvs)
  with assms show ?thesis by (auto simp: ans_def intro!: hash_exact.coll_cell_no_change [where nc = failed])
next
  case (S_Zadd k sms)
  with assms show ?thesis by (auto simp: ans_def intro!: zset_exact.coll_cell_no_change [where nc = failed])
next
  case (S_Hdel k fs)
  with assms show ?thesis
    by (simp add: ans_def hash_exact.coll_cell_count [OF _ _ no_change_elements(1)])
next
  case (S_Sadd k ms)
  with assms show ?thesis
    by (simp add: ans_def set_exact.coll_cell_count [OF _ _ no_change_elements(2)])
next
  case (S_Srem k ms)
  with assms show ?thesis
    by (simp add: ans_def set_exact.coll_cell_count [OF _ _ no_change_elements(3)])
next
  case (S_Zrem k ms)
  with assms show ?thesis
    by (simp add: ans_def zset_exact.coll_cell_count [OF _ _ no_change_elements(4)])
qed (use assms(1) in \<open>auto simp: ans_def string_cells Let_def split: if_splits sum.splits\<close>)

section \<open>Programs that leave the keyspace as it is\<close>

text \<open>Two keyspaces that no operation from time \<open>t\<close> on can tell apart.\<close>

definition still :: "u64 \<Rightarrow> keyspace \<Rightarrow> keyspace \<Rightarrow> bool" where
  "still t f g \<longleftrightarrow> (\<forall>k. vis t (g k) = vis t (f k))"

fun no_effect :: "request \<Rightarrow> response \<Rightarrow> bool" where
  "no_effect (Q_Op op) p \<longleftrightarrow> no_change op (the_answer p)"
| "no_effect Q_Flush p \<longleftrightarrow> False"
| "no_effect _ p \<longleftrightarrow> True"

fun read_request :: "request \<Rightarrow> bool" where
  "read_request (Q_Op op) \<longleftrightarrow> \<not> mutates op"
| "read_request Q_Flush \<longleftrightarrow> False"
| "read_request _ \<longleftrightarrow> True"

text \<open>Whenever the result satisfies \<open>P\<close>, no request on the way had an effect.\<close>

primrec silent :: "('r \<Rightarrow> bool) \<Rightarrow> 'r prog \<Rightarrow> bool" where
  "silent P (Done r) \<longleftrightarrow> True"
| "silent P (Ask q k) \<longleftrightarrow> (\<forall>p. (no_effect q p \<or> yields (\<lambda>r. \<not> P r) (k p)) \<and> silent P (k p))"

lemma read_request_no_effect: "read_request q \<Longrightarrow> no_effect q p"
  by (cases q) (simp_all add: reader_no_change)

lemma asks_silent: "asks read_request prog \<Longrightarrow> silent P prog"
  by (induction prog) (auto simp: read_request_no_effect)

lemma silent_map [simp]: "silent P (map_prog h prog) \<longleftrightarrow> silent (P \<circ> h) prog"
  by (induction prog) (auto simp: comp_def)

lemma expired_later: "expired u e \<Longrightarrow> u \<le> t \<Longrightarrow> expired t e"
  by (auto simp: expired_def split: option.splits)

lemma vis_later: "u \<le> t \<Longrightarrow> vis t (vis u c) = vis t c"
  by (auto simp: vis_def expired_later split: option.splits)

lemma still_refl [simp]: "still t f f"
  by (simp add: still_def)

lemma still_trans: "still t f g \<Longrightarrow> still t g h \<Longrightarrow> still t f h"
  by (simp add: still_def)

lemma store_value_ok:
  assumes inv: "st_inv b st" and e: "store_ks st k = Some e" shows "value_ok (en_value e)"
  using st_invD(2) [OF inv st_invD(1) [OF inv]] e by (auto simp: store_ks_def sh_inv_def intro: vals_ok_get)

lemma serve_still:
  assumes inv: "st_inv b st" and run: "serve ev n q st = Some (st', p)" and eff: "no_effect q p" and t: "ev_clock ev n \<le> t"
  shows "still t (store_ks st) (store_ks st') \<and> store_ks st' \<subseteq>\<^sub>m store_ks st"
proof (cases q)
  case (Q_Op op)
  let ?u = "ev_clock ev n" and ?k = "op_key op" and ?c = "store_ks st (op_key op)"
  have al: "allowed (b \<noteq> 0) ev n q (store_ks st) (store_ks st') p"
    using serve_allowed [OF inv, of ev n q] run by (simp add: returns_iff)
  have p: "p = P_Answer (snd (cell_step ?u op ?c))"
    using al by (simp add: Q_Op ks_step_def split_def Let_def)
  then have "no_change op (snd (cell_step ?u op ?c))" using eff by (simp add: Q_Op)
  then have "fst (cell_step ?u op ?c) = vis ?u ?c"
    by (rule no_change_cell) (rule store_value_ok [OF inv])
  then have step: "fst (ks_step ?u op (store_ks st)) = (store_ks st)(?k := vis ?u ?c)"
    by (simp add: ks_step_def split_def Let_def)
  have le: "(store_ks st)(?k := vis ?u ?c) \<subseteq>\<^sub>m store_ks st" by (rule map_le_vis)
  then have "store_ks st' = (store_ks st)(?k := vis ?u ?c)"
    using al step by (simp add: Q_Op split_def Let_def)
  with t le show ?thesis by (simp add: still_def vis_later)
qed (use run eff in auto)

lemma exec_tick: "exec ev n prog st = Some (st', m, r) \<Longrightarrow> n \<le> m"
proof (induction prog arbitrary: n st)
  case (Ask q k)
  then obtain st1 p where "exec ev (Suc n) (k p) st1 = Some (st', m, r)" by (auto simp: bind_eq_Some_conv)
  from Ask.IH [OF _ this] show ?case by simp
qed simp

theorem exec_silent:
  assumes "st_inv b st" "exec ev n prog st = Some (st', m, r)" "silent P prog" "P r"
    and "\<forall>i. n \<le> i \<and> i < m \<longrightarrow> ev_clock ev i \<le> t"
  shows "still t (store_ks st) (store_ks st') \<and> store_ks st' \<subseteq>\<^sub>m store_ks st"
  using assms
proof (induction prog arbitrary: n st)
  case (Ask q k)
  obtain st1 p where 1: "serve ev n q st = Some (st1, p)" "exec ev (Suc n) (k p) st1 = Some (st', m, r)"
    using Ask.prems(2) by (auto simp: bind_eq_Some_conv)
  have inv: "st_inv b st1" using serve_allowed [OF Ask.prems(1), of ev n q] 1(1) by (simp add: returns_iff)
  have "\<not> yields (\<lambda>r. \<not> P r) (k p)" using exec_yieldsD [OF 1(2)] Ask.prems(4) by blast
  then have "no_effect q p" using Ask.prems(3) by auto
  moreover have "n < m" using exec_tick [OF 1(2)] by simp
  ultimately have "still t (store_ks st) (store_ks st1) \<and> store_ks st1 \<subseteq>\<^sub>m store_ks st"
    using serve_still [OF Ask.prems(1) 1(1), of t] Ask.prems(5) by simp
  moreover have "still t (store_ks st1) (store_ks st') \<and> store_ks st' \<subseteq>\<^sub>m store_ks st1"
    using Ask.IH [OF _ inv 1(2)] Ask.prems(3-5) by auto
  ultimately show ?case by (blast intro: still_trans map_le_trans)
qed simp

lemma exec_shrinks:
  assumes "st_inv b st" "exec ev n prog st = Some (st', m, r)" "silent P prog" "P r"
  shows "store_ks st' \<subseteq>\<^sub>m store_ks st"
  using exec_silent [OF assms, of "- 1"] by simp

end
