(* ===== verification/Resp.thy ===== *)
theory Resp
  imports Value_Types Rust_Std
begin

unbundle bit_operations_syntax

text \<open>
  \<^verbatim>\<open>crates/proto/src/resp.rs\<close>: the parser of client commands, in its owned form (\<^verbatim>\<open>parse_command\<close>)
  and in the zero-copy form the connection loop uses (\<^verbatim>\<open>parse_command_ranges\<close>), and the encoder
  of replies with its allocation-free variants. Every slice and index expression of the source
  stands behind a bounds check in the same branch, so the model indexes plainly. The text of a
  finite floating-point number is produced by the standard library's formatter, a parameter.
\<close>

section \<open>Parsing\<close>

datatype protocol_error = Malformed string | TooLarge

definition MAX_BULK_LEN :: int where "MAX_BULK_LEN = 512 * 1024 * 1024"
definition MAX_ARRAY_LEN :: int where "MAX_ARRAY_LEN = 1024 * 1024"

abbreviation CR :: char where "CR \<equiv> CHR 0x0D"
abbreviation LF :: char where "LF \<equiv> CHR 0x0A"
abbreviation CRLF :: string where "CRLF \<equiv> [CR, LF]"

text \<open>\<^verbatim>\<open>&buf[a..b]\<close>.\<close>

definition slice :: "nat \<Rightarrow> nat \<Rightarrow> bytes \<Rightarrow> bytes" where
  "slice a b buf = take (b - a) (drop a buf)"

function read_line_from :: "bytes \<Rightarrow> nat \<Rightarrow> nat \<Rightarrow> (bytes \<times> nat) option" where
  "read_line_from buf start i =
     (if i + 1 < length buf then
        if buf ! i = CR \<and> buf ! (i + 1) = LF then Some (slice start i buf, i + 2)
        else read_line_from buf start (i + 1)
      else None)"
  by pat_completeness auto
termination by (relation "measure (\<lambda>(buf, start, i). length buf - i)") auto

declare read_line_from.simps [simp del]

definition read_line :: "bytes \<Rightarrow> nat \<Rightarrow> (bytes \<times> nat) option" where
  "read_line buf start = read_line_from buf start start"

definition parse_int :: "bytes \<Rightarrow> protocol_error + int" where
  "parse_int line =
     (case (if utf8_valid line then parse_i64 line else None) of
        Some i \<Rightarrow> Inr i
      | None \<Rightarrow> Inl (Malformed ''invalid integer''))"

type_synonym 'a parse_result = "protocol_error + 'a option"

text \<open>The argument loop of \<^verbatim>\<open>parse_array_command\<close>, with the number of arguments still to read.\<close>

fun parse_args :: "bytes \<Rightarrow> nat \<Rightarrow> nat \<Rightarrow> bytes list \<Rightarrow> (bytes list \<times> nat) parse_result" where
  "parse_args buf 0 pos argv = Inr (Some (argv, pos))"
| "parse_args buf (Suc n) pos argv =
     (if pos \<ge> length buf then Inr None
      else if buf ! pos \<noteq> CHR ''$'' then Inl (Malformed ''expected bulk string in command'')
      else case read_line buf (pos + 1) of
        None \<Rightarrow> Inr None
      | Some (len_line, after_len) \<Rightarrow>
          (case parse_int len_line of
             Inl e \<Rightarrow> Inl e
           | Inr len \<Rightarrow>
               if len < 0 then Inl (Malformed ''null bulk in command'')
               else if len > MAX_BULK_LEN then Inl TooLarge
               else let data_end = after_len + nat len in
                 if data_end + 2 > length buf then Inr None
                 else if slice data_end (data_end + 2) buf \<noteq> CRLF then Inl (Malformed ''bulk not CRLF-terminated'')
                 else parse_args buf n (data_end + 2) (argv @ [slice after_len data_end buf])))"

definition parse_array_command :: "bytes \<Rightarrow> (bytes list \<times> nat) parse_result" where
  "parse_array_command buf =
     (case read_line buf 1 of
        None \<Rightarrow> Inr None
      | Some (line, pos) \<Rightarrow>
          (case parse_int line of
             Inl e \<Rightarrow> Inl e
           | Inr n \<Rightarrow>
               if n < 0 then Inr (Some ([], pos))
               else if n > MAX_ARRAY_LEN then Inl TooLarge
               else parse_args buf (nat n) pos []))"

definition is_ascii_whitespace :: "char \<Rightarrow> bool" where
  "is_ascii_whitespace c \<longleftrightarrow> c \<in> {CHR '' '', CHR 0x09, LF, CHR 0x0C, CR}"

text \<open>\<^verbatim>\<open>slice::split\<close>: the maximal runs between separators, empty ones included.\<close>

fun split_by :: "('a \<Rightarrow> bool) \<Rightarrow> 'a list \<Rightarrow> 'a list list" where
  "split_by P [] = [[]]"
| "split_by P (x # xs) =
     (if P x then [] # split_by P xs
      else (case split_by P xs of ys # yss \<Rightarrow> (x # ys) # yss | [] \<Rightarrow> [[x]]))"

definition parse_inline_command :: "bytes \<Rightarrow> (bytes list \<times> nat) parse_result" where
  "parse_inline_command buf =
     (case read_line buf 0 of
        None \<Rightarrow> if length buf > 64 * 1024 then Inl TooLarge else Inr None
      | Some (line, consumed) \<Rightarrow>
          Inr (Some (filter (\<lambda>s. s \<noteq> []) (split_by is_ascii_whitespace line), consumed)))"

definition parse_command :: "bytes \<Rightarrow> (bytes list \<times> nat) parse_result" where
  "parse_command buf =
     (if buf = [] then Inr None
      else if buf ! 0 = CHR ''*'' then parse_array_command buf
      else parse_inline_command buf)"

section \<open>Zero-copy parsing\<close>

fun parse_arg_ranges :: "bytes \<Rightarrow> nat \<Rightarrow> nat \<Rightarrow> (nat \<times> nat) list \<Rightarrow> ((nat \<times> nat) list \<times> nat) parse_result" where
  "parse_arg_ranges buf 0 pos argv = Inr (Some (argv, pos))"
| "parse_arg_ranges buf (Suc n) pos argv =
     (if pos \<ge> length buf then Inr None
      else if buf ! pos \<noteq> CHR ''$'' then Inl (Malformed ''expected bulk string in command'')
      else case read_line buf (pos + 1) of
        None \<Rightarrow> Inr None
      | Some (len_line, after_len) \<Rightarrow>
          (case parse_int len_line of
             Inl e \<Rightarrow> Inl e
           | Inr len \<Rightarrow>
               if len < 0 then Inl (Malformed ''null bulk in command'')
               else if len > MAX_BULK_LEN then Inl TooLarge
               else let data_end = after_len + nat len in
                 if data_end + 2 > length buf then Inr None
                 else if slice data_end (data_end + 2) buf \<noteq> CRLF then Inl (Malformed ''bulk not CRLF-terminated'')
                 else parse_arg_ranges buf n (data_end + 2) (argv @ [(after_len, nat len)])))"

text \<open>The scan of an inline line: the two inner loops, and the outer one.\<close>

function scan_while :: "(char \<Rightarrow> bool) \<Rightarrow> bytes \<Rightarrow> nat \<Rightarrow> nat" where
  "scan_while P line i = (if i < length line \<and> P (line ! i) then scan_while P line (i + 1) else i)"
  by pat_completeness auto
termination by (relation "measure (\<lambda>(P, line, i). length line - i)") auto

declare scan_while.simps [simp del]

lemma scan_while_ge: "i \<le> scan_while P line i"
proof (induction P line i rule: scan_while.induct)
  case (1 P line i)
  then show ?case by (subst scan_while.simps) auto
qed

lemma scan_while_progress:
  assumes "i < length line"
  shows "i < scan_while (\<lambda>c. \<not> P c) line (scan_while P line i)"
proof (cases "P (line ! i)")
  case True
  then have "i < scan_while P line i"
    using assms scan_while_ge [of "i + 1" P line] by (subst scan_while.simps) simp
  then show ?thesis using scan_while_ge less_le_trans by blast
next
  case False
  then have "scan_while P line i = i" by (subst scan_while.simps) simp
  then show ?thesis
    using assms False scan_while_ge [of "i + 1" "\<lambda>c. \<not> P c" line] by (subst scan_while.simps) simp
qed

function inline_ranges :: "bytes \<Rightarrow> nat \<Rightarrow> (nat \<times> nat) list \<Rightarrow> (nat \<times> nat) list" where
  "inline_ranges line i argv =
     (if i < length line then
        let start = scan_while is_ascii_whitespace line i;
            stop = scan_while (\<lambda>c. \<not> is_ascii_whitespace c) line start
        in inline_ranges line stop (if stop > start then argv @ [(start, stop - start)] else argv)
      else argv)"
  by pat_completeness auto
termination
  by (relation "measure (\<lambda>(line, i, argv). length line - i)")
     (use scan_while_progress in \<open>auto intro: diff_less_mono2\<close>)

declare inline_ranges.simps [simp del]

definition parse_command_ranges :: "bytes \<Rightarrow> ((nat \<times> nat) list \<times> nat) parse_result" where
  "parse_command_ranges buf =
     (if buf = [] then Inr None
      else if buf ! 0 = CHR ''*'' then
        (case read_line buf 1 of
           None \<Rightarrow> Inr None
         | Some (line, pos) \<Rightarrow>
             (case parse_int line of
                Inl e \<Rightarrow> Inl e
              | Inr n \<Rightarrow>
                  if n < 0 then Inr (Some ([], pos))
                  else if n > MAX_ARRAY_LEN then Inl TooLarge
                  else parse_arg_ranges buf (nat n) pos []))
      else
        (case read_line buf 0 of
           None \<Rightarrow> if length buf > 64 * 1024 then Inl TooLarge else Inr None
         | Some (line, consumed) \<Rightarrow> Inr (Some (inline_ranges line 0 [], consumed))))"

section \<open>Replies\<close>

datatype reply =
    R_Simple string | R_Error string | R_Int int | R_Bulk "bytes option" | R_Array "reply list option"
  | R_Null | R_Bool bool | R_Double f64 | R_Map "(reply \<times> reply) list"

definition reply_ok :: reply where
  "reply_ok = R_Simple ''OK''"

text \<open>The classes of bit patterns: the exponent is all ones for infinities (no fraction bits) and
  not-a-number patterns (some fraction bit).\<close>

definition f64_exp :: "f64 \<Rightarrow> nat" where
  "f64_exp d = unat (drop_bit 52 d AND mask 11)"

definition f64_frac :: "f64 \<Rightarrow> nat" where
  "f64_frac d = unat (d AND mask 52)"

definition is_infinite :: "f64 \<Rightarrow> bool" where
  "is_infinite d \<longleftrightarrow> f64_exp d = 2047 \<and> f64_frac d = 0"

definition is_nan :: "f64 \<Rightarrow> bool" where
  "is_nan d \<longleftrightarrow> f64_exp d = 2047 \<and> f64_frac d \<noteq> 0"

text \<open>The first argument is \<^verbatim>\<open>format!("{d}")\<close>.\<close>

definition format_double :: "(f64 \<Rightarrow> string) \<Rightarrow> f64 \<Rightarrow> string" where
  "format_double fmt d =
     (if is_infinite d then (if \<not> bit d 63 then ''inf'' else ''-inf'')
      else if is_nan d then ''nan''
      else fmt d)"

fun reply_encode :: "(f64 \<Rightarrow> string) \<Rightarrow> bool \<Rightarrow> reply \<Rightarrow> bytes" where
  "reply_encode fmt resp3 (R_Simple s) = ''+'' @ s @ CRLF"
| "reply_encode fmt resp3 (R_Error s) = ''-'' @ s @ CRLF"
| "reply_encode fmt resp3 (R_Int n) = '':'' @ show_int n @ CRLF"
| "reply_encode fmt resp3 (R_Bulk None) = (if resp3 then ''_'' @ CRLF else ''$-1'' @ CRLF)"
| "reply_encode fmt resp3 (R_Bulk (Some b)) = ''$'' @ show_nat (length b) @ CRLF @ b @ CRLF"
| "reply_encode fmt resp3 (R_Array None) = (if resp3 then ''_'' @ CRLF else ''*-1'' @ CRLF)"
| "reply_encode fmt resp3 (R_Array (Some items)) =
     ''*'' @ show_nat (length items) @ CRLF @ concat (map (reply_encode fmt resp3) items)"
| "reply_encode fmt resp3 R_Null = (if resp3 then ''_'' @ CRLF else ''$-1'' @ CRLF)"
| "reply_encode fmt resp3 (R_Bool b) =
     (if resp3 then (if b then ''#t'' @ CRLF else ''#f'' @ CRLF) else (if b then '':1'' @ CRLF else '':0'' @ CRLF))"
| "reply_encode fmt resp3 (R_Double d) =
     (if resp3 then '','' @ format_double fmt d @ CRLF
      else (let s = format_double fmt d in ''$'' @ show_nat (length s) @ CRLF @ s @ CRLF))"
| "reply_encode fmt resp3 (R_Map pairs) =
     (if resp3 then ''%'' @ show_nat (length pairs) @ CRLF else ''*'' @ show_nat (length pairs * 2) @ CRLF)
     @ concat (map (\<lambda>(k, v). reply_encode fmt resp3 k @ reply_encode fmt resp3 v) pairs)"

section \<open>Allocation-free writers\<close>

partial_function (option) write_uint_loop :: "bytes \<Rightarrow> nat \<Rightarrow> u64 \<Rightarrow> (bytes \<times> nat) option" where
  "write_uint_loop tmp i v =
     (if v > 0 then
        do {
          i \<leftarrow> usub i 1;
          _ \<leftarrow> idx tmp i;
          write_uint_loop (tmp[i := digit_char (unat (v mod 10))]) i (v div 10)
        }
      else Some (tmp, i))"

declare write_uint_loop.simps [code]

definition write_uint :: "bytes \<Rightarrow> u64 \<Rightarrow> bytes option" where
  "write_uint out v =
     (if v = 0 then Some (out @ ''0'')
      else do {
        (tmp, i) \<leftarrow> write_uint_loop (replicate 20 (CHR 0x00)) 20 v;
        Some (out @ drop i tmp)
      })"

definition write_bulk :: "bytes \<Rightarrow> bytes \<Rightarrow> bytes option" where
  "write_bulk out data =
     do { out \<leftarrow> write_uint (out @ ''$'') (of_nat (length data)); Some (out @ CRLF @ data @ CRLF) }"

definition write_null :: "bytes \<Rightarrow> bool \<Rightarrow> bytes" where
  "write_null out resp3 = out @ (if resp3 then ''_'' @ CRLF else ''$-1'' @ CRLF)"

definition write_simple :: "bytes \<Rightarrow> string \<Rightarrow> bytes" where
  "write_simple out s = out @ ''+'' @ s @ CRLF"

definition write_error :: "bytes \<Rightarrow> string \<Rightarrow> bytes" where
  "write_error out msg = out @ ''-'' @ msg @ CRLF"

text \<open>\<^verbatim>\<open>unsigned_abs\<close> of a negative number and the cast of a non-negative one.\<close>

definition write_int :: "bytes \<Rightarrow> int \<Rightarrow> bytes option" where
  "write_int out n =
     do {
       out \<leftarrow> (if n < 0 then write_uint (out @ '':'' @ ''-'') (of_int (- n))
               else write_uint (out @ '':'') (of_int n));
       Some (out @ CRLF)
     }"

definition protocol_error_display :: "protocol_error \<Rightarrow> string" where
  "protocol_error_display e =
     (case e of Malformed m \<Rightarrow> ''protocol error: '' @ m | TooLarge \<Rightarrow> ''protocol error: frame too large'')"

section \<open>Lines\<close>

lemma slice_append [simp]: "slice (length pre) (length pre + length xs) (pre @ xs @ rest) = xs"
  by (simp add: slice_def)

lemma slice_take: "b \<le> k \<Longrightarrow> slice a b (take k buf) = slice a b buf"
  by (cases "a \<le> b") (auto simp: slice_def take_drop min_def)

lemma slice_local: "take e buf' = take e buf \<Longrightarrow> b \<le> e \<Longrightarrow> slice a b buf' = slice a b buf"
  by (metis slice_take)

text \<open>A line ends at the first CRLF.\<close>

definition crlf_at :: "bytes \<Rightarrow> nat \<Rightarrow> bool" where
  "crlf_at buf p \<longleftrightarrow> p + 1 < length buf \<and> buf ! p = CR \<and> buf ! (p + 1) = LF"

definition line_end :: "bytes \<Rightarrow> nat \<Rightarrow> nat \<Rightarrow> bool" where
  "line_end buf i p \<longleftrightarrow> i \<le> p \<and> crlf_at buf p \<and> (\<forall>j. i \<le> j \<and> j < p \<longrightarrow> \<not> crlf_at buf j)"

lemma line_end_step: "\<not> crlf_at buf i \<Longrightarrow> line_end buf (i + 1) p \<longleftrightarrow> line_end buf i p"
  by (auto simp: line_end_def Suc_le_eq) (metis le_neq_implies_less)+

lemma line_end_here: "crlf_at buf i \<Longrightarrow> line_end buf i p \<longleftrightarrow> p = i"
  by (auto simp: line_end_def dest: le_neq_implies_less)

lemma read_line_from_iff:
  "read_line_from buf start i = Some (l, e) \<longleftrightarrow> (\<exists>p. line_end buf i p \<and> l = slice start p buf \<and> e = p + 2)"
proof (induction buf start i rule: read_line_from.induct)
  case (1 buf start i)
  show ?case
  proof (cases "i + 1 < length buf")
    case False
    then have "\<not> line_end buf i p" for p by (auto simp: line_end_def crlf_at_def)
    with False show ?thesis by (subst read_line_from.simps) simp
  next
    case len: True
    show ?thesis
    proof (cases "buf ! i = CR \<and> buf ! (i + 1) = LF")
      case True
      with len have "crlf_at buf i" by (simp add: crlf_at_def)
      with True len show ?thesis by (subst read_line_from.simps) (auto simp: line_end_here)
    next
      case False
      with len have n: "\<not> crlf_at buf i" by (simp add: crlf_at_def)
      have "read_line_from buf start i = read_line_from buf start (i + 1)"
        using len False by (subst read_line_from.simps) auto
      then show ?thesis using "1.IH" [OF len False] line_end_step [OF n] by simp
    qed
  qed
qed

lemma read_line_iff:
  "read_line buf start = Some (l, e) \<longleftrightarrow> (\<exists>p. line_end buf start p \<and> l = slice start p buf \<and> e = p + 2)"
  by (simp add: read_line_def read_line_from_iff)

lemma read_lineD:
  assumes "read_line buf start = Some (l, e)"
  shows "start + 2 \<le> e" "e \<le> length buf" "l = slice start (e - 2) buf"
  using assms by (auto simp: read_line_iff line_end_def crlf_at_def)

text \<open>A line is determined by the bytes up to its end, and is not found in less.\<close>

lemma crlf_at_take: "crlf_at (take e buf) p \<longleftrightarrow> crlf_at buf p \<and> p + 1 < e"
  by (auto simp: crlf_at_def)

lemma line_end_take: "line_end (take e buf) i p \<longleftrightarrow> line_end buf i p \<and> p + 1 < e"
  by (auto simp: line_end_def crlf_at_take)

lemma read_line_take:
  "read_line (take k buf) start = Some (l, e) \<longleftrightarrow> read_line buf start = Some (l, e) \<and> e \<le> k"
  by (auto simp: read_line_iff line_end_take slice_take)

lemma nth_local: "take e buf' = take e buf \<Longrightarrow> j < e \<Longrightarrow> buf' ! j = buf ! j"
  by (metis nth_take)

lemma read_line_local:
  "read_line buf start = Some (l, e) \<Longrightarrow> take e buf' = take e buf \<Longrightarrow> read_line buf' start = Some (l, e)"
  by (metis read_line_take order_refl)

lemma read_line_prefix:
  assumes "read_line buf start = Some (l, e)"
  shows "read_line (take k buf) start = (if e \<le> k then Some (l, e) else None)"
proof (cases "read_line (take k buf) start")
  case None
  then have "\<not> e \<le> k" using assms read_line_take [of k buf start l e] by auto
  with None show ?thesis by simp
next
  case (Some x)
  then obtain l' e' where x: "read_line (take k buf) start = Some (l', e')" by (cases x) auto
  then have "l' = l" "e' = e" "e \<le> k" using assms unfolding read_line_take by simp_all
  with x show ?thesis by simp
qed

lemma read_line_append:
  assumes "CR \<notin> set line"
  shows "read_line (pre @ line @ CRLF @ rest) (length pre) = Some (line, length pre + length line + 2)"
proof -
  let ?buf = "pre @ line @ CRLF @ rest"
  have "?buf ! j \<noteq> CR" if "length pre \<le> j" "j < length pre + length line" for j
  proof -
    have "?buf ! j = line ! (j - length pre)" "j - length pre < length line" using that by (auto simp: nth_append)
    then show ?thesis using assms nth_mem by metis
  qed
  then have "line_end ?buf (length pre) (length pre + length line)"
    by (auto simp: line_end_def crlf_at_def nth_append)
  moreover have "slice (length pre) (length pre + length line) ?buf = line" by (rule slice_append)
  ultimately show ?thesis by (auto simp: read_line_iff)
qed

section \<open>The owned and the zero-copy parser\<close>

text \<open>The bytes an argument range stands for.\<close>

abbreviation resolve :: "bytes \<Rightarrow> nat \<times> nat \<Rightarrow> bytes" where
  "resolve buf \<equiv> (\<lambda>(off, len). slice off (off + len) buf)"

definition resolve_result :: "bytes \<Rightarrow> ((nat \<times> nat) list \<times> nat) parse_result \<Rightarrow> (bytes list \<times> nat) parse_result" where
  "resolve_result buf = map_sum id (map_option (\<lambda>(rs, c). (map (resolve buf) rs, c)))"

lemma resolve_result_simps [simp]:
  "resolve_result buf (Inl e) = Inl e" "resolve_result buf (Inr None) = Inr None"
  "resolve_result buf (Inr (Some (rs, c))) = Inr (Some (map (resolve buf) rs, c))"
  by (simp_all add: resolve_result_def)

lemma parse_args_ranges:
  "parse_args buf n pos (map (resolve buf) rs) = resolve_result buf (parse_arg_ranges buf n pos rs)"
proof (induction n arbitrary: pos rs)
  case (Suc n)
  have "parse_args buf n p (map (resolve buf) rs @ [slice a (a + l) buf]) =
      resolve_result buf (parse_arg_ranges buf n p (rs @ [(a, l)]))" for p a l
    using Suc.IH [of p "rs @ [(a, l)]"] by simp
  then show ?case by (simp add: Let_def split: option.splits sum.splits)
qed simp

text \<open>Words: the non-empty pieces between separators.\<close>

abbreviation words :: "bytes \<Rightarrow> bytes list" where
  "words line \<equiv> filter (\<lambda>s. s \<noteq> []) (split_by is_ascii_whitespace line)"

lemma split_by_ne [simp]: "split_by P xs \<noteq> []"
  by (induction xs) (auto split: list.splits)

lemma split_by_step:
  "split_by P xs = takeWhile (\<lambda>x. \<not> P x) xs # (case dropWhile (\<lambda>x. \<not> P x) xs of [] \<Rightarrow> [] | _ # ys \<Rightarrow> split_by P ys)"
  by (induction xs) auto

lemma words_skip: "words (dropWhile is_ascii_whitespace line) = words line"
  by (induction line) auto

lemma words_step:
  assumes "dropWhile is_ascii_whitespace line = w" "w \<noteq> []"
  shows "words line = takeWhile (\<lambda>c. \<not> is_ascii_whitespace c) w # words (dropWhile (\<lambda>c. \<not> is_ascii_whitespace c) w)"
proof -
  have ne: "takeWhile (\<lambda>c. \<not> is_ascii_whitespace c) w \<noteq> []"
    using assms by (metis hd_dropWhile takeWhile_eq_Nil_iff)
  have "words line = words w" using words_skip assms(1) by metis
  also have "\<dots> = takeWhile (\<lambda>c. \<not> is_ascii_whitespace c) w #
      filter (\<lambda>s. s \<noteq> []) (case dropWhile (\<lambda>x. \<not> is_ascii_whitespace x) w of [] \<Rightarrow> [] | _ # ys \<Rightarrow> split_by is_ascii_whitespace ys)"
    using ne by (subst split_by_step) simp
  also have "filter (\<lambda>s. s \<noteq> []) (case dropWhile (\<lambda>x. \<not> is_ascii_whitespace x) w of [] \<Rightarrow> [] | _ # ys \<Rightarrow> split_by is_ascii_whitespace ys)
      = words (dropWhile (\<lambda>c. \<not> is_ascii_whitespace c) w)"
  proof (cases "dropWhile (\<lambda>x. \<not> is_ascii_whitespace x) w")
    case (Cons c ys)
    then have "is_ascii_whitespace c" using hd_dropWhile [of "\<lambda>x. \<not> is_ascii_whitespace x" w] by auto
    then show ?thesis unfolding Cons by simp
  next
    case Nil
    show ?thesis unfolding Nil by simp
  qed
  finally show ?thesis .
qed

lemma scan_while_length:
  "i \<le> length line \<Longrightarrow> scan_while P line i = i + length (takeWhile P (drop i line))"
proof (induction P line i rule: scan_while.induct)
  case (1 P line i)
  show ?case
  proof (cases "i < length line \<and> P (line ! i)")
    case True
    with 1 show ?thesis by (subst scan_while.simps) (simp add: Cons_nth_drop_Suc [symmetric])
  next
    case False
    then have "takeWhile P (drop i line) = []"
      using "1.prems" by (cases "i < length line") (auto simp: takeWhile_eq_Nil_iff hd_drop_conv_nth)
    with False show ?thesis by (subst scan_while.simps) auto
  qed
qed

lemma drop_scan: "i \<le> length line \<Longrightarrow> drop (scan_while P line i) line = dropWhile P (drop i line)"
  by (simp add: scan_while_length dropWhile_eq_drop add.commute)

lemma scan_le: "i \<le> length line \<Longrightarrow> scan_while P line i \<le> length line"
  using length_takeWhile_le [of P "drop i line"] by (simp add: scan_while_length)

lemma slice_scan: "i \<le> length line \<Longrightarrow> slice i (scan_while P line i) line = takeWhile P (drop i line)"
  unfolding slice_def scan_while_length by (simp add: takeWhile_eq_take [symmetric])

lemma inline_ranges_words:
  "i \<le> length line \<Longrightarrow> map (resolve line) (inline_ranges line i rs) = map (resolve line) rs @ words (drop i line)"
proof (induction line i rs rule: inline_ranges.induct)
  case (1 line i rs)
  let ?s = "scan_while is_ascii_whitespace line i"
  let ?e = "scan_while (\<lambda>c. \<not> is_ascii_whitespace c) line ?s"
  let ?rs = "if ?e > ?s then rs @ [(?s, ?e - ?s)] else rs"
  show ?case
  proof (cases "i < length line")
    case True
    have s: "?s \<le> length line" and e: "?e \<le> length line" using True by (simp_all add: scan_le)
    have IH: "map (resolve line) (inline_ranges line ?e ?rs) = map (resolve line) ?rs @ words (drop ?e line)"
      using "1.IH" [OF True refl refl e] .
    have ds: "drop ?s line = dropWhile is_ascii_whitespace (drop i line)" using True by (simp add: drop_scan)
    have de: "drop ?e line = dropWhile (\<lambda>c. \<not> is_ascii_whitespace c) (drop ?s line)" using s by (rule drop_scan)
    have "map (resolve line) ?rs @ words (drop ?e line) = map (resolve line) rs @ words (drop i line)"
    proof (cases "drop ?s line = []")
      case True
      have "words (drop i line) = words (drop ?s line)" unfolding ds by (rule words_skip [symmetric])
      then have "words (drop i line) = []" unfolding True by simp
      moreover have "?e = ?s" using True s scan_while_length [OF s] by simp
      ultimately show ?thesis using True by simp
    next
      case False
      have tw: "slice ?s ?e line = takeWhile (\<lambda>c. \<not> is_ascii_whitespace c) (drop ?s line)" by (rule slice_scan [OF s])
      have "takeWhile (\<lambda>c. \<not> is_ascii_whitespace c) (drop ?s line) \<noteq> []"
        using False ds by (metis hd_dropWhile takeWhile_eq_Nil_iff)
      then have "?s < ?e" using scan_while_length [OF s] by simp
      with tw words_step [OF ds [symmetric] False] de show ?thesis by simp
    qed
    with IH True show ?thesis by (subst inline_ranges.simps) (simp add: Let_def)
  next
    case False
    with "1.prems" show ?thesis by (subst inline_ranges.simps) simp
  qed
qed

lemma inline_ranges_bound:
  "i \<le> length line \<Longrightarrow> list_all (\<lambda>(off, len). off + len \<le> length line) rs \<Longrightarrow>
   list_all (\<lambda>(off, len). off + len \<le> length line) (inline_ranges line i rs)"
proof (induction line i rs rule: inline_ranges.induct)
  case (1 line i rs)
  let ?s = "scan_while is_ascii_whitespace line i"
  let ?e = "scan_while (\<lambda>c. \<not> is_ascii_whitespace c) line ?s"
  show ?case
  proof (cases "i < length line")
    case True
    then have "?e \<le> length line" by (intro scan_le) auto
    with "1.IH" [OF True refl refl this] "1.prems" True show ?thesis
      by (subst inline_ranges.simps) (simp add: Let_def)
  next
    case False
    with "1.prems" show ?thesis by (subst inline_ranges.simps) simp
  qed
qed

lemma inline_agree:
  assumes "read_line buf 0 = Some (line, c)"
  shows "words line = map (resolve buf) (inline_ranges line 0 [])"
    and "list_all (\<lambda>(off, len). off + len \<le> c) (inline_ranges line 0 [])"
proof -
  have line: "line = take (length line) buf" "length line \<le> c"
    using read_lineD [OF assms] by (auto simp: slice_def)
  have b: "list_all (\<lambda>(off, len). off + len \<le> length line) (inline_ranges line 0 [])"
    by (rule inline_ranges_bound) simp_all
  have "slice off (off + len) line = slice off (off + len) buf" if "off + len \<le> length line" for off len
    using slice_take [OF that, of off buf] line(1) by simp
  then have "map (resolve line) (inline_ranges line 0 []) = map (resolve buf) (inline_ranges line 0 [])"
    using b by (auto simp: list_all_iff)
  then show "words line = map (resolve buf) (inline_ranges line 0 [])" using inline_ranges_words [of 0 line "[]"] by simp
  show "list_all (\<lambda>(off, len). off + len \<le> c) (inline_ranges line 0 [])"
    using b line(2) by (force simp: list_all_iff)
qed

lemma parse_arg_ranges_bound:
  "parse_arg_ranges buf n pos rs = Inr (Some (rs', c)) \<Longrightarrow> pos \<le> length buf \<Longrightarrow>
   list_all (\<lambda>(off, len). off + len \<le> pos) rs \<Longrightarrow>
   c \<le> length buf \<and> list_all (\<lambda>(off, len). off + len \<le> c) rs'"
proof (induction n arbitrary: pos rs)
  case (Suc n)
  from Suc.prems(1) obtain l a m where *: "pos < length buf" "read_line buf (pos + 1) = Some (l, a)"
      "a + nat m + 2 \<le> length buf"
      "parse_arg_ranges buf n (a + nat m + 2) (rs @ [(a, nat m)]) = Inr (Some (rs', c))"
    by (auto simp: Let_def not_less split: if_splits option.splits sum.splits prod.splits)
  have "pos \<le> a" using read_lineD(1) [OF *(2)] by simp
  then have "list_all (\<lambda>(off, len). off + len \<le> a + nat m + 2) (rs @ [(a, nat m)])"
    using Suc.prems(3) by (fastforce simp: list_all_iff)
  from Suc.IH [OF *(4,3) this] show ?case .
qed simp

section \<open>Framing\<close>

text \<open>One well-formed argument at \<open>pos\<close>: its contents are the \<open>len\<close> bytes from \<open>a\<close> on.\<close>

definition arg_at :: "bytes \<Rightarrow> nat \<Rightarrow> nat \<Rightarrow> nat \<Rightarrow> bool" where
  "arg_at buf pos a len \<longleftrightarrow>
     pos < length buf \<and> buf ! pos = CHR ''$'' \<and> int len \<le> MAX_BULK_LEN
     \<and> (\<exists>l. read_line buf (pos + 1) = Some (l, a) \<and> parse_int l = Inr (int len))
     \<and> a + len + 2 \<le> length buf \<and> slice (a + len) (a + len + 2) buf = CRLF"

lemma parse_args_arg:
  "arg_at buf pos a len \<Longrightarrow>
     parse_args buf (Suc n) pos argv = parse_args buf n (a + len + 2) (argv @ [slice a (a + len) buf])"
  by (auto simp: arg_at_def Let_def)

lemma parse_args_SucE:
  assumes "parse_args buf (Suc n) pos argv = Inr (Some r)"
  obtains a len where "arg_at buf pos a len"
    "parse_args buf n (a + len + 2) (argv @ [slice a (a + len) buf]) = Inr (Some r)"
proof -
  from assms obtain l a len where *: "\<not> pos \<ge> length buf" "buf ! pos = CHR ''$''" "read_line buf (pos + 1) = Some (l, a)"
      "parse_int l = Inr len" "\<not> len < 0" "\<not> len > MAX_BULK_LEN" "\<not> a + nat len + 2 > length buf"
      "slice (a + nat len) (a + nat len + 2) buf = CRLF"
      "parse_args buf n (a + nat len + 2) (argv @ [slice a (a + nat len) buf]) = Inr (Some r)"
    by (auto simp: Let_def split: if_splits option.splits sum.splits prod.splits)
  then have "arg_at buf pos a (nat len)" by (auto simp: arg_at_def)
  with * that show thesis by blast
qed

lemma arg_at_bounds: "arg_at buf pos a len \<Longrightarrow> pos + 3 \<le> a \<and> a + len + 2 \<le> length buf"
  by (auto simp: arg_at_def dest: read_lineD(1))

lemma take_local_le: "take e buf' = take e buf \<Longrightarrow> a \<le> e \<Longrightarrow> take a buf' = take a buf"
  by (metis min.absorb1 take_take)

lemma length_local: "take e buf' = take e buf \<Longrightarrow> e \<le> length buf \<Longrightarrow> e \<le> length buf'"
  by (metis length_take min.absorb2 min.cobounded1)

lemma arg_at_local:
  assumes "arg_at buf pos a len" "take e buf' = take e buf" "a + len + 2 \<le> e" "e \<le> length buf"
  shows "arg_at buf' pos a len"
proof -
  have b: "pos + 3 \<le> a" using arg_at_bounds [OF assms(1)] by simp
  obtain l where l: "read_line buf (pos + 1) = Some (l, a)" "parse_int l = Inr (int len)"
    using assms(1) by (auto simp: arg_at_def)
  have "e \<le> length buf'" using length_local [OF assms(2,4)] .
  moreover have "read_line buf' (pos + 1) = Some (l, a)"
    using assms(3) by (intro read_line_local [OF l(1)] take_local_le [OF assms(2)]) simp
  moreover have "buf' ! pos = buf ! pos" using assms(3) b by (intro nth_local [OF assms(2)]) simp
  moreover have "slice (a + len) (a + len + 2) buf' = slice (a + len) (a + len + 2) buf"
    by (rule slice_local [OF assms(2,3)])
  ultimately show ?thesis using assms(1,3) b l(2) by (simp add: arg_at_def)
qed

lemma parse_args_bounds: "parse_args buf n pos argv = Inr (Some (r, c)) \<Longrightarrow> pos \<le> length buf \<Longrightarrow> pos \<le> c \<and> c \<le> length buf"
proof (induction n arbitrary: pos argv)
  case (Suc n)
  from Suc.prems(1) obtain a len where a: "arg_at buf pos a len"
    "parse_args buf n (a + len + 2) (argv @ [slice a (a + len) buf]) = Inr (Some (r, c))" by (rule parse_args_SucE)
  with Suc.IH [OF a(2)] arg_at_bounds [OF a(1)] show ?case by simp
qed simp

lemma parse_args_local:
  "parse_args buf n pos argv = Inr (Some (r, c)) \<Longrightarrow> pos \<le> length buf \<Longrightarrow> take c buf' = take c buf \<Longrightarrow>
     parse_args buf' n pos argv = Inr (Some (r, c))"
proof (induction n arbitrary: pos argv)
  case (Suc n)
  from Suc.prems(1) obtain a len where a: "arg_at buf pos a len"
    "parse_args buf n (a + len + 2) (argv @ [slice a (a + len) buf]) = Inr (Some (r, c))" by (rule parse_args_SucE)
  have b: "a + len + 2 \<le> length buf" using arg_at_bounds [OF a(1)] by simp
  have c: "a + len + 2 \<le> c" "c \<le> length buf" using parse_args_bounds [OF a(2) b] by auto
  have "slice a (a + len) buf' = slice a (a + len) buf" using c by (intro slice_local [OF Suc.prems(3)]) simp
  with Suc.IH [OF a(2) b Suc.prems(3)] parse_args_arg [OF arg_at_local [OF a(1) Suc.prems(3) c]] show ?case by simp
qed simp

lemma parse_args_prefix:
  "parse_args buf n pos argv = Inr (Some (r, c)) \<Longrightarrow> pos \<le> k \<Longrightarrow> k < c \<Longrightarrow> c \<le> length buf \<Longrightarrow>
     parse_args (take k buf) n pos argv = Inr None"
proof (induction n arbitrary: pos argv)
  case (Suc n)
  from Suc.prems(1) obtain a len where a: "arg_at buf pos a len"
    "parse_args buf n (a + len + 2) (argv @ [slice a (a + len) buf]) = Inr (Some (r, c))" by (rule parse_args_SucE)
  show ?case
  proof (cases "a + len + 2 \<le> k")
    case True
    have "take k (take k buf) = take k buf" by simp
    moreover have "k \<le> length buf" using Suc.prems by simp
    ultimately have "arg_at (take k buf) pos a len" using arg_at_local [OF a(1), of k] True by simp
    moreover have "slice a (a + len) (take k buf) = slice a (a + len) buf" using True by (simp add: slice_take)
    ultimately show ?thesis using Suc.IH [OF a(2) True Suc.prems(3,4)] by (simp only: parse_args_arg)
  next
    case False
    obtain l where l: "read_line buf (pos + 1) = Some (l, a)" "parse_int l = Inr (int len)"
        "buf ! pos = CHR ''$''" "int len \<le> MAX_BULK_LEN" using a(1) by (auto simp: arg_at_def)
    from read_line_prefix [OF l(1), of k] l False Suc.prems show ?thesis
      by (cases "pos = k") (auto simp: Let_def)
  qed
qed simp

lemma array_head:
  assumes "parse_command buf = Inr (Some (argv, c))" "buf \<noteq> []" "buf ! 0 = CHR ''*''"
  obtains line pos n where "read_line buf 1 = Some (line, pos)" "parse_int line = Inr n"
    "n < 0 \<and> argv = [] \<and> c = pos \<or> 0 \<le> n \<and> n \<le> MAX_ARRAY_LEN \<and> parse_args buf (nat n) pos [] = Inr (Some (argv, c))"
proof -
  from assms obtain line pos n where "read_line buf 1 = Some (line, pos)" "parse_int line = Inr n"
    "n < 0 \<and> argv = [] \<and> c = pos \<or> 0 \<le> n \<and> n \<le> MAX_ARRAY_LEN \<and> parse_args buf (nat n) pos [] = Inr (Some (argv, c))"
    by (auto simp: parse_command_def parse_array_command_def split: option.splits sum.splits if_splits)
  then show thesis by (rule that)
qed

lemma parse_command_nonempty: "parse_command buf = Inr (Some r) \<Longrightarrow> buf \<noteq> []"
  by (auto simp: parse_command_def)

lemma parse_command_bounds:
  assumes "parse_command buf = Inr (Some (argv, c))" shows "2 \<le> c \<and> c \<le> length buf"
proof (cases "buf ! 0 = CHR ''*''")
  case True
  from array_head [OF assms parse_command_nonempty [OF assms] True] obtain line pos n where
    "read_line buf 1 = Some (line, pos)" "parse_int line = Inr n"
    "n < 0 \<and> argv = [] \<and> c = pos \<or> 0 \<le> n \<and> n \<le> MAX_ARRAY_LEN \<and> parse_args buf (nat n) pos [] = Inr (Some (argv, c))" .
  with read_lineD(1,2) [of buf 1 line pos] parse_args_bounds [of buf "nat n" pos "[]" argv c] show ?thesis by auto
next
  case False
  with assms parse_command_nonempty [OF assms] show ?thesis
    by (auto simp: parse_command_def parse_inline_command_def split: option.splits if_splits dest: read_lineD)
qed

lemma parse_command_local:
  assumes "parse_command buf = Inr (Some (argv, c))" "take c buf' = take c buf"
  shows "parse_command buf' = Inr (Some (argv, c))"
proof -
  note b = parse_command_bounds [OF assms(1)]
  have "c \<le> length buf'" using b by (intro length_local [OF assms(2)]) simp
  then have ne: "buf' \<noteq> []" "buf \<noteq> []" and hd: "buf' ! 0 = buf ! 0" using b nth_local [OF assms(2), of 0] by auto
  show ?thesis
  proof (cases "buf ! 0 = CHR ''*''")
    case True
    from array_head [OF assms(1) ne(2) True] obtain line pos n where h: "read_line buf 1 = Some (line, pos)" "parse_int line = Inr n"
      "n < 0 \<and> argv = [] \<and> c = pos \<or> 0 \<le> n \<and> n \<le> MAX_ARRAY_LEN \<and> parse_args buf (nat n) pos [] = Inr (Some (argv, c))" .
    have p: "pos \<le> length buf" using read_lineD(2) [OF h(1)] .
    have "pos \<le> c" using h(3) parse_args_bounds [of buf "nat n" pos "[]" argv c] p by auto
    then have "take pos buf' = take pos buf" by (rule take_local_le [OF assms(2)])
    with read_line_local [OF h(1)] h parse_args_local [of buf "nat n" pos "[]" argv c, OF _ p assms(2)] ne hd True
    show ?thesis by (auto simp: parse_command_def parse_array_command_def)
  next
    case False
    with assms(1) ne(2) obtain line where l: "read_line buf 0 = Some (line, c)" "argv = words line"
      by (auto simp: parse_command_def parse_inline_command_def split: option.splits if_splits)
    from read_line_local [OF l(1) assms(2)] l(2) ne hd False show ?thesis
      by (simp add: parse_command_def parse_inline_command_def)
  qed
qed

lemma parse_array_prefix:
  assumes "parse_command buf = Inr (Some (argv, c))" "buf ! 0 = CHR ''*''" "k < c"
  shows "parse_command (take k buf) = Inr None"
proof -
  note b = parse_command_bounds [OF assms(1)] note ne = parse_command_nonempty [OF assms(1)]
  from array_head [OF assms(1) ne assms(2)] obtain line pos n where h: "read_line buf 1 = Some (line, pos)" "parse_int line = Inr n"
    "n < 0 \<and> argv = [] \<and> c = pos \<or> 0 \<le> n \<and> n \<le> MAX_ARRAY_LEN \<and> parse_args buf (nat n) pos [] = Inr (Some (argv, c))" .
  show ?thesis
  proof (cases "k = 0")
    case False
    with ne assms(2) have "take k buf \<noteq> []" "take k buf ! 0 = CHR ''*''" by auto
    moreover have "parse_array_command (take k buf) = Inr None"
    proof (cases "pos \<le> k")
      case True
      with h assms(3) parse_args_prefix [of buf "nat n" pos "[]" argv c k] b read_line_prefix [OF h(1), of k]
      show ?thesis by (auto simp: parse_array_command_def)
    next
      case False
      with read_line_prefix [OF h(1), of k] show ?thesis by (simp add: parse_array_command_def)
    qed
    ultimately show ?thesis by (simp add: parse_command_def)
  qed (simp add: parse_command_def)
qed

section \<open>Commands on the wire\<close>

text \<open>The array-of-bulk-strings form of a command, as clients, the append-only file, snapshots and the
  replication stream write it.\<close>

definition resp_arg :: "bytes \<Rightarrow> bytes" where
  "resp_arg a = ''$'' @ show_nat (length a) @ CRLF @ a @ CRLF"

definition resp_command :: "bytes list \<Rightarrow> bytes" where
  "resp_command args = ''*'' @ show_nat (length args) @ CRLF @ concat (map resp_arg args)"

definition wire_args :: "bytes list \<Rightarrow> bool" where
  "wire_args args \<longleftrightarrow> int (length args) \<le> MAX_ARRAY_LEN \<and> list_all (\<lambda>a. int (length a) \<le> MAX_BULK_LEN) args"

lemma digits_no_CR: "CR \<notin> set (show_nat n)"
proof -
  have "\<not> is_digit CR" by (simp add: is_digit_def)
  then show ?thesis using show_nat_digits [of n] by (auto simp: list_all_iff)
qed

lemma parse_int_show_nat: "n < 2 ^ 63 \<Longrightarrow> parse_int (show_nat n) = Inr (int n)"
  using parse_i64_show_int [of "int n"] utf8_graphic [OF show_int_graphic [of "int n"]]
  by (simp add: parse_int_def i64_range_def show_int_def)

lemma arg_at_resp_arg:
  assumes "int (length a) \<le> MAX_BULK_LEN"
  shows "arg_at (pre @ resp_arg a @ rest) (length pre) (length pre + length (show_nat (length a)) + 3) (length a)"
    and "slice (length pre + length (show_nat (length a)) + 3) (length pre + length (show_nat (length a)) + 3 + length a)
          (pre @ resp_arg a @ rest) = a"
proof -
  let ?d = "show_nat (length a)" and ?buf = "pre @ resp_arg a @ rest"
  have line: "read_line ?buf (length pre + 1) = Some (?d, length pre + length ?d + 3)"
    using read_line_append [OF digits_no_CR [of "length a"], of "pre @ ''$''" "a @ CRLF @ rest"]
    by (simp add: resp_arg_def)
  have buf: "?buf = (pre @ ''$'' @ ?d @ CRLF) @ a @ CRLF @ rest" by (simp add: resp_arg_def)
  show "slice (length pre + length ?d + 3) (length pre + length ?d + 3 + length a) ?buf = a"
    unfolding buf using slice_append [of "pre @ ''$'' @ ?d @ CRLF" a "CRLF @ rest"] by (simp add: algebra_simps eval_nat_numeral)
  have "slice (length pre + length ?d + 3 + length a) (length pre + length ?d + 3 + length a + 2) ?buf = CRLF"
    unfolding buf using slice_append [of "(pre @ ''$'' @ ?d @ CRLF) @ a" CRLF rest] by (simp add: algebra_simps eval_nat_numeral)
  moreover have "length a < 2 ^ 63" using assms by (simp add: MAX_BULK_LEN_def)
  ultimately show "arg_at ?buf (length pre) (length pre + length ?d + 3) (length a)"
    using assms line parse_int_show_nat by (auto simp: arg_at_def nth_append resp_arg_def)
qed

lemma parse_args_resp:
  "list_all (\<lambda>a. int (length a) \<le> MAX_BULK_LEN) args \<Longrightarrow>
   parse_args (pre @ concat (map resp_arg args) @ rest) (length args) (length pre) argv =
     Inr (Some (argv @ args, length pre + length (concat (map resp_arg args))))"
proof (induction args arbitrary: pre argv)
  case (Cons a args)
  let ?buf = "pre @ resp_arg a @ concat (map resp_arg args) @ rest"
  have len: "int (length a) \<le> MAX_BULK_LEN" using Cons.prems by simp
  note arg = arg_at_resp_arg [OF len, of pre "concat (map resp_arg args) @ rest"]
  have "parse_args ?buf (Suc (length args)) (length pre) argv =
      parse_args ?buf (length args) (length (pre @ resp_arg a)) (argv @ [a])"
    unfolding parse_args_arg [OF arg(1)] arg(2) by (simp add: resp_arg_def algebra_simps eval_nat_numeral)
  also have "\<dots> = Inr (Some (argv @ a # args, length pre + length (concat (map resp_arg (a # args)))))"
    using Cons.IH [of "pre @ resp_arg a" "argv @ [a]"] Cons.prems by simp
  finally show ?case by simp
qed simp

lemma parse_resp_command:
  assumes "wire_args args"
  shows "parse_command (resp_command args @ rest) = Inr (Some (args, length (resp_command args)))"
proof -
  let ?d = "show_nat (length args)" and ?buf = "resp_command args @ rest"
  have line: "read_line ?buf 1 = Some (?d, length ?d + 3)"
    using read_line_append [OF digits_no_CR [of "length args"], of "''*''" "concat (map resp_arg args) @ rest"]
    by (simp add: resp_command_def)
  have "parse_args ?buf (length args) (length ?d + 3) [] = Inr (Some (args, length (resp_command args)))"
    using parse_args_resp [of args "''*'' @ ?d @ CRLF" rest "[]"] assms
    by (simp add: resp_command_def wire_args_def eval_nat_numeral)
  moreover have "parse_int ?d = Inr (int (length args))"
    using assms by (intro parse_int_show_nat) (simp add: wire_args_def MAX_ARRAY_LEN_def)
  ultimately have "parse_array_command ?buf = Inr (Some (args, length (resp_command args)))"
    using line assms by (simp add: parse_array_command_def wire_args_def)
  then show ?thesis by (simp add: parse_command_def resp_command_def)
qed

section \<open>Numbers without allocation\<close>

lemma write_uint_loop_digits:
  "0 < v \<Longrightarrow> length (show_nat (unat v)) \<le> i \<Longrightarrow> i \<le> length tmp \<Longrightarrow>
   returns (write_uint_loop tmp i v) (\<lambda>(tmp', j). j + length (show_nat (unat v)) = i
      \<and> drop j tmp' = show_nat (unat v) @ drop i tmp)"
proof (induction "unat v" arbitrary: v tmp i rule: less_induct)
  case less
  let ?tmp = "tmp[i - 1 := digit_char (unat (v mod 10))]"
  have "0 < length (show_nat (unat v))" by simp
  then have i: "1 \<le> i" "i - 1 < length tmp" using less.prems by linarith+
  have dm: "unat (v div 10) = unat v div 10" "unat (v mod 10) = unat v mod 10" by (simp_all add: unat_div unat_mod)
  have d1: "drop (i - 1) ?tmp = digit_char (unat v mod 10) # drop i tmp"
    using i by (simp add: drop_update_swap Cons_nth_drop_Suc [symmetric] dm)
  have step: "write_uint_loop tmp i v = write_uint_loop ?tmp (i - 1) (v div 10)"
    using less.prems(1) i by (subst write_uint_loop.simps) simp
  show ?case
  proof (cases "unat v < 10")
    case True
    then have "v div 10 = 0" using dm(1) by (simp add: unat_eq_zero [symmetric] del: unat_eq_zero)
    then have "write_uint_loop ?tmp (i - 1) (v div 10) = Some (?tmp, i - 1)"
      by (subst write_uint_loop.simps) simp
    moreover have "show_nat (unat v) = [digit_char (unat v mod 10)]" using True by (subst show_nat.simps) simp
    ultimately show ?thesis using d1 i unfolding step by simp
  next
    case False
    then have pos: "0 < v div 10" using dm(1) by (simp add: word_less_nat_alt)
    have sh: "show_nat (unat v) = show_nat (unat (v div 10)) @ [digit_char (unat v mod 10)]"
      using False dm by (subst show_nat.simps) simp
    have "returns (write_uint_loop ?tmp (i - 1) (v div 10)) (\<lambda>(tmp', j). j + length (show_nat (unat (v div 10))) = i - 1
        \<and> drop j tmp' = show_nat (unat (v div 10)) @ drop (i - 1) ?tmp)"
      using less.prems i sh False by (intro less.hyps pos) (auto simp: dm)
    then show ?thesis unfolding step sh d1 using i by (auto simp: returns_iff)
  qed
qed

lemma show_nat_length: "n < 10 ^ Suc k \<Longrightarrow> length (show_nat n) \<le> Suc k"
proof (induction k arbitrary: n)
  case 0
  then show ?case by (subst show_nat.simps) simp
next
  case (Suc k)
  then have "n div 10 < 10 ^ Suc k" by (simp add: less_mult_imp_div_less algebra_simps)
  from Suc.IH [OF this] show ?case by (subst show_nat.simps) simp
qed

lemma write_uint_show: "write_uint out v = Some (out @ show_nat (unat v))"
proof (cases "v = 0")
  case True
  moreover have "show_nat 0 = ''0''" by code_simp
  ultimately show ?thesis by (simp add: write_uint_def)
next
  case False
  then have v: "0 < v" by (simp add: word_gt_0)
  have "unat v < 2 ^ 64" using unsigned_less [of v] by simp
  then have "unat v < 10 ^ Suc 19" by simp
  from show_nat_length [OF this] have "length (show_nat (unat v)) \<le> 20" by simp
  from write_uint_loop_digits [OF v this, of "replicate 20 (CHR 0x00)"] False show ?thesis
    by (auto simp: write_uint_def returns_iff)
qed

lemma unat_of_int_u64: "0 \<le> n \<Longrightarrow> n < 2 ^ 64 \<Longrightarrow> unat (of_int n :: u64) = nat n"
  by (simp add: unsigned_of_int take_bit_int_eq_self)

lemma write_int_show:
  assumes "i64_range n" shows "write_int out n = Some (out @ '':'' @ show_int n @ CRLF)"
proof (cases "n < 0")
  case True
  then have "unat (of_int (- n) :: u64) = nat (- n)"
    using assms by (intro unat_of_int_u64) (auto simp: i64_range_def)
  with True show ?thesis by (simp add: write_int_def write_uint_show show_int_def)
next
  case False
  then have "unat (of_int n :: u64) = nat n"
    using assms by (intro unat_of_int_u64) (auto simp: i64_range_def)
  with False show ?thesis by (simp add: write_int_def write_uint_show show_int_def)
qed

section \<open>Reply boundaries\<close>

text \<open>Replies that are their own reading on the wire: RESP2 has no null, boolean, double or map of
  its own, and RESP3 one null for all. Status and error lines must not contain a carriage return.
  (The text of a double comes from the formatter, so doubles are left out; no command replies
  with one.)\<close>

fun canonical :: "bool \<Rightarrow> reply \<Rightarrow> bool" where
  "canonical resp3 (R_Simple s) \<longleftrightarrow> CR \<notin> set s"
| "canonical resp3 (R_Error s) \<longleftrightarrow> CR \<notin> set s"
| "canonical resp3 (R_Int n) \<longleftrightarrow> True"
| "canonical resp3 (R_Bulk b) \<longleftrightarrow> resp3 \<longrightarrow> b \<noteq> None"
| "canonical resp3 (R_Array None) \<longleftrightarrow> \<not> resp3"
| "canonical resp3 (R_Array (Some items)) \<longleftrightarrow> list_all (canonical resp3) items"
| "canonical resp3 R_Null \<longleftrightarrow> resp3"
| "canonical resp3 (R_Bool b) \<longleftrightarrow> resp3"
| "canonical resp3 (R_Double d) \<longleftrightarrow> False"
| "canonical resp3 (R_Map ps) \<longleftrightarrow> resp3 \<and> list_all (\<lambda>(k, v). canonical resp3 k \<and> canonical resp3 v) ps"

lemma line_unique:
  assumes "l @ CR # x = m @ CR # y" "CR \<notin> set l" "CR \<notin> set m" shows "l = m \<and> x = y"
  using assms
proof (induction l arbitrary: m)
  case Nil
  then show ?case by (cases m) auto
next
  case (Cons a l)
  then show ?case by (cases m) auto
qed

lemma show_nat_inject [simp]: "show_nat m = show_nat n \<longleftrightarrow> m = n"
  by (metis digits_val_show_nat)

lemma show_int_inject [simp]: "show_int m = show_int n \<longleftrightarrow> m = n"
  by (metis parse_signed_show_int option.inject)

lemma show_int_no_CR: "CR \<notin> set (show_int i)"
  using digits_no_CR by (auto simp: show_int_def)

lemma show_nat_hd: "show_nat n = c # s \<Longrightarrow> c \<noteq> CHR ''-''"
  using show_nat_digits [of n] by (auto simp: is_digit_def)

lemma length_line_unique:
  "show_nat m @ CR # x = show_nat n @ CR # y \<Longrightarrow> m = n \<and> x = y"
  using line_unique [OF _ digits_no_CR digits_no_CR, of m x n y] by simp

lemma int_line_unique:
  "show_int m @ CR # x = show_int n @ CR # y \<Longrightarrow> m = n \<and> x = y"
  using line_unique [OF _ show_int_no_CR show_int_no_CR, of m x n y] by simp

lemma null_line [simp]: "CHR ''-'' # s \<noteq> show_nat n @ t" "show_nat n @ t \<noteq> CHR ''-'' # s"
  using show_nat_hd [of n] by (cases "show_nat n"; force)+

text \<open>Items read one after the other are recovered one by one.\<close>

definition readable :: "('a \<Rightarrow> bool) \<Rightarrow> ('a \<Rightarrow> bytes) \<Rightarrow> 'a \<Rightarrow> bool" where
  "readable Q f r \<longleftrightarrow> (\<forall>s x y. Q s \<longrightarrow> f r @ x = f s @ y \<longrightarrow> r = s \<and> x = y)"

lemma readableI:
  "(\<And>s x y. Q s \<Longrightarrow> f r @ x = f s @ y \<Longrightarrow> r = s \<and> x = y) \<Longrightarrow> readable Q f r"
  unfolding readable_def by blast

lemma readableD: "readable Q f r \<Longrightarrow> Q s \<Longrightarrow> f r @ x = f s @ y \<Longrightarrow> r = s \<and> x = y"
  unfolding readable_def by blast

lemma concat_readable:
  "length rs = length ss \<Longrightarrow> list_all (readable Q f) rs \<Longrightarrow> list_all Q ss \<Longrightarrow>
   concat (map f rs) @ x = concat (map f ss) @ y \<Longrightarrow> rs = ss \<and> x = y"
proof (induction rs ss rule: list_induct2)
  case (Cons r rs s ss)
  have "r = s \<and> concat (map f rs) @ x = concat (map f ss) @ y"
    using Cons.prems by (intro readableD [of Q f r s]) simp_all
  with Cons show ?case by simp
qed simp

lemma readable_pair:
  assumes "readable Q f k" "readable Q f v"
  shows "readable (\<lambda>(k, v). Q k \<and> Q v) (\<lambda>(k, v). f k @ f v) (k, v)"
proof (rule readableI)
  fix s :: "'a \<times> 'a" and x y
  obtain k' v' where s: "s = (k', v')" by (cases s)
  assume "case s of (k, v) \<Rightarrow> Q k \<and> Q v" "(case (k, v) of (k, v) \<Rightarrow> f k @ f v) @ x = (case s of (k, v) \<Rightarrow> f k @ f v) @ y"
  then have "Q k'" "Q v'" "f k @ f v @ x = f k' @ f v' @ y" by (simp_all add: s)
  with readableD [OF assms(1), of k' "f v @ x" "f v' @ y"] readableD [OF assms(2), of v' x y] show "(k, v) = s \<and> x = y"
    by (simp add: s)
qed

fun is_atomic :: "reply \<Rightarrow> bool" where
  "is_atomic (R_Array (Some items)) \<longleftrightarrow> False"
| "is_atomic (R_Map ps) \<longleftrightarrow> False"
| "is_atomic _ \<longleftrightarrow> True"

lemma encode_atomic_unique:
  assumes "is_atomic r" "canonical resp3 r"
  shows "readable (canonical resp3) (reply_encode fmt resp3) r"
proof (rule readableI)
  fix s x y
  assume "canonical resp3 s" "reply_encode fmt resp3 r @ x = reply_encode fmt resp3 s @ y"
  with assms show "r = s \<and> x = y"
    by (cases "(fmt, resp3, r)" rule: reply_encode.cases; cases "(fmt, resp3, s)" rule: reply_encode.cases)
       (auto dest: line_unique int_line_unique dest!: length_line_unique split: if_splits)
qed

lemma encode_unique: "canonical resp3 r \<Longrightarrow> readable (canonical resp3) (reply_encode fmt resp3) r"
proof (induction r)
  case (R_Array a)
  show ?case
  proof (cases a)
    case (Some items)
    have it: "list_all (readable (canonical resp3) (reply_encode fmt resp3)) items"
      using R_Array Some by (auto simp: list_all_iff)
    show ?thesis unfolding Some
    proof (rule readableI)
      fix s x y
      assume "canonical resp3 s" "reply_encode fmt resp3 (R_Array (Some items)) @ x = reply_encode fmt resp3 s @ y"
      then show "R_Array (Some items) = s \<and> x = y"
        using concat_readable [OF _ it]
        by (cases "(fmt, resp3, s)" rule: reply_encode.cases) (auto dest!: length_line_unique split: if_splits)
    qed
  next
    case None
    with R_Array.prems show ?thesis by (intro encode_atomic_unique) auto
  qed
next
  case (R_Map ps)
  let ?Q = "\<lambda>(k, v). canonical resp3 k \<and> canonical resp3 v"
  let ?f = "\<lambda>(k, v). reply_encode fmt resp3 k @ reply_encode fmt resp3 v"
  have it: "list_all (readable ?Q ?f) ps"
    unfolding list_all_iff
  proof
    fix p assume p: "p \<in> set ps"
    obtain k v where kv: "p = (k, v)" by (cases p)
    have "canonical resp3 k" "canonical resp3 v" using R_Map.prems p kv by (auto simp: list_all_iff)
    then show "readable ?Q ?f p" unfolding kv using R_Map.IH p kv by (intro readable_pair) auto
  qed
  show ?case
  proof (rule readableI)
    fix s x y
    assume "canonical resp3 s" "reply_encode fmt resp3 (R_Map ps) @ x = reply_encode fmt resp3 s @ y"
    then show "R_Map ps = s \<and> x = y"
      using concat_readable [OF _ it] R_Map.prems
      by (cases "(fmt, resp3, s)" rule: reply_encode.cases) (auto dest!: length_line_unique split: if_splits)
  qed
qed (rule encode_atomic_unique; simp)+

section \<open>Properties\<close>

text \<open>C20: Commands survive the wire. A command written as an array of bulk strings, within the limits on
  the number and the length of arguments, is parsed back to exactly its arguments, whatever bytes
  they contain and whatever follows in the buffer, and exactly its own bytes are consumed.\<close>

theorem command_roundtrip:
  assumes "length args \<le> 2 ^ 20" "\<forall>a \<in> set args. length a \<le> 2 ^ 29"
  shows "parse_command (resp_command args @ rest) = Inr (Some (args, length (resp_command args)))"
  using assms
  by (intro parse_resp_command) (force simp: wire_args_def MAX_ARRAY_LEN_def MAX_BULK_LEN_def list_all_iff)

theorem command_roundtrip_witness:
  "parse_command (resp_command [''SET'', ''k'', [CR, LF]] @ ''*1'') = Inr (Some ([''SET'', ''k'', [CR, LF]], 28))"
proof -
  have "length (resp_command [''SET'', ''k'', [CR, LF]]) = 28" by code_simp
  then show ?thesis using command_roundtrip [of "[''SET'', ''k'', [CR, LF]]" "''*1''"] by simp
qed

lemma parse_ranges:
  "parse_command buf = resolve_result buf (parse_command_ranges buf)
   \<and> (\<forall>rs c. parse_command_ranges buf = Inr (Some (rs, c)) \<longrightarrow> c \<le> length buf \<and> list_all (\<lambda>(off, len). off + len \<le> c) rs)"
proof (cases "buf = []")
  case ne: False
  show ?thesis
  proof (cases "buf ! 0 = CHR ''*''")
    case True
    have "c \<le> length buf \<and> list_all (\<lambda>(off, len). off + len \<le> c) rs"
      if "read_line buf 1 = Some (line, pos)" "parse_arg_ranges buf n pos [] = Inr (Some (rs, c))" for line pos n rs c
      using parse_arg_ranges_bound [OF that(2) read_lineD(2) [OF that(1)]] by simp
    with ne True parse_args_ranges [of buf _ _ "[]"] show ?thesis
      by (auto simp: parse_command_def parse_array_command_def parse_command_ranges_def dest: read_lineD(2)
          split: option.splits sum.splits if_splits)
  next
    case False
    with ne inline_agree [of buf] show ?thesis
      by (auto simp: parse_command_def parse_inline_command_def parse_command_ranges_def dest: read_lineD(2)
          split: option.splits if_splits)
  qed
qed (simp add: parse_command_def parse_command_ranges_def)

lemma parse_ranges_bounds:
  assumes "parse_command_ranges buf = Inr (Some (rs, c))"
  shows "0 < c \<and> c \<le> length buf"
proof -
  have "parse_command buf = Inr (Some (map (resolve buf) rs, c))" using parse_ranges [of buf] assms by simp
  from parse_command_bounds [OF this] show ?thesis by simp
qed

text \<open>C21: The zero-copy parser of the connection loop agrees with the owned parser used for replay and
  replication on every buffer: same errors, same demand for more input, same consumption, and
  ranges that denote the same arguments and lie inside the consumed bytes.\<close>

theorem ranges_agree:
  "parse_command buf = resolve_result buf (parse_command_ranges buf)
   \<and> (\<forall>rs c. parse_command_ranges buf = Inr (Some (rs, c)) \<longrightarrow> c \<le> length buf \<and> list_all (\<lambda>(off, len). off + len \<le> c) rs)"
  by (rule parse_ranges)

theorem ranges_agree_witness:
  "parse_command_ranges (''GET  k'' @ CRLF) = Inr (Some ([(0, 3), (5, 1)], 8))
   \<and> parse_command (''GET  k'' @ CRLF) = Inr (Some ([''GET'', ''k''], 8)) \<and> list_all (\<lambda>(off, len). off + len \<le> 8) [(0, 3), (5, 1 :: nat)]"
proof -
  have "parse_command_ranges (''GET  k'' @ CRLF) = Inr (Some ([(0, 3), (5, 1)], 8))" by code_simp
  then show ?thesis using ranges_agree [of "''GET  k'' @ CRLF"] by (simp add: slice_def)
qed

text \<open>C22: Framing does not depend on how the bytes arrive. A parsed command consumes at least two bytes
  and no more than there are; the result depends on the consumed bytes only; and no shorter prefix
  of an array command is taken for a command or for an error: the parser asks for more.\<close>

theorem parse_framing:
  assumes "parse_command buf = Inr (Some (argv, c))"
  shows "2 \<le> c \<and> c \<le> length buf
    \<and> (\<forall>buf'. take c buf' = take c buf \<longrightarrow> parse_command buf' = Inr (Some (argv, c)))
    \<and> (buf ! 0 = CHR ''*'' \<longrightarrow> (\<forall>k < c. parse_command (take k buf) = Inr None))"
  using parse_command_bounds [OF assms] parse_command_local [OF assms] parse_array_prefix [OF assms] by blast

theorem parse_framing_witness:
  "parse_command (take 3 (resp_command [''GET'', ''k''])) = Inr None
   \<and> parse_command (take 15 (resp_command [''GET'', ''k''])) = Inr None"
proof -
  have "wire_args [''GET'', ''k'']" by (simp add: wire_args_def MAX_ARRAY_LEN_def MAX_BULK_LEN_def)
  from parse_resp_command [OF this, of "[]"]
  have "parse_command (resp_command [''GET'', ''k'']) = Inr (Some ([''GET'', ''k''], length (resp_command [''GET'', ''k''])))" by simp
  moreover have "length (resp_command [''GET'', ''k'']) = 20" by code_simp
  ultimately have p: "parse_command (resp_command [''GET'', ''k'']) = Inr (Some ([''GET'', ''k''], 20))" by simp
  have "resp_command [''GET'', ''k''] ! 0 = CHR ''*''" by (simp add: resp_command_def)
  with parse_framing [OF p] have "\<forall>k < 20. parse_command (take k (resp_command [''GET'', ''k''])) = Inr None" by blast
  then show ?thesis by simp
qed

text \<open>The allocation-free number writer never leaves its 20-byte buffer and writes the decimal form
  of every 64-bit value.\<close>

theorem write_uint_correct: "write_uint out v = Some (out @ show_nat (unat v))"
  by (rule write_uint_show)

lemma write_bulk_show:
  assumes "length data < 2 ^ 64"
  shows "write_bulk out data = Some (out @ reply_encode fmt resp3 (R_Bulk (Some data)))"
proof -
  have "unat (of_nat (length data) :: u64) = length data"
    using assms by (simp add: unsigned_of_nat take_bit_nat_eq_self)
  then show ?thesis by (simp add: write_bulk_def write_uint_show)
qed

text \<open>The direct writers of the fast path produce the bytes that encoding the corresponding reply
  produces, in both protocol versions.\<close>

theorem writers_agree:
  assumes "i64_range n" "length data < 2 ^ 64"
  shows "write_int out n = Some (out @ reply_encode fmt resp3 (R_Int n))
    \<and> write_bulk out data = Some (out @ reply_encode fmt resp3 (R_Bulk (Some data)))
    \<and> write_null out resp3 = out @ reply_encode fmt resp3 (R_Bulk None)
    \<and> write_simple out s = out @ reply_encode fmt resp3 (R_Simple s)
    \<and> write_error out s = out @ reply_encode fmt resp3 (R_Error s)"
  using write_int_show [OF assms(1)] write_bulk_show [OF assms(2)]
  by (simp add: write_null_def write_simple_def write_error_def)

theorem writers_agree_witness: "write_int ''x'' (- 1) = Some (''x:-1'' @ CRLF)"
proof -
  have "show_int (- 1) = ''-1''" by code_simp
  with writers_agree [of "- 1" "[]" "''x''" "\<lambda>_. []" False "[]"] show ?thesis
    by (simp add: i64_range_def)
qed



end
