(* ===== verification/Snapshot.thy ===== *)
theory Snapshot
  imports Store Resp
begin

unbundle bit_operations_syntax

text \<open>
  The dump of a store as commands that recreate it (\<^verbatim>\<open>dump_commands\<close>, \<^verbatim>\<open>encode_recreate\<close>, \<^verbatim>\<open>fmt_score\<close> and
  \<^verbatim>\<open>write_cmd\<close> of \<^verbatim>\<open>crates/core/src/store.rs\<close>), used for snapshot files and for the initial
  synchronisation of a replica. The text of a score that is not an integer is \<^verbatim>\<open>format!("{s}")\<close>, a
  parameter. The dump is shown to be the encoding of a list of commands, a function of the live
  entries.
\<close>

section \<open>Scores\<close>

text \<open>A finite pattern stands for \<open>f64_mant d * 2 ^ f64_shift d\<close>, with the sign of bit 63.\<close>

definition f64_mant :: "f64 \<Rightarrow> nat" where
  "f64_mant d = (if f64_exp d = 0 then f64_frac d else f64_frac d + 2 ^ 52)"

definition f64_shift :: "f64 \<Rightarrow> int" where
  "f64_shift d = int (max (f64_exp d) 1) - 1075"

definition is_finite :: "f64 \<Rightarrow> bool" where
  "is_finite d \<longleftrightarrow> f64_exp d \<noteq> 2047"

text \<open>\<^verbatim>\<open>s == s.trunc()\<close> for a finite \<open>s\<close>, and \<^verbatim>\<open>s as i64\<close>, which truncates and saturates.\<close>

definition is_integral :: "f64 \<Rightarrow> bool" where
  "is_integral d \<longleftrightarrow> 0 \<le> f64_shift d \<or> f64_mant d mod 2 ^ nat (- f64_shift d) = 0"

definition f64_magnitude :: "f64 \<Rightarrow> nat" where
  "f64_magnitude d =
     (if 0 \<le> f64_shift d then f64_mant d * 2 ^ nat (f64_shift d) else f64_mant d div 2 ^ nat (- f64_shift d))"

definition f64_as_i64 :: "f64 \<Rightarrow> int" where
  "f64_as_i64 d = max (- (2 ^ 63)) (min (2 ^ 63 - 1) (if bit d 63 then - int (f64_magnitude d) else int (f64_magnitude d)))"

definition fmt_score :: "(f64 \<Rightarrow> string) \<Rightarrow> f64 \<Rightarrow> string" where
  "fmt_score fmt s = (if is_finite s \<and> is_integral s then show_int (f64_as_i64 s) else fmt s)"

section \<open>The dump\<close>

definition write_cmd :: "bytes \<Rightarrow> bytes list \<Rightarrow> bytes" where
  "write_cmd out args =
     foldl (\<lambda>out a. out @ ''$'' @ show_nat (length a) @ CRLF @ a @ CRLF)
       (out @ ''*'' @ show_nat (length args) @ CRLF) args"

fun encode_recreate :: "(f64 \<Rightarrow> string) \<Rightarrow> bytes \<Rightarrow> bytes \<Rightarrow> val \<Rightarrow> bytes" where
  "encode_recreate fmt out key (VStr v) = write_cmd out [''SET'', key, v]"
| "encode_recreate fmt out key (VList l) = write_cmd out ([''RPUSH'', key] @ l)"
| "encode_recreate fmt out key (VHash h) = write_cmd out ([''HSET'', key] @ concat (map (\<lambda>(f, v). [f, v]) h))"
| "encode_recreate fmt out key (VSet s) = write_cmd out ([''SADD'', key] @ s)"
| "encode_recreate fmt out key (VZSet z) =
     (let scores = map (\<lambda>(sc, m). (m, fmt_score fmt (ord_bits sc))) (zs_sorted z) in
      write_cmd out ([''ZADD'', key] @ concat (map (\<lambda>(m, sc). [sc, m]) scores)))"

definition dump_entry :: "(f64 \<Rightarrow> string) \<Rightarrow> u64 \<Rightarrow> bytes \<Rightarrow> bytes \<times> entry \<Rightarrow> bytes" where
  "dump_entry fmt now out = (\<lambda>(k, e).
     if expired now e then out
     else let out = encode_recreate fmt out k (en_value e) in
       (case en_expire_at e of
          Some t \<Rightarrow> write_cmd out [''PEXPIREAT'', k, show_nat (unat t)]
        | None \<Rightarrow> out))"

definition dump_commands :: "(f64 \<Rightarrow> string) \<Rightarrow> u64 \<Rightarrow> store \<Rightarrow> bytes" where
  "dump_commands fmt now st = foldl (\<lambda>out s. foldl (dump_entry fmt now) out (fm_iter (sh_map s))) [] (st_shards st)"

section \<open>The dump as a list of commands\<close>

lemma write_cmd_resp: "write_cmd out args = out @ resp_command args"
proof -
  have "foldl (\<lambda>out a. out @ ''$'' @ show_nat (length a) @ CRLF @ a @ CRLF) out args = out @ concat (map resp_arg args)" for out
    by (induction args arbitrary: out) (simp_all add: resp_arg_def)
  then show ?thesis by (simp add: write_cmd_def resp_command_def)
qed

fun recreate :: "(f64 \<Rightarrow> string) \<Rightarrow> bytes \<Rightarrow> val \<Rightarrow> bytes list" where
  "recreate fmt key (VStr v) = [''SET'', key, v]"
| "recreate fmt key (VList l) = [''RPUSH'', key] @ l"
| "recreate fmt key (VHash h) = [''HSET'', key] @ concat (map (\<lambda>(f, v). [f, v]) h)"
| "recreate fmt key (VSet s) = [''SADD'', key] @ s"
| "recreate fmt key (VZSet z) =
     [''ZADD'', key] @ concat (map (\<lambda>(sc, m). [fmt_score fmt (ord_bits sc), m]) (zs_sorted z))"

definition entry_commands :: "(f64 \<Rightarrow> string) \<Rightarrow> bytes \<times> entry \<Rightarrow> bytes list list" where
  "entry_commands fmt = (\<lambda>(k, e).
     recreate fmt k (en_value e) #
     (case en_expire_at e of Some t \<Rightarrow> [[''PEXPIREAT'', k, show_nat (unat t)]] | None \<Rightarrow> []))"

definition live_entries :: "u64 \<Rightarrow> store \<Rightarrow> (bytes \<times> entry) list" where
  "live_entries now st = concat (map (\<lambda>s. filter (\<lambda>(k, e). \<not> expired now e) (fm_iter (sh_map s))) (st_shards st))"

lemma encode_recreate_resp: "encode_recreate fmt out key v = out @ resp_command (recreate fmt key v)"
  by (cases v) (simp_all add: write_cmd_resp split_def Let_def comp_def)

lemma dump_entry_resp:
  "dump_entry fmt now out (k, e) =
     (if expired now e then out else out @ concat (map resp_command (entry_commands fmt (k, e))))"
  by (simp add: dump_entry_def entry_commands_def encode_recreate_resp write_cmd_resp Let_def split: option.split)

lemma dump_shard_resp:
  "foldl (dump_entry fmt now) out es =
     out @ concat (map resp_command (concat (map (entry_commands fmt) (filter (\<lambda>(k, e). \<not> expired now e) es))))"
  by (induction es arbitrary: out) (auto simp: dump_entry_resp)

lemma dump_commands_resp:
  "dump_commands fmt now st = concat (map resp_command (concat (map (entry_commands fmt) (live_entries now st))))"
proof -
  have "foldl (\<lambda>out s. foldl (dump_entry fmt now) out (fm_iter (sh_map s))) out ss = out @ concat (map resp_command
      (concat (map (entry_commands fmt) (concat (map (\<lambda>s. filter (\<lambda>(k, e). \<not> expired now e) (fm_iter (sh_map s))) ss)))))" for out and ss :: "shard list"
    by (induction ss arbitrary: out) (simp_all add: dump_shard_resp)
  then show ?thesis by (simp add: dump_commands_def live_entries_def)
qed

lemma map_fst_live: "map fst (live_entries now st) = store_keys now st"
  by (simp add: live_entries_def store_keys_def map_concat comp_def)

lemma live_entries_iff:
  assumes inv: "st_inv b st"
  shows "(k, e) \<in> set (live_entries now st) \<longleftrightarrow> store_ks st k = Some e \<and> \<not> expired now e"
proof -
  note D = st_invD [OF inv]
  have iff: "(k, e) \<in> set (fm_iter (sh_map (st_shards st ! i))) \<longleftrightarrow> store_ks st k = Some e \<and> shard_idx st k = i"
    if i: "i < length (st_shards st)" for i
  proof -
    have "fm_inv (sh_map (st_shards st ! i))" using D(2) [OF i] by (simp add: sh_inv_def sh_wf_def sh_core_def)
    from fm.in_iter_iff [OF this, of k e] show ?thesis
      unfolding shard_part [OF inv i] by (auto simp: part_def restrict_map_def)
  qed
  have "(k, e) \<in> set (live_entries now st) \<longleftrightarrow> (\<exists>s \<in> set (st_shards st). (k, e) \<in> set (fm_iter (sh_map s))) \<and> \<not> expired now e"
    unfolding live_entries_def by auto
  also have "(\<exists>s \<in> set (st_shards st). (k, e) \<in> set (fm_iter (sh_map s))) \<longleftrightarrow>
      (\<exists>i < length (st_shards st). (k, e) \<in> set (fm_iter (sh_map (st_shards st ! i))))"
    unfolding set_conv_nth [of "st_shards st"] by blast
  also have "\<dots> \<longleftrightarrow> store_ks st k = Some e"
  proof
    assume "\<exists>i < length (st_shards st). (k, e) \<in> set (fm_iter (sh_map (st_shards st ! i)))"
    then show "store_ks st k = Some e" using iff by blast
  next
    assume "store_ks st k = Some e"
    then have "(k, e) \<in> set (fm_iter (sh_map (st_shards st ! shard_idx st k)))" using iff [OF D(1)] by simp
    then show "\<exists>i < length (st_shards st). (k, e) \<in> set (fm_iter (sh_map (st_shards st ! i)))" using D(1) by blast
  qed
  finally show ?thesis .
qed

lemma live_entries_map:
  assumes inv: "st_inv b st"
  shows "distinct (map fst (live_entries now st))" "map_of (live_entries now st) = (\<lambda>k. vis now (store_ks st k))"
proof -
  show d: "distinct (map fst (live_entries now st))" using store_keys_set(2) [OF inv] by (simp add: map_fst_live)
  show "map_of (live_entries now st) = (\<lambda>k. vis now (store_ks st k))"
  proof (rule ext, rule option.expand)
    fix k
    show "(map_of (live_entries now st) k = None) = (vis now (store_ks st k) = None)"
      using store_keys_set(1) [OF inv, of now] by (auto simp: map_of_eq_None_iff map_fst_live [symmetric])
  next
    fix k
    assume "map_of (live_entries now st) k \<noteq> None" "vis now (store_ks st k) \<noteq> None"
    then obtain e e' where e: "map_of (live_entries now st) k = Some e" "vis now (store_ks st k) = Some e'" by auto
    then have "(k, e) \<in> set (live_entries now st)" by (simp add: map_of_SomeD)
    with e show "the (map_of (live_entries now st) k) = the (vis now (store_ks st k))"
      using live_entries_iff [OF inv, of k e now] by (simp add: vis_def)
  qed
qed

end
