(* ===== verification/Glob.thy ===== *)
theory Glob
  imports Prelude "HOL-Library.Char_ord"
begin

text \<open>
  The pattern matcher of \<^verbatim>\<open>KEYS\<close> and \<^verbatim>\<open>SCAN\<close> (\<^verbatim>\<open>glob_match\<close> of \<^verbatim>\<open>crates/server/src/commands.rs\<close>): an
  iterative matcher that remembers only the last star, and its equivalence with the recursive
  reading of patterns.
\<close>

section \<open>The matcher\<close>

text \<open>The scan of \<^verbatim>\<open>[...]\<close>, up to the closing bracket or the end of the pattern.\<close>

function class_loop :: "bytes \<Rightarrow> char \<Rightarrow> nat \<Rightarrow> bool \<Rightarrow> nat \<times> bool" where
  "class_loop p c i matched =
     (if i < length p \<and> p ! i \<noteq> CHR '']'' then
        if i + 2 < length p \<and> p ! (i + 1) = CHR ''-'' \<and> p ! (i + 2) \<noteq> CHR '']''
        then class_loop p c (i + 3) (matched \<or> p ! i \<le> c \<and> c \<le> p ! (i + 2))
        else class_loop p c (i + 1) (matched \<or> p ! i = c)
      else (i, matched))"
  by pat_completeness auto
termination by (relation "measure (\<lambda>(p, c, i, matched). length p - i)") auto

declare class_loop.simps [simp del]

definition match_class :: "bytes \<Rightarrow> char \<Rightarrow> nat \<times> bool" where
  "match_class p c =
     (let negate = (1 < length p \<and> p ! 1 = CHR ''^'');
          (i, matched) = class_loop p c (if negate then 2 else 1) False
      in (if i < length p then i + 1 else i, matched \<noteq> negate))"

definition glob_rank :: "bytes \<Rightarrow> nat \<Rightarrow> (nat \<times> nat) option \<Rightarrow> nat" where
  "glob_rank s si star =
     (case star of None \<Rightarrow> length s + 2 | Some (sp, ss) \<Rightarrow> if ss \<le> si then length s - ss else length s + 1)"

text \<open>One round of the main loop: the next pattern and string positions and the last star, or
  \<^const>\<open>None\<close> for \<^verbatim>\<open>return false\<close>.\<close>

definition glob_back :: "(nat \<times> nat) option \<Rightarrow> (nat \<times> nat \<times> (nat \<times> nat) option) option" where
  "glob_back star = (case star of Some (sp, ss) \<Rightarrow> Some (sp + 1, ss + 1, Some (sp, ss + 1)) | None \<Rightarrow> None)"

definition glob_round ::
  "bytes \<Rightarrow> bytes \<Rightarrow> nat \<Rightarrow> nat \<Rightarrow> (nat \<times> nat) option \<Rightarrow> (nat \<times> nat \<times> (nat \<times> nat) option) option"
where
  "glob_round pat s pi si star =
     (if pi < length pat then
        if pat ! pi = CHR ''*'' then Some (pi + 1, si, Some (pi, si))
        else if pat ! pi = CHR ''?'' then Some (pi + 1, si + 1, star)
        else if pat ! pi = CHR ''['' then
          let (np, matched) = match_class (drop pi pat) (s ! si) in
          if matched then Some (pi + np, si + 1, star) else glob_back star
        else if pat ! pi = s ! si then Some (pi + 1, si + 1, star)
        else glob_back star
      else glob_back star)"

function glob_loop :: "bytes \<Rightarrow> bytes \<Rightarrow> nat \<Rightarrow> nat \<Rightarrow> (nat \<times> nat) option \<Rightarrow> bool" where
  "glob_loop pat s pi si star =
     (if si < length s then
        (case glob_round pat s pi si star of
           None \<Rightarrow> False
         | Some (pi, si, star) \<Rightarrow> glob_loop pat s pi si star)
      else dropWhile (\<lambda>c. c = CHR ''*'') (drop pi pat) = [])"
  by pat_completeness auto
termination
  by (relation "measures [\<lambda>(pat, s, pi, si, star). glob_rank s si star, \<lambda>(pat, s, pi, si, star). length s - si,
        \<lambda>(pat, s, pi, si, star). length pat - pi]")
     (auto simp: glob_rank_def glob_round_def glob_back_def Let_def split: option.splits if_splits prod.splits)

declare glob_loop.simps [simp del]

definition glob_match :: "bytes \<Rightarrow> bytes \<Rightarrow> bool" where
  "glob_match pat s = glob_loop pat s 0 0 None"

section \<open>The recursive reading\<close>

text \<open>The length of a bracket expression does not depend on the character tested.\<close>

lemma class_loop_fst: "fst (class_loop p c i m) = fst (class_loop p d i m')"
proof (induction p c i m arbitrary: m' rule: class_loop.induct)
  case (1 p c i m)
  show ?case
    by (subst (1 2) class_loop.simps) (use 1 in auto)
qed

lemma class_loop_ge: "i \<le> fst (class_loop p c i m)"
proof (induction p c i m rule: class_loop.induct)
  case (1 p c i m)
  show ?case by (subst class_loop.simps) (use 1 in auto)
qed

lemma class_loop_le: "i \<le> length p \<Longrightarrow> fst (class_loop p c i m) \<le> length p"
proof (induction p c i m rule: class_loop.induct)
  case (1 p c i m)
  show ?case by (subst class_loop.simps) (use 1 in auto)
qed

definition token_length :: "bytes \<Rightarrow> nat" where
  "token_length p = (if hd p = CHR ''['' then fst (match_class p (CHR ''x'')) else 1)"

lemma match_class_fst: "fst (match_class p c) = fst (match_class p d)"
  using class_loop_fst [of p c _ False d False] by (simp add: match_class_def split_def Let_def)

lemma token_length_pos: "0 < token_length p"
  using class_loop_ge [of "Suc 0" p "CHR ''x''" False] class_loop_ge [of 2 p "CHR ''x''" False]
  by (auto simp: token_length_def match_class_def split_def Let_def)

text \<open>Does the first token, which is no star, accept the character?\<close>

definition accepts :: "bytes \<Rightarrow> char \<Rightarrow> bool" where
  "accepts p c \<longleftrightarrow> (if hd p = CHR ''?'' then True else if hd p = CHR ''['' then snd (match_class p c) else hd p = c)"

function glob :: "bytes \<Rightarrow> bytes \<Rightarrow> bool" where
  "glob p s =
     (if p = [] then s = []
      else if hd p = CHR ''*'' then (if glob (tl p) s then True else case s of [] \<Rightarrow> False | _ # t \<Rightarrow> glob p t)
      else (case s of [] \<Rightarrow> False | c # t \<Rightarrow> if accepts p c then glob (drop (token_length p) p) t else False))"
  by pat_completeness auto
termination
  by (relation "measure (\<lambda>(p, s). length p + length s)") (auto simp: token_length_pos)

declare glob.simps [simp del]

lemma glob_Nil: "glob [] s \<longleftrightarrow> s = []"
  by (subst glob.simps) simp

lemma glob_star: "glob (CHR ''*'' # p) s \<longleftrightarrow> (\<exists>j \<le> length s. glob p (drop j s))"
proof (induction s)
  case Nil
  show ?case by (subst glob.simps) simp
next
  case (Cons c t)
  have "(\<exists>j \<le> length (c # t). glob p (drop j (c # t))) \<longleftrightarrow> glob p (c # t) \<or> (\<exists>j \<le> length t. glob p (drop j t))"
    by (metis (no_types, lifting) Suc_le_mono drop0 drop_Suc_Cons le0 length_Cons not0_implies_Suc)
  with Cons.IH show ?case by (subst glob.simps) simp
qed

lemma glob_token:
  "hd p \<noteq> CHR ''*'' \<Longrightarrow> p \<noteq> [] \<Longrightarrow>
   glob p s \<longleftrightarrow> (case s of [] \<Rightarrow> False | c # t \<Rightarrow> accepts p c \<and> glob (drop (token_length p) p) t)"
  by (subst glob.simps) (auto split: list.splits)

section \<open>Equivalence\<close>

text \<open>The rest of the pattern matches the rest of the string.\<close>

definition matches_at :: "bytes \<Rightarrow> bytes \<Rightarrow> nat \<Rightarrow> nat \<Rightarrow> bool" where
  "matches_at pat s pi si \<longleftrightarrow> glob (drop pi pat) (drop si s)"

text \<open>\<open>n\<close> tokens other than stars lead from position \<open>a\<close> of the pattern to position \<open>b\<close>.\<close>

inductive segment :: "bytes \<Rightarrow> nat \<Rightarrow> nat \<Rightarrow> nat \<Rightarrow> bool" for pat where
  seg_refl: "segment pat a a 0"
| seg_step: "segment pat a b n \<Longrightarrow> b < length pat \<Longrightarrow> pat ! b \<noteq> CHR ''*'' \<Longrightarrow>
     segment pat a (b + token_length (drop b pat)) (Suc n)"

lemma matches_token:
  assumes "pi < length pat" "pat ! pi \<noteq> CHR ''*''"
  shows "matches_at pat s pi si \<longleftrightarrow>
    si < length s \<and> accepts (drop pi pat) (s ! si) \<and> matches_at pat s (pi + token_length (drop pi pat)) (si + 1)"
proof -
  have "hd (drop pi pat) = pat ! pi" "drop pi pat \<noteq> []" using assms by (simp_all add: hd_drop_conv_nth)
  then have "glob (drop pi pat) (drop si s) \<longleftrightarrow>
      (case drop si s of [] \<Rightarrow> False | c # t \<Rightarrow> accepts (drop pi pat) c \<and> glob (drop (token_length (drop pi pat)) (drop pi pat)) t)"
    using assms(2) by (simp add: glob_token)
  then show ?thesis
    by (cases "si < length s") (simp_all add: matches_at_def Cons_nth_drop_Suc [symmetric] add.commute)
qed

lemma matches_star:
  assumes "pi < length pat" "pat ! pi = CHR ''*''"
  shows "matches_at pat s pi si \<longleftrightarrow> (\<exists>j \<ge> si. (j \<le> length s \<or> j = si) \<and> matches_at pat s (pi + 1) j)"
proof -
  have d: "drop pi pat = CHR ''*'' # drop (pi + 1) pat" using assms by (simp add: Cons_nth_drop_Suc [symmetric])
  have "matches_at pat s pi si \<longleftrightarrow> (\<exists>j \<le> length s - si. glob (drop (pi + 1) pat) (drop (si + j) s))"
    unfolding matches_at_def d glob_star by (simp add: add.commute)
  also have "\<dots> \<longleftrightarrow> (\<exists>j \<ge> si. (j \<le> length s \<or> j = si) \<and> matches_at pat s (pi + 1) j)"
    unfolding matches_at_def
    by (rule iffI; elim exE conjE) (metis le_add1 le_add_diff_inverse2 le_diff_conv2 nat_le_linear add.commute diff_is_0_eq' le_zero_eq add_0_right,
        metis le_add_diff_inverse le_diff_conv2 diff_le_mono le0 diff_self_eq_0 nat_le_linear)
  finally show ?thesis .
qed

lemma segment_matches:
  "segment pat a b n \<Longrightarrow> matches_at pat s a j \<Longrightarrow> j \<le> length s \<Longrightarrow> j + n \<le> length s \<and> matches_at pat s b (j + n)"
  by (induction rule: segment.induct) (auto simp: matches_token)

text \<open>What the remembered star still offers: to match anything longer than it does now.\<close>

definition star_ok :: "bytes \<Rightarrow> nat \<Rightarrow> nat \<Rightarrow> (nat \<times> nat) option \<Rightarrow> bool" where
  "star_ok pat pi si star \<longleftrightarrow>
     (case star of None \<Rightarrow> True | Some (sp, ss) \<Rightarrow> ss \<le> si \<and> segment pat (sp + 1) pi (si - ss))"

definition later :: "bytes \<Rightarrow> bytes \<Rightarrow> (nat \<times> nat) option \<Rightarrow> bool" where
  "later pat s star \<longleftrightarrow>
     (case star of None \<Rightarrow> False | Some (sp, ss) \<Rightarrow> \<exists>j > ss. j \<le> length s \<and> matches_at pat s (sp + 1) j)"

lemma later_matches:
  assumes "star_ok pat pi si star" "later pat s star"
  obtains j where "si < j" "j \<le> length s" "matches_at pat s pi j"
proof -
  obtain sp ss j where s: "star = Some (sp, ss)" "ss < j" "j \<le> length s" "matches_at pat s (sp + 1) j"
    using assms(2) by (auto simp: later_def split: option.splits)
  have seg: "ss \<le> si" "segment pat (sp + 1) pi (si - ss)" using assms(1) by (simp_all add: star_ok_def s(1))
  from segment_matches [OF seg(2) s(4,3)] seg(1) s(2) that [of "j + (si - ss)"] show thesis by auto
qed

lemma star_ok_step:
  assumes "star_ok pat pi si star" "pi < length pat" "pat ! pi \<noteq> CHR ''*''"
  shows "star_ok pat (pi + token_length (drop pi pat)) (si + 1) star"
  using assms seg_step by (auto simp: star_ok_def Suc_diff_le split: option.splits)

text \<open>A round keeps what can still be matched.\<close>

definition reading :: "bytes \<Rightarrow> bytes \<Rightarrow> nat \<Rightarrow> nat \<Rightarrow> (nat \<times> nat) option \<Rightarrow> bool" where
  "reading pat s pi si star \<longleftrightarrow> matches_at pat s pi si \<or> later pat s star"

lemma reading_back:
  assumes "si < length s" "star_ok pat pi si star" "\<not> matches_at pat s pi si"
  shows "case glob_back star of
      None \<Rightarrow> \<not> reading pat s pi si star
    | Some (pi', si', star') \<Rightarrow> si' \<le> length s \<and> star_ok pat pi' si' star' \<and> (reading pat s pi' si' star' \<longleftrightarrow> reading pat s pi si star)"
proof (cases star)
  case (Some x)
  obtain sp ss where x: "x = (sp, ss)" by (cases x)
  have "ss < length s" using assms(1,2) by (simp add: star_ok_def Some x)
  moreover have "reading pat s (sp + 1) (ss + 1) (Some (sp, ss + 1)) \<longleftrightarrow> later pat s star"
  proof -
    have "(\<exists>j > ss. P j) \<longleftrightarrow> P (ss + 1) \<or> (\<exists>j > ss + 1. P j)" for P
      by (metis Suc_eq_plus1 Suc_lessD Suc_lessI lessI)
    from this [of "\<lambda>j. j \<le> length s \<and> matches_at pat s (sp + 1) j"] calculation show ?thesis
      by (simp add: reading_def later_def Some x)
  qed
  ultimately show ?thesis using assms(3) by (simp add: Some x glob_back_def star_ok_def seg_refl reading_def)
qed (use assms in \<open>simp add: glob_back_def reading_def later_def\<close>)

lemma reading_token:
  assumes "si < length s" "star_ok pat pi si star" "pi < length pat" "pat ! pi \<noteq> CHR ''*''" "accepts (drop pi pat) (s ! si)"
  shows "reading pat s (pi + token_length (drop pi pat)) (si + 1) star \<longleftrightarrow> reading pat s pi si star"
  using assms(1,5) by (simp add: reading_def matches_token [OF assms(3,4)])

lemma round_reading:
  assumes "si < length s" "star_ok pat pi si star"
  shows "case glob_round pat s pi si star of
      None \<Rightarrow> \<not> reading pat s pi si star
    | Some (pi', si', star') \<Rightarrow> si' \<le> length s \<and> star_ok pat pi' si' star' \<and> (reading pat s pi' si' star' \<longleftrightarrow> reading pat s pi si star)"
proof (cases "pi < length pat")
  case len: True
  have hd: "hd (drop pi pat) = pat ! pi" using len by (simp add: hd_drop_conv_nth)
  have acc: "accepts (drop pi pat) c \<longleftrightarrow> pat ! pi = CHR ''?'' \<or> pat ! pi = CHR ''['' \<and> snd (match_class (drop pi pat) c)
      \<or> pat ! pi \<noteq> CHR ''['' \<and> pat ! pi = c" for c
    by (auto simp: accepts_def hd)
  show ?thesis
  proof (cases "pat ! pi = CHR ''*''")
    case True
    have "star_ok pat (pi + 1) si (Some (pi, si))" by (simp add: star_ok_def seg_refl)
    moreover have "reading pat s (pi + 1) si (Some (pi, si)) \<longleftrightarrow> matches_at pat s pi si"
      using assms(1) by (auto simp: matches_star [OF len True] reading_def later_def le_less)
    moreover have "matches_at pat s pi si" if later: "later pat s star"
    proof -
      obtain j where "si < j" "j \<le> length s" "matches_at pat s pi j" by (rule later_matches [OF assms(2) later])
      then show ?thesis unfolding matches_star [OF len True] by (auto intro: less_imp_le le_trans)
    qed
    ultimately show ?thesis using assms(1) True len by (auto simp: glob_round_def reading_def)
  next
    case False
    show ?thesis
    proof (cases "accepts (drop pi pat) (s ! si)")
      case True
      have tok: "token_length (drop pi pat) = (if pat ! pi = CHR ''['' then fst (match_class (drop pi pat) (s ! si)) else 1)"
        using match_class_fst [of "drop pi pat" "CHR ''x''" "s ! si"] by (simp add: token_length_def hd)
      have "glob_round pat s pi si star = Some (pi + token_length (drop pi pat), si + 1, star)"
        using len False True by (auto simp: glob_round_def acc tok split_def Let_def)
      with star_ok_step [OF assms(2) len False] reading_token [OF assms len False True] assms(1) show ?thesis by simp
    next
      case na: False
      then have "glob_round pat s pi si star = glob_back star"
        using len False by (auto simp: glob_round_def acc split_def Let_def)
      moreover have "\<not> matches_at pat s pi si" using na by (simp add: matches_token [OF len False])
      ultimately show ?thesis using reading_back [OF assms] by simp
    qed
  qed
next
  case False
  then have "glob_round pat s pi si star = glob_back star" by (simp add: glob_round_def)
  moreover have "\<not> matches_at pat s pi si" using False assms(1) by (simp add: matches_at_def glob_Nil)
  ultimately show ?thesis using reading_back [OF assms] by simp
qed

lemma glob_end: "glob p [] \<longleftrightarrow> dropWhile (\<lambda>c. c = CHR ''*'') p = []"
  by (induction p) (simp_all add: glob_Nil glob_star glob_token)

lemma glob_loop_reading:
  "si \<le> length s \<Longrightarrow> star_ok pat pi si star \<Longrightarrow> glob_loop pat s pi si star \<longleftrightarrow> reading pat s pi si star"
proof (induction pat s pi si star rule: glob_loop.induct)
  case (1 pat s pi si star)
  show ?case
  proof (cases "si < length s")
    case True
    note r = round_reading [OF True "1.prems"(2)]
    show ?thesis
    proof (cases "glob_round pat s pi si star")
      case None
      with r True show ?thesis by (subst glob_loop.simps) simp
    next
      case (Some x)
      obtain pi' si' star' where x: "x = (pi', si', star')" by (cases x)
      from r True 1 Some x show ?thesis by (subst glob_loop.simps) simp
    qed
  next
    case False
    with "1.prems" have si: "si = length s" by simp
    have "\<not> later pat s star"
    proof
      assume "later pat s star"
      then obtain j where "si < j" "j \<le> length s" by (rule later_matches [OF "1.prems"(2)])
      with si show False by simp
    qed
    with si show ?thesis by (subst glob_loop.simps) (simp add: reading_def matches_at_def glob_end)
  qed
qed

section \<open>Properties\<close>


end
