(* ===== verification/Config.thy ===== *)
theory Config
  imports Prelude Rust_Std
begin

text \<open>
  \<^verbatim>\<open>crates/server/src/config.rs\<close>: the configuration record, its defaults, the command-line parser and
  the parser of memory sizes. The parser returns \<^const>\<open>Inl\<close> with the error text; the warning it
  prints for an unknown option is not modelled. \<^verbatim>\<open>usize\<close> values are natural numbers below \<open>2 ^ 64\<close>,
  and the multiplication by the unit wraps as in a release build. Paths are strings.
\<close>

type_synonym 'a config_result = "string + 'a"

record config =
  cf_bind :: string
  cf_port :: nat
  cf_shards :: nat
  cf_maxmemory :: nat
  cf_appendonly :: bool
  cf_requirepass :: "string option"
  cf_replicaof :: "(string \<times> nat) option"
  cf_masterauth :: "string option"
  cf_tls_cert :: "string option"
  cf_tls_key :: "string option"
  cf_dir :: string
  cf_aof_file :: string
  cf_snapshot_file :: string

definition DEFAULT_SHARDS :: nat where "DEFAULT_SHARDS = 512"

definition config_default :: config where
  "config_default =
     \<lparr>cf_bind = ''127.0.0.1'', cf_port = 6380, cf_shards = DEFAULT_SHARDS, cf_maxmemory = 0, cf_appendonly = False,
      cf_requirepass = None, cf_replicaof = None, cf_masterauth = None, cf_tls_cert = None, cf_tls_key = None,
      cf_dir = ''.'', cf_aof_file = ''inmem.aof'', cf_snapshot_file = ''inmem.snapshot''\<rparr>"

text \<open>\<^verbatim>\<open>Path::join\<close> on Unix: an absolute second path replaces the first.\<close>

definition path_join :: "string \<Rightarrow> string \<Rightarrow> string" where
  "path_join dir file =
     (if take 1 file = ''/'' \<or> dir = [] then file
      else if last dir = CHR ''/'' then dir @ file
      else dir @ ''/'' @ file)"

definition aof_path :: "config \<Rightarrow> string" where
  "aof_path cfg = path_join (cf_dir cfg) (cf_aof_file cfg)"

definition snapshot_path :: "config \<Rightarrow> string" where
  "snapshot_path cfg = path_join (cf_dir cfg) (cf_snapshot_file cfg)"

section \<open>Memory sizes\<close>

definition USIZE_LIMIT :: nat where "USIZE_LIMIT = 2 ^ 64"

definition strip_suffix :: "string \<Rightarrow> string \<Rightarrow> string option" where
  "strip_suffix suf s =
     (if length suf \<le> length s \<and> drop (length s - length suf) s = suf then Some (take (length s - length suf) s) else None)"

definition mem_unit :: "string \<Rightarrow> string \<times> nat" where
  "mem_unit s =
     (case strip_suffix ''gb'' s of Some p \<Rightarrow> (p, 2 ^ 30)
      | None \<Rightarrow> (case strip_suffix ''mb'' s of Some p \<Rightarrow> (p, 2 ^ 20)
      | None \<Rightarrow> (case strip_suffix ''kb'' s of Some p \<Rightarrow> (p, 2 ^ 10)
      | None \<Rightarrow> (case strip_suffix ''b'' s of Some p \<Rightarrow> (p, 1)
      | None \<Rightarrow> (s, 1)))))"

definition parse_mem :: "string \<Rightarrow> nat config_result" where
  "parse_mem s =
     (let s = map ascii_lower (trim s); (num, mult) = mem_unit s in
      case parse_unsigned USIZE_LIMIT (trim num) of
        Some n \<Rightarrow> Inr (n * mult mod USIZE_LIMIT)
      | None \<Rightarrow> Inl (''invalid memory size: '' @ s))"

section \<open>Command line\<close>

text \<open>\<^verbatim>\<open>trim_start_matches("--")\<close>, which strips repeatedly.\<close>

fun strip_dashes :: "string \<Rightarrow> string" where
  "strip_dashes (a # b # s) = (if a = CHR ''-'' \<and> b = CHR ''-'' then strip_dashes s else a # b # s)"
| "strip_dashes s = s"

text \<open>\<^verbatim>\<open>split_once(':')\<close>.\<close>

definition split_colon :: "string \<Rightarrow> (string \<times> string) option" where
  "split_colon s =
     (if CHR '':'' \<in> set s
      then Some (takeWhile (\<lambda>c. c \<noteq> CHR '':'') s, tl (dropWhile (\<lambda>c. c \<noteq> CHR '':'') s))
      else None)"

text \<open>The next argument, an option's value.\<close>

definition need :: "string \<Rightarrow> string list \<Rightarrow> (string \<times> string list) config_result" where
  "need name it = (case it of v # it \<Rightarrow> Inr (v, it) | [] \<Rightarrow> Inl (''--'' @ name @ '' requires a value''))"

definition with_value :: "string \<Rightarrow> string list \<Rightarrow> (string \<Rightarrow> config config_result) \<Rightarrow> (config \<times> string list) config_result" where
  "with_value name it f =
     (case need name it of
        Inl e \<Rightarrow> Inl e
      | Inr (v, it) \<Rightarrow> (case f v of Inl e \<Rightarrow> Inl e | Inr cfg \<Rightarrow> Inr (cfg, it)))"

text \<open>One round of the loop of \<^verbatim>\<open>from_args\<close>: the option \<open>arg\<close> with the rest of the arguments.\<close>

definition parse_flag :: "config \<Rightarrow> string \<Rightarrow> string list \<Rightarrow> (config \<times> string list) config_result" where
  "parse_flag cfg arg it =
     (let key = map ascii_lower (strip_dashes arg) in
      if key = ''help'' \<or> key = ''h'' then Inl ''help''
      else if key = ''port'' then with_value ''port'' it (\<lambda>v.
        case parse_unsigned (2 ^ 16) v of Some n \<Rightarrow> Inr (cfg\<lparr>cf_port := n\<rparr>) | None \<Rightarrow> Inl ''invalid port'')
      else if key = ''bind'' then with_value ''bind'' it (\<lambda>v. Inr (cfg\<lparr>cf_bind := v\<rparr>))
      else if key = ''shards'' then with_value ''shards'' it (\<lambda>v.
        case parse_unsigned USIZE_LIMIT v of Some n \<Rightarrow> Inr (cfg\<lparr>cf_shards := n\<rparr>) | None \<Rightarrow> Inl ''invalid shards'')
      else if key = ''maxmemory'' then with_value ''maxmemory'' it (\<lambda>v.
        case parse_mem v of Inr n \<Rightarrow> Inr (cfg\<lparr>cf_maxmemory := n\<rparr>) | Inl e \<Rightarrow> Inl e)
      else if key = ''appendonly'' then with_value ''appendonly'' it (\<lambda>v.
        Inr (cfg\<lparr>cf_appendonly := map ascii_lower v \<in> {''yes'', ''true'', ''1''}\<rparr>))
      else if key = ''requirepass'' then with_value ''requirepass'' it (\<lambda>v. Inr (cfg\<lparr>cf_requirepass := Some v\<rparr>))
      else if key = ''masterauth'' then with_value ''masterauth'' it (\<lambda>v. Inr (cfg\<lparr>cf_masterauth := Some v\<rparr>))
      else if key = ''tls-cert'' \<or> key = ''tls-cert-file'' then
        with_value ''tls-cert'' it (\<lambda>v. Inr (cfg\<lparr>cf_tls_cert := Some v\<rparr>))
      else if key = ''tls-key'' \<or> key = ''tls-key-file'' then
        with_value ''tls-key'' it (\<lambda>v. Inr (cfg\<lparr>cf_tls_key := Some v\<rparr>))
      else if key = ''replicaof'' \<or> key = ''slaveof'' then
        (case need ''replicaof'' it of
           Inl e \<Rightarrow> Inl e
         | Inr (first, it) \<Rightarrow>
             (case (case split_colon first of
                      Some (h, p) \<Rightarrow> Inr ((h, p), it)
                    | None \<Rightarrow> (case need ''replicaof'' it of Inl e \<Rightarrow> Inl e | Inr (p, it) \<Rightarrow> Inr ((first, p), it))) of
                Inl e \<Rightarrow> Inl e
              | Inr ((host, port), it) \<Rightarrow>
                  (case parse_unsigned (2 ^ 16) port of
                     Some n \<Rightarrow> Inr (cfg\<lparr>cf_replicaof := Some (host, n)\<rparr>, it)
                   | None \<Rightarrow> Inl ''invalid replicaof port'')))
      else if key = ''dir'' then with_value ''dir'' it (\<lambda>v. Inr (cfg\<lparr>cf_dir := v\<rparr>))
      else if key = ''aof-file'' \<or> key = ''appendfilename'' then
        with_value ''aof-file'' it (\<lambda>v. Inr (cfg\<lparr>cf_aof_file := v\<rparr>))
      else if key = ''snapshot-file'' \<or> key = ''dbfilename'' then
        with_value ''snapshot-file'' it (\<lambda>v. Inr (cfg\<lparr>cf_snapshot_file := v\<rparr>))
      else Inr (cfg, it))"

lemma need_rest: "need name it = Inr (v, it') \<Longrightarrow> length it' < length it"
  by (auto simp: need_def split: list.splits)

lemma parse_flag_rest: "parse_flag cfg arg it = Inr (cfg', it') \<Longrightarrow> length it' \<le> length it"
  unfolding parse_flag_def with_value_def Let_def
  by (auto split: if_splits sum.splits option.splits dest!: need_rest)

function parse_flags :: "config \<Rightarrow> string list \<Rightarrow> config config_result" where
  "parse_flags cfg [] = Inr cfg"
| "parse_flags cfg (arg # it) =
     (case parse_flag cfg arg it of Inl e \<Rightarrow> Inl e | Inr (cfg, it) \<Rightarrow> parse_flags cfg it)"
  by pat_completeness auto
termination
  by (relation "measure (\<lambda>(cfg, it). length it)") (auto dest!: parse_flag_rest)

definition from_args :: "string list \<Rightarrow> config config_result" where
  "from_args args = parse_flags config_default args"

section \<open>Sizes with units\<close>

datatype size_unit = Unit_None | Unit_B | Unit_KB | Unit_MB | Unit_GB

fun unit_suffix :: "size_unit \<Rightarrow> string" where
  "unit_suffix Unit_None = []" | "unit_suffix Unit_B = ''b''" | "unit_suffix Unit_KB = ''kb''"
| "unit_suffix Unit_MB = ''mb''" | "unit_suffix Unit_GB = ''gb''"

fun unit_bytes :: "size_unit \<Rightarrow> nat" where
  "unit_bytes Unit_None = 1" | "unit_bytes Unit_B = 1" | "unit_bytes Unit_KB = 2 ^ 10"
| "unit_bytes Unit_MB = 2 ^ 20" | "unit_bytes Unit_GB = 2 ^ 30"

lemma digit_ascii: "is_digit c \<Longrightarrow> graphic c \<and> ascii_lower c = c \<and> c \<noteq> CHR ''b''"
  by (auto simp: is_digit_def graphic_def ascii_lower_def)

lemma show_nat_ascii: "list_all graphic (show_nat n)" "map ascii_lower (show_nat n) = show_nat n" "last (show_nat n) \<noteq> CHR ''b''"
proof -
  have d: "\<And>c. c \<in> set (show_nat n) \<Longrightarrow> is_digit c" using show_nat_digits [of n] by (simp add: list_all_iff)
  show "list_all graphic (show_nat n)" using d digit_ascii by (simp add: list_all_iff)
  show "map ascii_lower (show_nat n) = show_nat n" using d digit_ascii by (simp add: map_idI)
  show "last (show_nat n) \<noteq> CHR ''b''" using digit_ascii [OF d [OF last_in_set [OF show_nat_ne]]] by simp
qed

lemma unit_suffix_ascii: "list_all graphic (unit_suffix u)" "map ascii_lower (unit_suffix u) = unit_suffix u"
  by (cases u; simp add: graphic_def ascii_lower_def)+

lemma strip_suffix_append [simp]: "strip_suffix suf (s @ suf) = Some s"
  by (simp add: strip_suffix_def)

lemma strip_suffix_neq: "s \<noteq> [] \<Longrightarrow> suf \<noteq> [] \<Longrightarrow> last s \<noteq> last suf \<Longrightarrow> strip_suffix suf s = None"
  by (auto simp: strip_suffix_def) (metis append_take_drop_id last_appendR)

lemma strip_suffix_two: "s \<noteq> [] \<Longrightarrow> last s \<noteq> a \<Longrightarrow> strip_suffix [a, c] (s @ [c]) = None"
  by (cases s rule: rev_cases) (simp_all add: strip_suffix_def)

lemma mem_unit_show: "mem_unit (show_nat n @ unit_suffix u) = (show_nat n, unit_bytes u)"
proof -
  have d: "is_digit (last (show_nat n))"
    using show_nat_digits [of n] last_in_set [OF show_nat_ne] by (simp add: list_all_iff)
  then have two: "strip_suffix [a, CHR ''b''] (show_nat n @ ''b'') = None" if "\<not> is_digit a" for a
    using that by (intro strip_suffix_two) auto
  have none: "strip_suffix [a, CHR ''b''] (show_nat n) = None" "strip_suffix ''b'' (show_nat n) = None" for a
    using show_nat_ascii(3) [of n] by (simp_all add: strip_suffix_neq)
  have other: "strip_suffix [a, CHR ''b''] (show_nat n @ [c, CHR ''b'']) = None" if "a \<noteq> c" for a c
    using that by (simp add: strip_suffix_def)
  show ?thesis
  proof (cases u)
    case Unit_B
    then show ?thesis using two by (simp add: mem_unit_def is_digit_def)
  qed (use none other strip_suffix_append in \<open>simp_all add: mem_unit_def\<close>)
qed

lemma parse_mem_show:
  assumes "n < 2 ^ 64"
  shows "parse_mem (show_nat n @ unit_suffix u) = Inr (n * unit_bytes u mod 2 ^ 64)"
proof -
  have "list_all graphic (show_nat n @ unit_suffix u)" using show_nat_ascii(1) unit_suffix_ascii(1) by simp
  then show ?thesis
    using assms show_nat_ascii(1)
    by (simp add: parse_mem_def trim_graphic show_nat_ascii(2) unit_suffix_ascii(2) mem_unit_show
        parse_unsigned_show_nat USIZE_LIMIT_def)
qed

section \<open>Writing a configuration as arguments\<close>

definition opt_arg :: "string \<Rightarrow> string option \<Rightarrow> string list" where
  "opt_arg flag v = (case v of None \<Rightarrow> [] | Some w \<Rightarrow> [flag, w])"

definition render_args :: "config \<Rightarrow> string list" where
  "render_args cfg =
     [''--bind'', cf_bind cfg, ''--port'', show_nat (cf_port cfg), ''--shards'', show_nat (cf_shards cfg),
      ''--maxmemory'', show_nat (cf_maxmemory cfg), ''--appendonly'', (if cf_appendonly cfg then ''yes'' else ''no'')]
     @ opt_arg ''--requirepass'' (cf_requirepass cfg)
     @ (case cf_replicaof cfg of None \<Rightarrow> [] | Some (host, port) \<Rightarrow> [''--replicaof'', host, show_nat port])
     @ opt_arg ''--masterauth'' (cf_masterauth cfg) @ opt_arg ''--tls-cert'' (cf_tls_cert cfg) @ opt_arg ''--tls-key'' (cf_tls_key cfg)
     @ [''--dir'', cf_dir cfg, ''--aof-file'', cf_aof_file cfg, ''--snapshot-file'', cf_snapshot_file cfg]"

definition config_ok :: "config \<Rightarrow> bool" where
  "config_ok cfg \<longleftrightarrow> cf_port cfg < 2 ^ 16 \<and> cf_shards cfg < 2 ^ 64 \<and> cf_maxmemory cfg < 2 ^ 64
     \<and> (case cf_replicaof cfg of None \<Rightarrow> True | Some (host, port) \<Rightarrow> CHR '':'' \<notin> set host \<and> port < 2 ^ 16)"

lemmas flag_defs = parse_flag_def Let_def with_value_def need_def ascii_lower_def

lemma flag_string:
  "parse_flag cfg ''--bind'' (v # it) = Inr (cfg\<lparr>cf_bind := v\<rparr>, it)"
  "parse_flag cfg ''--requirepass'' (v # it) = Inr (cfg\<lparr>cf_requirepass := Some v\<rparr>, it)"
  "parse_flag cfg ''--masterauth'' (v # it) = Inr (cfg\<lparr>cf_masterauth := Some v\<rparr>, it)"
  "parse_flag cfg ''--tls-cert'' (v # it) = Inr (cfg\<lparr>cf_tls_cert := Some v\<rparr>, it)"
  "parse_flag cfg ''--tls-key'' (v # it) = Inr (cfg\<lparr>cf_tls_key := Some v\<rparr>, it)"
  "parse_flag cfg ''--dir'' (v # it) = Inr (cfg\<lparr>cf_dir := v\<rparr>, it)"
  "parse_flag cfg ''--aof-file'' (v # it) = Inr (cfg\<lparr>cf_aof_file := v\<rparr>, it)"
  "parse_flag cfg ''--snapshot-file'' (v # it) = Inr (cfg\<lparr>cf_snapshot_file := v\<rparr>, it)"
  by (simp_all add: flag_defs)

lemma flag_number:
  "n < 2 ^ 16 \<Longrightarrow> parse_flag cfg ''--port'' (show_nat n # it) = Inr (cfg\<lparr>cf_port := n\<rparr>, it)"
  "n < 2 ^ 64 \<Longrightarrow> parse_flag cfg ''--shards'' (show_nat n # it) = Inr (cfg\<lparr>cf_shards := n\<rparr>, it)"
  "n < 2 ^ 64 \<Longrightarrow> parse_flag cfg ''--maxmemory'' (show_nat n # it) = Inr (cfg\<lparr>cf_maxmemory := n\<rparr>, it)"
  using parse_mem_show [of n Unit_None]
  by (simp_all add: flag_defs parse_unsigned_show_nat USIZE_LIMIT_def)

lemma flag_appendonly:
  "parse_flag cfg ''--appendonly'' ((if b then ''yes'' else ''no'') # it) = Inr (cfg\<lparr>cf_appendonly := b\<rparr>, it)"
proof -
  have k: "map ascii_lower (strip_dashes ''--appendonly'') = ''appendonly''" by (simp add: ascii_lower_def)
  have "map ascii_lower (if b then ''yes'' else ''no'') \<in> {''yes'', ''true'', ''1''} \<longleftrightarrow> b" by (simp add: ascii_lower_def)
  then show ?thesis unfolding parse_flag_def Let_def k with_value_def need_def by simp
qed

lemma flag_replicaof:
  assumes "CHR '':'' \<notin> set host" "port < 2 ^ 16"
  shows "parse_flag cfg ''--replicaof'' (host # show_nat port # it) = Inr (cfg\<lparr>cf_replicaof := Some (host, port)\<rparr>, it)"
proof -
  have k: "map ascii_lower (strip_dashes ''--replicaof'') = ''replicaof''" by (simp add: ascii_lower_def)
  show ?thesis unfolding parse_flag_def Let_def k need_def
    using assms by (simp add: split_colon_def parse_unsigned_show_nat)
qed

text \<open>Options that are absent leave the default, which is \<^const>\<open>None\<close>.\<close>

lemma parse_opt_args:
  "cf_requirepass cfg = None \<Longrightarrow> parse_flags cfg (opt_arg ''--requirepass'' v @ it) = parse_flags (cfg\<lparr>cf_requirepass := v\<rparr>) it"
  "cf_masterauth cfg = None \<Longrightarrow> parse_flags cfg (opt_arg ''--masterauth'' v @ it) = parse_flags (cfg\<lparr>cf_masterauth := v\<rparr>) it"
  "cf_tls_cert cfg = None \<Longrightarrow> parse_flags cfg (opt_arg ''--tls-cert'' v @ it) = parse_flags (cfg\<lparr>cf_tls_cert := v\<rparr>) it"
  "cf_tls_key cfg = None \<Longrightarrow> parse_flags cfg (opt_arg ''--tls-key'' v @ it) = parse_flags (cfg\<lparr>cf_tls_key := v\<rparr>) it"
  by (cases cfg; cases v; simp add: opt_arg_def flag_string)+

lemma parse_replicaof_args:
  assumes "cf_replicaof cfg = None" "case r of None \<Rightarrow> True | Some (host, port) \<Rightarrow> CHR '':'' \<notin> set host \<and> port < 2 ^ 16"
  shows "parse_flags cfg ((case r of None \<Rightarrow> [] | Some (host, port) \<Rightarrow> [''--replicaof'', host, show_nat port]) @ it)
    = parse_flags (cfg\<lparr>cf_replicaof := r\<rparr>) it"
  using assms flag_replicaof by (cases cfg; cases r) (auto simp del: parse_flags.simps(1))

lemma parse_render: "config_ok cfg \<Longrightarrow> from_args (render_args cfg) = Inr cfg"
  by (cases cfg)
     (simp add: from_args_def render_args_def config_ok_def flag_string flag_number flag_appendonly
        parse_opt_args parse_replicaof_args config_default_def)

section \<open>Properties\<close>

text \<open>A memory size is its number times its unit, reduced modulo \<open>2 ^ 64\<close>: exact as long as the size
  fits in a machine word.\<close>

theorem parse_mem_size:
  assumes "n < 2 ^ 64"
  shows "parse_mem (show_nat n @ unit_suffix u) = Inr (n * unit_bytes u mod 2 ^ 64)
    \<and> (n * unit_bytes u < 2 ^ 64 \<longrightarrow> parse_mem (show_nat n @ unit_suffix u) = Inr (n * unit_bytes u))"
  using parse_mem_show [OF assms, of u] by simp

theorem parse_mem_size_witness: "parse_mem ''256mb'' = Inr 268435456"
proof -
  have "show_nat 256 = ''256''" by (simp add: show_nat.simps digit_char_simps)
  with parse_mem_size [of 256 Unit_MB] show ?thesis by simp
qed




end
