(* ===== verification/Commands.thy ===== *)
theory Commands
  imports Program Snapshot Glob Config
begin

text \<open>
  \<^verbatim>\<open>crates/server/src/commands.rs\<close>: one definition per command handler, as a program over the store, and
  \<^verbatim>\<open>dispatch\<close>, cut at the section comments of its match expression: each part takes what the later
  parts do as its last argument. Times are 64-bit words, so the sums and products of the expiry
  commands wrap as in a release build. The formatter and the parser of floating-point numbers of
  the standard library are the two fields of a parameter record.
\<close>

section \<open>Connection state, outcomes and replies\<close>

record floats =
  fl_show :: "f64 \<Rightarrow> string"
  fl_parse :: "string \<Rightarrow> f64 option"

record conn_state =
  cs_resp3 :: bool
  cs_name :: bytes
  cs_id :: u64
  cs_authenticated :: bool

definition conn_new :: "u64 \<Rightarrow> bool \<Rightarrow> conn_state" where
  "conn_new cid authenticated = \<lparr>cs_resp3 = False, cs_name = [], cs_id = cid, cs_authenticated = authenticated\<rparr>"

definition conn_internal :: conn_state where
  "conn_internal = conn_new 0 True"

record outcome =
  oc_reply :: reply
  oc_quit :: bool
  oc_persist :: bool

definition outcome_r :: "reply \<Rightarrow> outcome" where
  "outcome_r reply = \<lparr>oc_reply = reply, oc_quit = False, oc_persist = False\<rparr>"

definition outcome_w :: "reply \<Rightarrow> outcome" where
  "outcome_w reply = \<lparr>oc_reply = reply, oc_quit = False, oc_persist = True\<rparr>"

definition outcome_maybe :: "reply \<Rightarrow> bool \<Rightarrow> outcome" where
  "outcome_maybe reply dirty = \<lparr>oc_reply = reply, oc_quit = False, oc_persist = dirty\<rparr>"

definition err :: "string \<Rightarrow> reply" where
  "err msg = R_Error (''ERR '' @ msg)"

definition wrong_args :: "string \<Rightarrow> reply" where
  "wrong_args cmd = R_Error (''ERR wrong number of arguments for '' @ [CHR 0x27] @ cmd @ [CHR 0x27] @ '' command'')"

definition store_err :: "string \<Rightarrow> reply" where
  "store_err e = (if e = WRONGTYPE then R_Error e else err e)"

definition eq_ci :: "bytes \<Rightarrow> string \<Rightarrow> bool" where
  "eq_ci a b = eq_ignore_ascii_case a b"

definition arg_i64 :: "bytes \<Rightarrow> int option" where
  "arg_i64 b = (if utf8_valid b then parse_i64 b else None)"

definition arg_f64 :: "floats \<Rightarrow> bytes \<Rightarrow> f64 option" where
  "arg_f64 fl b = (if utf8_valid b then fl_parse fl b else None)"

definition upper_lossy :: "bytes \<Rightarrow> string" where
  "upper_lossy b = map ascii_upper (utf8_lossy b)"

definition int_or_err :: "nat result \<Rightarrow> outcome" where
  "int_or_err r = (case r of Inr n \<Rightarrow> outcome_r (R_Int (int n)) | Inl e \<Rightarrow> outcome_r (store_err e))"

text \<open>Replies to a count that is a write only when it is not zero, and lists of bulk strings.\<close>

definition count_or_err :: "nat result \<Rightarrow> outcome" where
  "count_or_err r = (case r of Inr n \<Rightarrow> outcome_maybe (R_Int (int n)) (n > 0) | Inl e \<Rightarrow> outcome_r (store_err e))"

definition bulks :: "bytes list \<Rightarrow> reply" where
  "bulks xs = R_Array (Some (map (\<lambda>x. R_Bulk (Some x)) xs))"

text \<open>\<^verbatim>\<open>chunks(2)\<close> of a slice of even length.\<close>

fun pairs :: "'a list \<Rightarrow> ('a \<times> 'a) list" where
  "pairs (a # b # xs) = (a, b) # pairs xs"
| "pairs _ = []"

definition default_options :: set_options where
  "default_options = \<lparr>so_nx = False, so_xx = False, so_keep_ttl = False, so_expire_at = None\<rparr>"

section \<open>Connection and introspection commands\<close>

definition auth_cmd :: "config \<Rightarrow> bytes list \<Rightarrow> conn_state \<Rightarrow> conn_state \<times> outcome" where
  "auth_cmd cfg argv cs =
     (if length argv \<noteq> 2 \<and> length argv \<noteq> 3 then (cs, outcome_r (wrong_args ''auth''))
      else let pass = (if length argv = 2 then argv ! 1 else argv ! 2) in
        case cf_requirepass cfg of
          None \<Rightarrow> (cs, outcome_r (err ''Client sent AUTH, but no password is set''))
        | Some want \<Rightarrow>
            if pass = want then (cs\<lparr>cs_authenticated := True\<rparr>, outcome_r reply_ok)
            else (cs, outcome_r (R_Error ''WRONGPASS invalid username-password pair'')))"

definition hello_reply :: "conn_state \<Rightarrow> outcome" where
  "hello_reply cs =
     (let m = (\<lambda>k v. (R_Bulk (Some k), v)) in
      outcome_r (R_Map [m ''server'' (R_Bulk (Some ''inmem'')), m ''version'' (R_Bulk (Some ''0.0.1'')),
        m ''proto'' (R_Int (if cs_resp3 cs then 3 else 2)), m ''id'' (R_Int (sint (cs_id cs))),
        m ''mode'' (R_Bulk (Some ''standalone'')), m ''role'' (R_Bulk (Some ''master'')), m ''modules'' (R_Array (Some []))]))"

definition hello_cmd :: "bytes list \<Rightarrow> conn_state \<Rightarrow> conn_state \<times> outcome" where
  "hello_cmd argv cs =
     (if length argv \<ge> 2 then
        if arg_i64 (argv ! 1) = Some 2 then (let cs = cs\<lparr>cs_resp3 := False\<rparr> in (cs, hello_reply cs))
        else if arg_i64 (argv ! 1) = Some 3 then (let cs = cs\<lparr>cs_resp3 := True\<rparr> in (cs, hello_reply cs))
        else (cs, outcome_r (R_Error ''NOPROTO unsupported protocol version''))
      else (cs, hello_reply cs))"

definition command_meta :: "bytes list \<Rightarrow> outcome" where
  "command_meta argv =
     (if length argv \<ge> 2 \<and> eq_ci (argv ! 1) ''count'' then outcome_r (R_Int 0) else outcome_r (R_Array (Some [])))"

definition config_value :: "config \<Rightarrow> bytes \<Rightarrow> string option" where
  "config_value cfg param =
     (let key = map ascii_lower (utf8_lossy param) in
      if key = ''maxmemory'' then Some (show_nat (cf_maxmemory cfg))
      else if key = ''maxmemory-policy'' then Some ''allkeys-lfu''
      else if key = ''save'' then Some []
      else if key = ''appendonly'' then Some (if cf_appendonly cfg then ''yes'' else ''no'')
      else None)"

definition config_cmd :: "config \<Rightarrow> bytes list \<Rightarrow> outcome" where
  "config_cmd cfg argv =
     (if length argv \<ge> 2 \<and> eq_ci (argv ! 1) ''get'' then
        outcome_r (R_Array (Some (concat (map (\<lambda>param.
          case config_value cfg param of Some v \<Rightarrow> [R_Bulk (Some param), R_Bulk (Some v)] | None \<Rightarrow> []) (drop 2 argv)))))
      else outcome_r reply_ok)"

definition client_cmd :: "bytes list \<Rightarrow> conn_state \<Rightarrow> conn_state \<times> outcome" where
  "client_cmd argv cs =
     (if length argv < 2 then (cs, outcome_r (wrong_args ''client''))
      else let sub = upper_lossy (argv ! 1) in
        if sub = ''SETNAME'' \<and> length argv = 3 then (cs\<lparr>cs_name := argv ! 2\<rparr>, outcome_r reply_ok)
        else if sub = ''GETNAME'' then (cs, outcome_r (R_Bulk (Some (cs_name cs))))
        else if sub = ''ID'' then (cs, outcome_r (R_Int (sint (cs_id cs))))
        else if sub = ''INFO'' then
          (cs, outcome_r (R_Bulk (Some (''id='' @ show_nat (unat (cs_id cs)) @ '' name='' @ utf8_lossy (cs_name cs) @ [LF]))))
        else (cs, outcome_r reply_ok))"

definition info_text :: "config \<Rightarrow> nat \<Rightarrow> nat \<Rightarrow> string" where
  "info_text cfg keys shards =
     ''# Server'' @ CRLF @ ''redis_version:7.4.0-inmem-0.0.1'' @ CRLF @ ''inmem_version:0.0.1'' @ CRLF @ ''mode:standalone'' @ CRLF
     @ ''# Clients'' @ CRLF @ ''connected_clients:1'' @ CRLF
     @ ''# Memory'' @ CRLF @ ''maxmemory:'' @ show_nat (cf_maxmemory cfg) @ CRLF @ ''maxmemory_policy:allkeys-lfu'' @ CRLF
     @ ''# Keyspace'' @ CRLF @ ''db0:keys='' @ show_nat keys @ '',expires=0,avg_ttl=0'' @ CRLF
     @ ''# Replication'' @ CRLF @ ''role:master'' @ CRLF
     @ ''# Stats'' @ CRLF @ ''shards:'' @ show_nat shards @ CRLF"

section \<open>Strings\<close>

text \<open>\<^verbatim>\<open>arg.max(0) as u64\<close>.\<close>

definition clamp_u64 :: "int \<Rightarrow> u64" where
  "clamp_u64 n = of_int (max n 0)"

definition set_expiry :: "u64 \<Rightarrow> string \<Rightarrow> int \<Rightarrow> u64" where
  "set_expiry now opt arg =
     (if opt = ''EX'' then now + clamp_u64 arg * 1000
      else if opt = ''PX'' then now + clamp_u64 arg
      else if opt = ''EXAT'' then clamp_u64 arg * 1000
      else clamp_u64 arg)"

text \<open>The option loop of \<^verbatim>\<open>SET\<close>, over the arguments from the fourth on.\<close>

fun set_options_loop :: "u64 \<Rightarrow> bytes list \<Rightarrow> set_options \<Rightarrow> bool \<Rightarrow> reply + set_options \<times> bool" where
  "set_options_loop now [] opts want_get = Inr (opts, want_get)"
| "set_options_loop now (a # args) opts want_get =
     (let opt = upper_lossy a in
      if opt = ''NX'' then set_options_loop now args (opts\<lparr>so_nx := True\<rparr>) want_get
      else if opt = ''XX'' then set_options_loop now args (opts\<lparr>so_xx := True\<rparr>) want_get
      else if opt = ''KEEPTTL'' then set_options_loop now args (opts\<lparr>so_keep_ttl := True\<rparr>) want_get
      else if opt = ''GET'' then set_options_loop now args opts True
      else if opt \<in> {''EX'', ''PX'', ''EXAT'', ''PXAT''} then
        (case args of
           [] \<Rightarrow> Inl (err NOT_INTEGER)
         | v # args \<Rightarrow>
             (case arg_i64 v of
                None \<Rightarrow> Inl (err NOT_INTEGER)
              | Some arg \<Rightarrow> set_options_loop now args (opts\<lparr>so_expire_at := Some (set_expiry now opt arg)\<rparr>) want_get))
      else Inl (err ''syntax error''))"

definition set_finish :: "bytes \<Rightarrow> bytes \<Rightarrow> set_options \<Rightarrow> bool \<Rightarrow> bytes option \<Rightarrow> outcome prog" where
  "set_finish key v opts want_get old =
     q_bool (S_Set key v opts) (\<lambda>did.
       Done (outcome_maybe (if want_get then R_Bulk old else if did then reply_ok else R_Bulk None) did))"

definition set_cmd :: "bytes list \<Rightarrow> outcome prog" where
  "set_cmd argv =
     (if length argv < 3 then Done (outcome_r (wrong_args ''set''))
      else now_ms (\<lambda>now.
        case set_options_loop now (drop 3 argv) default_options False of
          Inl reply \<Rightarrow> Done (outcome_r reply)
        | Inr (opts, want_get) \<Rightarrow>
            if want_get then
              q_optstr (S_Get (argv ! 1)) (\<lambda>old.
                case old of
                  Inl e \<Rightarrow> Done (outcome_r (store_err e))
                | Inr old \<Rightarrow> set_finish (argv ! 1) (argv ! 2) opts want_get old)
            else set_finish (argv ! 1) (argv ! 2) opts want_get None))"

definition setex_cmd :: "bytes list \<Rightarrow> bool \<Rightarrow> outcome prog" where
  "setex_cmd argv ms =
     (if length argv \<noteq> 4 then Done (outcome_r (wrong_args (if ms then ''psetex'' else ''setex'')))
      else case arg_i64 (argv ! 2) of
        None \<Rightarrow> Done (outcome_r (err NOT_INTEGER))
      | Some n \<Rightarrow>
          if n \<le> 0 then Done (outcome_r (err ''invalid expire time''))
          else now_ms (\<lambda>now.
            let expire_at = (if ms then now + of_int n else now + of_int n * 1000) in
            q_bool (S_Set (argv ! 1) (argv ! 3) (default_options\<lparr>so_expire_at := Some expire_at\<rparr>)) (\<lambda>_.
              Done (outcome_w reply_ok))))"

definition getset_cmd :: "bytes list \<Rightarrow> outcome prog" where
  "getset_cmd argv =
     q_optstr (S_Get (argv ! 1)) (\<lambda>old.
       case old of
         Inl e \<Rightarrow> Done (outcome_r (store_err e))
       | Inr old \<Rightarrow> q_bool (S_Set (argv ! 1) (argv ! 2) default_options) (\<lambda>_. Done (outcome_w (R_Bulk old))))"

definition setnx_cmd :: "bytes list \<Rightarrow> outcome prog" where
  "setnx_cmd argv =
     q_bool (S_Set (argv ! 1) (argv ! 2) (default_options\<lparr>so_nx := True\<rparr>)) (\<lambda>ok.
       Done (outcome_maybe (R_Int (of_bool ok)) ok))"

definition mset_cmd :: "bytes list \<Rightarrow> outcome prog" where
  "mset_cmd argv =
     (if length argv < 3 \<or> even (length argv) then Done (outcome_r (wrong_args ''mset''))
      else for_each (\<lambda>(k, v). q_bool (S_Set k v default_options)) (pairs (drop 1 argv)) (\<lambda>_.
        Done (outcome_w reply_ok)))"

definition mget_cmd :: "bytes list \<Rightarrow> outcome prog" where
  "mget_cmd argv =
     for_each (\<lambda>k next. q_optstr (S_Get k) (\<lambda>r. next (case r of Inr v \<Rightarrow> R_Bulk v | Inl _ \<Rightarrow> R_Bulk None))) (drop 1 argv)
       (\<lambda>items. Done (outcome_r (R_Array (Some items))))"

definition incr_run_cmd :: "bytes \<Rightarrow> int \<Rightarrow> outcome prog" where
  "incr_run_cmd key delta =
     q_int (S_IncrBy key delta) (\<lambda>r.
       case r of Inr v \<Rightarrow> Done (outcome_w (R_Int v)) | Inl e \<Rightarrow> Done (outcome_r (store_err e)))"

definition incr_cmd :: "bytes list \<Rightarrow> int \<Rightarrow> bool \<Rightarrow> outcome prog" where
  "incr_cmd argv fixed by_arg =
     (if by_arg then
        if length argv \<noteq> 3 then Done (outcome_r (wrong_args ''incrby''))
        else case arg_i64 (argv ! 2) of
          None \<Rightarrow> Done (outcome_r (err NOT_INTEGER))
        | Some d \<Rightarrow>
            if eq_ci (argv ! 0) ''decrby'' then
              if d = - (2 ^ 63) then Done (outcome_r (err ''decrement would overflow''))
              else incr_run_cmd (argv ! 1) (- d)
            else incr_run_cmd (argv ! 1) d
      else if length argv \<noteq> 2 then Done (outcome_r (wrong_args ''incr''))
      else incr_run_cmd (argv ! 1) fixed)"

section \<open>Lists, hashes and sorted sets\<close>

definition push_cmd :: "bytes list \<Rightarrow> bool \<Rightarrow> outcome prog" where
  "push_cmd argv left =
     (if length argv < 3 then Done (outcome_r (wrong_args (if left then ''lpush'' else ''rpush'')))
      else q_count (S_Push (argv ! 1) (drop 2 argv) left) (\<lambda>r.
        case r of Inr len \<Rightarrow> Done (outcome_w (R_Int (int len))) | Inl e \<Rightarrow> Done (outcome_r (store_err e))))"

definition pop_finish :: "bool \<Rightarrow> bytes list result \<Rightarrow> outcome" where
  "pop_finish counted r =
     (case r of
        Inl e \<Rightarrow> outcome_r (store_err e)
      | Inr items \<Rightarrow>
          outcome_maybe
            (if counted then (if items = [] then R_Array None else bulks items)
             else (case items of x # _ \<Rightarrow> R_Bulk (Some x) | [] \<Rightarrow> R_Bulk None))
            (items \<noteq> []))"

definition pop_cmd :: "bytes list \<Rightarrow> bool \<Rightarrow> outcome prog" where
  "pop_cmd argv left =
     (if length argv \<noteq> 2 \<and> length argv \<noteq> 3 then Done (outcome_r (wrong_args (if left then ''lpop'' else ''rpop'')))
      else if length argv = 3 then
        (case arg_i64 (argv ! 2) of
           Some c \<Rightarrow>
             if c \<ge> 0 then q_strs (S_Pop (argv ! 1) (nat c) left) (\<lambda>r. Done (pop_finish True r))
             else Done (outcome_r (err ''value is out of range, must be positive''))
         | None \<Rightarrow> Done (outcome_r (err ''value is out of range, must be positive'')))
      else q_strs (S_Pop (argv ! 1) 1 left) (\<lambda>r. Done (pop_finish False r)))"

definition bulks_or_err :: "bytes list result \<Rightarrow> outcome" where
  "bulks_or_err r = (case r of Inr items \<Rightarrow> outcome_r (bulks items) | Inl e \<Rightarrow> outcome_r (store_err e))"

definition lrange_cmd :: "bytes list \<Rightarrow> outcome prog" where
  "lrange_cmd argv =
     (case (arg_i64 (argv ! 2), arg_i64 (argv ! 3)) of
        (Some start, Some stop) \<Rightarrow> q_strs (S_Lrange (argv ! 1) start stop) (\<lambda>r. Done (bulks_or_err r))
      | _ \<Rightarrow> Done (outcome_r (err NOT_INTEGER)))"

definition hset_cmd :: "bytes list \<Rightarrow> bool \<Rightarrow> outcome prog" where
  "hset_cmd argv hmset =
     (if length argv < 4 \<or> odd (length argv) then Done (outcome_r (wrong_args (if hmset then ''hmset'' else ''hset'')))
      else q_count (S_Hset (argv ! 1) (pairs (drop 2 argv))) (\<lambda>r.
        case r of
          Inr n \<Rightarrow> Done (outcome_w (if hmset then reply_ok else R_Int (int n)))
        | Inl e \<Rightarrow> Done (outcome_r (store_err e))))"

definition hgetall_cmd :: "bytes list \<Rightarrow> conn_state \<Rightarrow> outcome prog" where
  "hgetall_cmd argv cs =
     q_pairs (S_Hgetall (argv ! 1)) (\<lambda>r.
       case r of
         Inl e \<Rightarrow> Done (outcome_r (store_err e))
       | Inr ps \<Rightarrow>
           if cs_resp3 cs then Done (outcome_r (R_Map (map (\<lambda>(k, v). (R_Bulk (Some k), R_Bulk (Some v))) ps)))
           else Done (outcome_r (bulks (concat (map (\<lambda>(k, v). [k, v]) ps)))))"

definition hkeys_vals_cmd :: "bytes list \<Rightarrow> bool \<Rightarrow> outcome prog" where
  "hkeys_vals_cmd argv keys =
     q_pairs (S_Hgetall (argv ! 1)) (\<lambda>r.
       case r of
         Inl e \<Rightarrow> Done (outcome_r (store_err e))
       | Inr ps \<Rightarrow> Done (outcome_r (bulks (map (\<lambda>(k, v). if keys then k else v) ps))))"

definition hmget_cmd :: "bytes list \<Rightarrow> outcome prog" where
  "hmget_cmd argv =
     for_each (\<lambda>f next. q_optstr (S_Hget (argv ! 1) f) (\<lambda>r. next (case r of Inr v \<Rightarrow> R_Bulk v | Inl _ \<Rightarrow> R_Bulk None))) (drop 2 argv)
       (\<lambda>items. Done (outcome_r (R_Array (Some items))))"

fun zadd_pairs :: "floats \<Rightarrow> (bytes \<times> bytes) list \<Rightarrow> (f64 \<times> bytes) list option" where
  "zadd_pairs fl [] = Some []"
| "zadd_pairs fl ((sc, m) # ps) =
     (case arg_f64 fl sc of
        None \<Rightarrow> None
      | Some score \<Rightarrow> (case zadd_pairs fl ps of None \<Rightarrow> None | Some qs \<Rightarrow> Some ((score, m) # qs)))"

definition zadd_cmd :: "floats \<Rightarrow> bytes list \<Rightarrow> outcome prog" where
  "zadd_cmd fl argv =
     (if length argv < 4 \<or> odd (length argv) then Done (outcome_r (wrong_args ''zadd''))
      else case zadd_pairs fl (pairs (drop 2 argv)) of
        None \<Rightarrow> Done (outcome_r (err ''value is not a valid float''))
      | Some ps \<Rightarrow>
          q_count (S_Zadd (argv ! 1) ps) (\<lambda>r.
            case r of Inr n \<Rightarrow> Done (outcome_w (R_Int (int n))) | Inl e \<Rightarrow> Done (outcome_r (store_err e))))"

definition zrange_cmd :: "floats \<Rightarrow> bytes list \<Rightarrow> outcome prog" where
  "zrange_cmd fl argv =
     (case (arg_i64 (argv ! 2), arg_i64 (argv ! 3)) of
        (Some start, Some stop) \<Rightarrow>
          let withscores = length argv \<ge> 5 \<and> eq_ci (argv ! 4) ''withscores'' in
          q_scored (S_Zrange (argv ! 1) start stop) (\<lambda>r.
            case r of
              Inl e \<Rightarrow> Done (outcome_r (store_err e))
            | Inr items \<Rightarrow> Done (outcome_r (bulks (concat (map (\<lambda>(m, sc).
                if withscores then [m, fmt_score (fl_show fl) sc] else [m]) items)))))
      | _ \<Rightarrow> Done (outcome_r (err NOT_INTEGER)))"

section \<open>Keyspace\<close>

text \<open>The condition of \<^verbatim>\<open>EXPIRE\<close> with a flag; \<^const>\<open>None\<close> for a flag it does not know.\<close>

definition expire_flag :: "string \<Rightarrow> ttl \<Rightarrow> u64 \<Rightarrow> u64 \<Rightarrow> bool option" where
  "expire_flag f cur now new_at =
     (if f = ''NX'' then Some (cur = Ttl_NoExpiry)
      else if f = ''XX'' then Some (case cur of Ttl_Millis _ \<Rightarrow> True | _ \<Rightarrow> False)
      else if f = ''GT'' then Some (case cur of Ttl_Millis ms \<Rightarrow> new_at > now + ms | _ \<Rightarrow> False)
      else if f = ''LT'' then Some (case cur of Ttl_NoExpiry \<Rightarrow> True | Ttl_Millis ms \<Rightarrow> new_at < now + ms | _ \<Rightarrow> False)
      else None)"

definition expire_finish :: "bytes \<Rightarrow> u64 \<Rightarrow> outcome prog" where
  "expire_finish key new_at = q_bool (S_ExpireAt key (Some new_at)) (\<lambda>_. Done (outcome_w (R_Int 1)))"

definition expire_cmd :: "bytes list \<Rightarrow> u64 \<Rightarrow> bool \<Rightarrow> outcome prog" where
  "expire_cmd argv unit_ms absolute =
     (if length argv < 3 then Done (outcome_r (wrong_args ''expire''))
      else case arg_i64 (argv ! 2) of
        None \<Rightarrow> Done (outcome_r (err NOT_INTEGER))
      | Some n \<Rightarrow>
          q_bool (S_Exists (argv ! 1)) (\<lambda>found.
            if \<not> found then Done (outcome_r (R_Int 0))
            else now_ms (\<lambda>now.
              let new_at = (if absolute then clamp_u64 n * unit_ms else now + clamp_u64 n * unit_ms) in
              if length argv > 3 then
                q_ttl (S_Pttl (argv ! 1)) (\<lambda>cur.
                  case expire_flag (upper_lossy (argv ! 3)) cur now new_at of
                    None \<Rightarrow> Done (outcome_r (err ''Unsupported option''))
                  | Some ok \<Rightarrow> if \<not> ok then Done (outcome_r (R_Int 0)) else expire_finish (argv ! 1) new_at)
              else expire_finish (argv ! 1) new_at)))"

definition persist_cmd :: "bytes list \<Rightarrow> outcome prog" where
  "persist_cmd argv =
     q_ttl (S_Pttl (argv ! 1)) (\<lambda>cur.
       case cur of
         Ttl_Millis _ \<Rightarrow> q_bool (S_ExpireAt (argv ! 1) None) (\<lambda>_. Done (outcome_maybe (R_Int 1) True))
       | _ \<Rightarrow> Done (outcome_maybe (R_Int 0) False))"

text \<open>\<^verbatim>\<open>ms.div_ceil(1000)\<close>, cast to a signed integer.\<close>

definition ttl_cmd :: "bytes list \<Rightarrow> bool \<Rightarrow> outcome prog" where
  "ttl_cmd argv seconds =
     (if length argv \<noteq> 2 then Done (outcome_r (wrong_args ''ttl''))
      else q_ttl (S_Pttl (argv ! 1)) (\<lambda>cur.
        Done (outcome_r (case cur of
          Ttl_NoKey \<Rightarrow> R_Int (- 2)
        | Ttl_NoExpiry \<Rightarrow> R_Int (- 1)
        | Ttl_Millis ms \<Rightarrow>
            R_Int (if seconds then sint (ms div 1000 + (if ms mod 1000 = 0 then 0 else 1)) else sint ms)))))"

definition keys_cmd :: "bytes list \<Rightarrow> outcome prog" where
  "keys_cmd argv = q_keys (\<lambda>ks. Done (outcome_r (bulks (filter (glob_match (argv ! 1)) ks))))"

text \<open>The option loop of \<^verbatim>\<open>SCAN\<close>, over the arguments from the third on.\<close>

function scan_pattern :: "bytes list \<Rightarrow> bytes option \<Rightarrow> bytes option" where
  "scan_pattern args pattern =
     (case args of
        [] \<Rightarrow> pattern
      | a # rest \<Rightarrow>
          let opt = upper_lossy a in
          if opt = ''MATCH'' then scan_pattern (drop 1 rest) (case rest of p # _ \<Rightarrow> Some p | [] \<Rightarrow> None)
          else if opt = ''COUNT'' \<or> opt = ''TYPE'' then scan_pattern (drop 1 rest) pattern
          else scan_pattern rest pattern)"
  by pat_completeness auto
termination by (relation "measure (\<lambda>(args, pattern). length args)") auto

declare scan_pattern.simps [simp del]

definition scan_cmd :: "bytes list \<Rightarrow> outcome prog" where
  "scan_cmd argv =
     (let pattern = scan_pattern (drop 2 argv) None in
      q_keys (\<lambda>ks.
        Done (outcome_r (R_Array (Some [R_Bulk (Some ''0''),
          bulks (filter (\<lambda>k. case pattern of Some p \<Rightarrow> glob_match p k | None \<Rightarrow> True) ks)])))))"

definition del_cmd :: "bytes list \<Rightarrow> outcome prog" where
  "del_cmd argv =
     for_each (\<lambda>k. q_bool (S_Del k)) (drop 1 argv) (\<lambda>rs.
       let n = length (filter id rs) in Done (outcome_maybe (R_Int (int n)) (n > 0)))"

definition exists_cmd :: "bytes list \<Rightarrow> outcome prog" where
  "exists_cmd argv =
     for_each (\<lambda>k. q_bool (S_Exists k)) (drop 1 argv) (\<lambda>rs. Done (outcome_r (R_Int (int (length (filter id rs))))))"

section \<open>Dispatch\<close>

text \<open>The command name: at most 24 bytes, in upper case.\<close>

definition upper :: "bytes \<Rightarrow> bytes" where
  "upper name = map ascii_upper (take 24 name)"

text \<open>A handler that leaves the connection state alone.\<close>

definition plain :: "conn_state \<Rightarrow> outcome prog \<Rightarrow> (conn_state \<times> outcome) prog" where
  "plain cs prog = map_prog (Pair cs) prog"

abbreviation optstr_or_err :: "bytes option result \<Rightarrow> outcome prog" where
  "optstr_or_err r \<equiv> (case r of Inr v \<Rightarrow> Done (outcome_r (R_Bulk v)) | Inl e \<Rightarrow> Done (outcome_r (store_err e)))"

definition dispatch_conn ::
  "config \<Rightarrow> bytes \<Rightarrow> bytes list \<Rightarrow> conn_state \<Rightarrow> (conn_state \<times> outcome) prog \<Rightarrow> (conn_state \<times> outcome) prog"
where
  "dispatch_conn cfg name argv cs els =
     (if name = ''PING'' then
        Done (cs, outcome_r (if length argv = 1 then R_Simple ''PONG''
          else if length argv = 2 then R_Bulk (Some (argv ! 1)) else wrong_args ''ping''))
      else if name = ''ECHO'' \<and> length argv = 2 then Done (cs, outcome_r (R_Bulk (Some (argv ! 1))))
      else if name = ''HELLO'' then Done (hello_cmd argv cs)
      else if name = ''QUIT'' then Done (cs, \<lparr>oc_reply = reply_ok, oc_quit = True, oc_persist = False\<rparr>)
      else if name = ''SELECT'' then Done (cs, outcome_r reply_ok)
      else if name = ''AUTH'' then Done (auth_cmd cfg argv cs)
      else if name = ''COMMAND'' then Done (cs, command_meta argv)
      else if name = ''CONFIG'' then Done (cs, config_cmd cfg argv)
      else if name = ''CLIENT'' then Done (client_cmd argv cs)
      else if name = ''INFO'' then
        q_dbsize (\<lambda>keys. q_shard_count (\<lambda>shards. Done (cs, outcome_r (R_Bulk (Some (info_text cfg keys shards))))))
      else if name = ''DBSIZE'' then q_dbsize (\<lambda>n. Done (cs, outcome_r (R_Int (int n))))
      else if name = ''FLUSHALL'' \<or> name = ''FLUSHDB'' then q_flush_all (Done (cs, outcome_w reply_ok))
      else els)"

definition dispatch_strings :: "bytes \<Rightarrow> bytes list \<Rightarrow> outcome prog \<Rightarrow> outcome prog" where
  "dispatch_strings name argv els =
     (if name = ''SET'' then set_cmd argv
      else if name = ''GET'' \<and> length argv = 2 then q_optstr (S_Get (argv ! 1)) optstr_or_err
      else if name = ''GETSET'' \<and> length argv = 3 then getset_cmd argv
      else if name = ''SETNX'' \<and> length argv = 3 then setnx_cmd argv
      else if name = ''SETEX'' \<or> name = ''PSETEX'' then setex_cmd argv (name = ''PSETEX'')
      else if name = ''MSET'' then mset_cmd argv
      else if name = ''MGET'' \<and> length argv \<ge> 2 then mget_cmd argv
      else if name = ''APPEND'' \<and> length argv = 3 then
        q_count (S_Append (argv ! 1) (argv ! 2)) (\<lambda>r.
          case r of Inr len \<Rightarrow> Done (outcome_w (R_Int (int len))) | Inl e \<Rightarrow> Done (outcome_r (store_err e)))
      else if name = ''STRLEN'' \<and> length argv = 2 then q_count (S_Strlen (argv ! 1)) (\<lambda>r. Done (int_or_err r))
      else if name = ''INCR'' then incr_cmd argv 1 False
      else if name = ''DECR'' then incr_cmd argv (- 1) False
      else if name = ''INCRBY'' then incr_cmd argv 0 True
      else if name = ''DECRBY'' then incr_cmd argv 0 True
      else els)"

definition dispatch_lists :: "bytes \<Rightarrow> bytes list \<Rightarrow> outcome prog \<Rightarrow> outcome prog" where
  "dispatch_lists name argv els =
     (if name = ''LPUSH'' then push_cmd argv True
      else if name = ''RPUSH'' then push_cmd argv False
      else if name = ''LPOP'' then pop_cmd argv True
      else if name = ''RPOP'' then pop_cmd argv False
      else if name = ''LLEN'' \<and> length argv = 2 then q_count (S_Llen (argv ! 1)) (\<lambda>r. Done (int_or_err r))
      else if name = ''LRANGE'' \<and> length argv = 4 then lrange_cmd argv
      else els)"

definition dispatch_hashes :: "bytes \<Rightarrow> bytes list \<Rightarrow> conn_state \<Rightarrow> outcome prog \<Rightarrow> outcome prog" where
  "dispatch_hashes name argv cs els =
     (if name = ''HSET'' \<or> name = ''HMSET'' then hset_cmd argv (name = ''HMSET'')
      else if name = ''HGET'' \<and> length argv = 3 then q_optstr (S_Hget (argv ! 1) (argv ! 2)) optstr_or_err
      else if name = ''HDEL'' \<and> length argv \<ge> 3 then q_count (S_Hdel (argv ! 1) (drop 2 argv)) (\<lambda>r. Done (count_or_err r))
      else if name = ''HLEN'' \<and> length argv = 2 then q_count (S_Hlen (argv ! 1)) (\<lambda>r. Done (int_or_err r))
      else if name = ''HEXISTS'' \<and> length argv = 3 then
        q_optstr (S_Hget (argv ! 1) (argv ! 2)) (\<lambda>r.
          case r of Inr v \<Rightarrow> Done (outcome_r (R_Int (of_bool (v \<noteq> None)))) | Inl e \<Rightarrow> Done (outcome_r (store_err e)))
      else if name = ''HGETALL'' \<and> length argv = 2 then hgetall_cmd argv cs
      else if (name = ''HKEYS'' \<or> name = ''HVALS'') \<and> length argv = 2 then hkeys_vals_cmd argv (name = ''HKEYS'')
      else if name = ''HMGET'' \<and> length argv \<ge> 3 then hmget_cmd argv
      else els)"

definition dispatch_sets :: "bytes \<Rightarrow> bytes list \<Rightarrow> outcome prog \<Rightarrow> outcome prog" where
  "dispatch_sets name argv els =
     (if name = ''SADD'' \<and> length argv \<ge> 3 then q_count (S_Sadd (argv ! 1) (drop 2 argv)) (\<lambda>r. Done (count_or_err r))
      else if name = ''SREM'' \<and> length argv \<ge> 3 then q_count (S_Srem (argv ! 1) (drop 2 argv)) (\<lambda>r. Done (count_or_err r))
      else if name = ''SISMEMBER'' \<and> length argv = 3 then
        q_member (S_Sismember (argv ! 1) (argv ! 2)) (\<lambda>r.
          case r of Inr b \<Rightarrow> Done (outcome_r (R_Int (of_bool b))) | Inl e \<Rightarrow> Done (outcome_r (store_err e)))
      else if name = ''SCARD'' \<and> length argv = 2 then q_count (S_Scard (argv ! 1)) (\<lambda>r. Done (int_or_err r))
      else if name = ''SMEMBERS'' \<and> length argv = 2 then q_strs (S_Smembers (argv ! 1)) (\<lambda>r. Done (bulks_or_err r))
      else els)"

definition dispatch_zsets :: "floats \<Rightarrow> bytes \<Rightarrow> bytes list \<Rightarrow> outcome prog \<Rightarrow> outcome prog" where
  "dispatch_zsets fl name argv els =
     (if name = ''ZADD'' then zadd_cmd fl argv
      else if name = ''ZSCORE'' \<and> length argv = 3 then
        q_score (S_Zscore (argv ! 1) (argv ! 2)) (\<lambda>r.
          case r of
            Inr (Some s) \<Rightarrow> Done (outcome_r (R_Bulk (Some (fmt_score (fl_show fl) s))))
          | Inr None \<Rightarrow> Done (outcome_r (R_Bulk None))
          | Inl e \<Rightarrow> Done (outcome_r (store_err e)))
      else if name = ''ZREM'' \<and> length argv \<ge> 3 then q_count (S_Zrem (argv ! 1) (drop 2 argv)) (\<lambda>r. Done (count_or_err r))
      else if name = ''ZCARD'' \<and> length argv = 2 then q_count (S_Zcard (argv ! 1)) (\<lambda>r. Done (int_or_err r))
      else if name = ''ZRANGE'' \<and> length argv \<ge> 4 then zrange_cmd fl argv
      else els)"

definition dispatch_keyspace :: "bytes \<Rightarrow> bytes list \<Rightarrow> outcome prog \<Rightarrow> outcome prog" where
  "dispatch_keyspace name argv els =
     (if (name = ''DEL'' \<or> name = ''UNLINK'') \<and> length argv \<ge> 2 then del_cmd argv
      else if name = ''EXISTS'' \<and> length argv \<ge> 2 then exists_cmd argv
      else if name = ''TYPE'' \<and> length argv = 2 then q_name (S_TypeOf (argv ! 1)) (\<lambda>t. Done (outcome_r (R_Simple t)))
      else if name = ''EXPIRE'' then expire_cmd argv 1000 False
      else if name = ''PEXPIRE'' then expire_cmd argv 1 False
      else if name = ''EXPIREAT'' then expire_cmd argv 1000 True
      else if name = ''PEXPIREAT'' then expire_cmd argv 1 True
      else if name = ''PERSIST'' \<and> length argv = 2 then persist_cmd argv
      else if name = ''TTL'' then ttl_cmd argv True
      else if name = ''PTTL'' then ttl_cmd argv False
      else if name = ''KEYS'' \<and> length argv = 2 then keys_cmd argv
      else if name = ''SCAN'' \<and> length argv \<ge> 2 then scan_cmd argv
      else els)"

definition dispatch_rest :: "bytes \<Rightarrow> bytes list \<Rightarrow> outcome prog" where
  "dispatch_rest name argv =
     (if name = ''SAVE'' \<or> name = ''BGSAVE'' then
        q_save (\<lambda>e. Done (outcome_r (case e of None \<Rightarrow> reply_ok | Some e \<Rightarrow> err (''snapshot failed: '' @ e))))
      else Done (outcome_r (R_Error (''ERR unknown command '' @ [CHR 0x27] @ utf8_lossy (argv ! 0) @ [CHR 0x27]))))"

definition dispatch_data :: "floats \<Rightarrow> bytes \<Rightarrow> bytes list \<Rightarrow> conn_state \<Rightarrow> outcome prog" where
  "dispatch_data fl name argv cs =
     dispatch_strings name argv (dispatch_lists name argv (dispatch_hashes name argv cs (dispatch_sets name argv
       (dispatch_zsets fl name argv (dispatch_keyspace name argv (dispatch_rest name argv))))))"

definition dispatch :: "floats \<Rightarrow> config \<Rightarrow> bytes list \<Rightarrow> conn_state \<Rightarrow> (conn_state \<times> outcome) prog" where
  "dispatch fl cfg argv cs =
     (let name = upper (argv ! 0) in dispatch_conn cfg name argv cs (plain cs (dispatch_data fl name argv cs)))"

section \<open>What is not logged has no effect\<close>

text \<open>The \<^verbatim>\<open>persist\<close> flag decides what reaches the log and the replicas. Handler by handler: whenever the
  flag is not set, every store operation that ran reported that it changed nothing.\<close>

abbreviation unlogged :: "outcome \<Rightarrow> bool" where
  "unlogged oc \<equiv> \<not> oc_persist oc"

named_theorems silent_simps \<open>handlers whose unlogged runs have no effect\<close>

lemma outcome_persist [simp]:
  "\<not> oc_persist (outcome_r r)" "oc_persist (outcome_w r)" "oc_persist (outcome_maybe r d) \<longleftrightarrow> d"
  by (simp_all add: outcome_r_def outcome_w_def outcome_maybe_def)

lemma logged_silent: "yields (\<lambda>r. \<not> P r) prog \<Longrightarrow> silent P prog"
  by (induction prog) auto

lemma count_or_err_persist [simp]: "oc_persist (count_or_err r) \<longleftrightarrow> \<not> zero_count r"
  by (auto simp: count_or_err_def split: sum.splits)

lemma int_or_err_persist [simp]: "\<not> oc_persist (int_or_err r)" "\<not> oc_persist (bulks_or_err s)"
  by (simp_all add: int_or_err_def bulks_or_err_def split: sum.split)

lemma silent_bools:
  assumes "\<And>x a. \<not> un_Bool a \<Longrightarrow> no_change (op x) a"
    and "\<And>ys. True \<in> set ys \<Longrightarrow> yields (\<lambda>r. \<not> P r) (k ys)" "\<And>ys. silent P (k ys)"
  shows "silent P (for_each (\<lambda>x. q_bool (op x)) xs k)"
  using assms(2,3)
proof (induction xs arbitrary: k)
  case (Cons x xs)
  have "yields (\<lambda>r. \<not> P r) (for_each (\<lambda>x. q_bool (op x)) xs (\<lambda>ys. k (True # ys)))"
    using Cons.prems(1) by (intro yields_for_each) auto
  moreover have "silent P (for_each (\<lambda>x. q_bool (op x)) xs (\<lambda>ys. k (b # ys)))" for b
    using Cons.prems by (intro Cons.IH) auto
  ultimately have "(no_effect (Q_Op (op x)) p \<or> yields (\<lambda>r. \<not> P r) (for_each (\<lambda>x. q_bool (op x)) xs (\<lambda>ys. k (un_Bool (the_answer p) # ys))))
      \<and> silent P (for_each (\<lambda>x. q_bool (op x)) xs (\<lambda>ys. k (un_Bool (the_answer p) # ys)))" for p
    using assms(1) [of "the_answer p" x] by (cases "un_Bool (the_answer p)") simp_all
  then show ?case by simp
qed simp

lemma silent_strings [silent_simps]:
  "silent unlogged (set_finish key v opts want_get old)"
  "silent unlogged (setnx_cmd argv)" "silent unlogged (incr_run_cmd key d)"
  by (auto simp: set_finish_def setnx_cmd_def incr_run_cmd_def split: sum.splits)

lemma silent_set [silent_simps]: "silent unlogged (set_cmd argv)"
  by (auto simp: set_cmd_def silent_simps split: sum.splits)

lemma silent_setex [silent_simps]: "silent unlogged (setex_cmd argv ms)" "silent unlogged (getset_cmd argv)"
  by (auto simp: setex_cmd_def getset_cmd_def Let_def split: sum.splits option.splits)

lemma silent_mset [silent_simps]: "silent unlogged (mset_cmd argv)"
  by (auto simp: mset_cmd_def intro!: logged_silent yields_for_each)

lemma silent_mget [silent_simps]: "silent unlogged (mget_cmd argv)" "silent unlogged (hmget_cmd argv)" "silent unlogged (exists_cmd argv)"
  unfolding mget_cmd_def hmget_cmd_def exists_cmd_def by (rule asks_silent, rule asks_for_each; simp)+

lemma silent_incr [silent_simps]: "silent unlogged (incr_cmd argv fixed by_arg)"
  by (auto simp: incr_cmd_def silent_simps split: option.splits)

lemma silent_lists [silent_simps]:
  "silent unlogged (push_cmd argv left)" "silent unlogged (pop_cmd argv left)" "silent unlogged (lrange_cmd argv)"
  by (auto simp: push_cmd_def pop_cmd_def pop_finish_def lrange_cmd_def split: sum.splits option.splits)

lemma silent_hashes [silent_simps]:
  "silent unlogged (hset_cmd argv hm)" "silent unlogged (hgetall_cmd argv cs)" "silent unlogged (hkeys_vals_cmd argv ks)"
  by (auto simp: hset_cmd_def hgetall_cmd_def hkeys_vals_cmd_def split: sum.splits)

lemma silent_zsets [silent_simps]: "silent unlogged (zadd_cmd fl argv)" "silent unlogged (zrange_cmd fl argv)"
  by (auto simp: zadd_cmd_def zrange_cmd_def Let_def split: sum.splits option.splits)

lemma silent_keyspace [silent_simps]:
  "silent unlogged (expire_cmd argv u ab)" "silent unlogged (persist_cmd argv)" "silent unlogged (ttl_cmd argv s)"
  "silent unlogged (keys_cmd argv)" "silent unlogged (scan_cmd argv)"
  by (auto simp: expire_cmd_def expire_finish_def persist_cmd_def ttl_cmd_def keys_cmd_def scan_cmd_def Let_def
      split: option.splits ttl.splits)

lemma silent_del [silent_simps]: "silent unlogged (del_cmd argv)"
  unfolding del_cmd_def by (rule silent_bools) (auto simp: Let_def filter_empty_conv)

lemma silent_if: "silent P a \<Longrightarrow> silent P b \<Longrightarrow> silent P (if c then a else b)"
  by simp

lemma silent_sections:
  "silent unlogged els \<Longrightarrow> silent unlogged (dispatch_strings name argv els)"
  "silent unlogged els \<Longrightarrow> silent unlogged (dispatch_lists name argv els)"
  "silent unlogged els \<Longrightarrow> silent unlogged (dispatch_hashes name argv cs els)"
  "silent unlogged els \<Longrightarrow> silent unlogged (dispatch_sets name argv els)"
  "silent unlogged els \<Longrightarrow> silent unlogged (dispatch_zsets fl name argv els)"
  "silent unlogged els \<Longrightarrow> silent unlogged (dispatch_keyspace name argv els)"
  "silent unlogged (dispatch_rest name argv)"
  unfolding dispatch_strings_def dispatch_lists_def dispatch_hashes_def dispatch_sets_def dispatch_zsets_def
    dispatch_keyspace_def dispatch_rest_def
  by (intro silent_if; auto simp: silent_simps split: sum.split option.split)+

lemma silent_dispatch: "silent (unlogged \<circ> snd) (dispatch fl cfg argv cs)"
  unfolding dispatch_def dispatch_conn_def dispatch_data_def plain_def Let_def
  by (intro silent_if; simp add: comp_def silent_sections)

section \<open>Properties\<close>

text \<open>C25: Every command, on every well-formed store, returns a reply and leaves the store well formed, and its
  store operations behave as the reference keyspace prescribes. A command whose outcome is not marked
  \<^verbatim>\<open>persist\<close>, and which therefore reaches neither the append-only file nor a replica, added and changed
  nothing: the entries left are entries that were there, and at every time from the last clock reading
  on the same keys are live with the same values and the same expiry.\<close>

theorem unlogged_no_effect:
  assumes "st_inv b st"
  shows "\<exists>st' m cs' oc. exec ev n (dispatch fl cfg argv cs) st = Some (st', m, cs', oc) \<and> st_inv b st'
    \<and> ks_exec (b \<noteq> 0) ev n (store_ks st) (dispatch fl cfg argv cs) (store_ks st') m (cs', oc)
    \<and> (\<not> oc_persist oc \<longrightarrow> store_ks st' \<subseteq>\<^sub>m store_ks st
       \<and> (\<forall>t. (\<forall>i. n \<le> i \<and> i < m \<longrightarrow> ev_clock ev i \<le> t) \<longrightarrow> still t (store_ks st) (store_ks st')))"
proof -
  obtain st' m cs' oc where run: "exec ev n (dispatch fl cfg argv cs) st = Some (st', m, cs', oc)" "st_inv b st'"
      "ks_exec (b \<noteq> 0) ev n (store_ks st) (dispatch fl cfg argv cs) (store_ks st') m (cs', oc)"
    using exec_allowed [OF assms, of ev n "dispatch fl cfg argv cs"] by (auto simp: returns_iff)
  have silent: "still t (store_ks st) (store_ks st') \<and> store_ks st' \<subseteq>\<^sub>m store_ks st"
    if "\<not> oc_persist oc" "\<forall>i. n \<le> i \<and> i < m \<longrightarrow> ev_clock ev i \<le> t" for t
    using exec_silent [OF assms run(1) silent_dispatch _ that(2)] that(1) by simp
  have "store_ks st' \<subseteq>\<^sub>m store_ks st" if "\<not> oc_persist oc"
    using exec_shrinks [OF assms run(1) silent_dispatch] that by simp
  with run silent show ?thesis by blast
qed

definition still_env :: environ where
  "still_env = \<lparr>ev_clock = \<lambda>_. 5, ev_seeds = \<lambda>_. zero_hashers, ev_save = \<lambda>_. None\<rparr>"

definition no_floats :: floats where
  "no_floats = \<lparr>fl_show = \<lambda>_. [], fl_parse = \<lambda>_. None\<rparr>"

lemmas dispatch_defs = dispatch_def dispatch_conn_def dispatch_data_def dispatch_strings_def dispatch_lists_def
  dispatch_hashes_def dispatch_sets_def dispatch_zsets_def dispatch_keyspace_def dispatch_rest_def plain_def

lemma upper_expire: "upper ''expire'' = ''EXPIRE''"
  by code_simp

lemma arg10: "arg_i64 ''10'' = Some 10"
  by code_simp

lemma four: "4 \<le> (2 :: nat) ^ 63"
  by simp

theorem unlogged_no_effect_witness:
  "\<exists>st' m cs'. exec still_env 0 (dispatch no_floats config_default [''expire'', ''k'', ''10''] (conn_new 1 True))
      (store_new (\<lambda>_. 7) zero_hashers 4 0) = Some (st', m, cs', outcome_r (R_Int 0))
    \<and> store_ks st' = Map.empty"
proof -
  let ?d = "dispatch no_floats config_default [''expire'', ''k'', ''10''] (conn_new 1 True)"
  have oc: "oc = outcome_r (R_Int 0)" if "ks_exec False still_env 0 Map.empty ?d f m (cs', oc)" for f m cs' oc
    using that
    by (simp add: dispatch_defs upper_expire expire_cmd_def arg10 expire_finish_def expire_flag_def ks_exec_Ask still_env_def ks_step_def expire_cell_def read_cell_def vis_def
      ans_def Let_def split: if_splits)
  obtain st' m cs' oc where run: "exec still_env 0 ?d (store_new (\<lambda>_. 7) zero_hashers 4 0) = Some (st', m, cs', oc)"
      "ks_exec False still_env 0 Map.empty ?d (store_ks st') m (cs', oc)" "\<not> oc_persist oc \<longrightarrow> store_ks st' \<subseteq>\<^sub>m Map.empty"
    using unlogged_no_effect [OF store_new_inv(1) [of 4 0 "\<lambda>_. 7" zero_hashers], of still_env 0 no_floats config_default
        "[''expire'', ''k'', ''10'']" "conn_new 1 True"]
    unfolding store_new_inv(2) [OF four] by (auto simp: budget_of_def)
  from oc [OF run(2)] run(3) have "store_ks st' = Map.empty" by (simp add: map_le_antisym)
  with run(1) oc [OF run(2)] show ?thesis by blast
qed

lemma arg_i64_show [simp]: "i64_range n \<Longrightarrow> arg_i64 (show_int n) = Some n"
  by (simp add: arg_i64_def utf8_graphic show_int_graphic parse_i64_show_int)

lemma upper_EXPIRE: "upper ''EXPIRE'' = ''EXPIRE''"
  by code_simp

text \<open>\<^verbatim>\<open>EXPIRE\<close> on a key without expiry, with the deadline as the code computes it.\<close>

lemma expire_runs:
  assumes inv: "st_inv 0 st" and k: "store_ks st k = Some \<lparr>en_value = v, en_expire_at = None\<rparr>" and n: "i64_range n"
  shows "\<exists>st'. exec ev i (dispatch fl cfg [''EXPIRE'', k, show_int n] cs) st = Some (st', i + 3, cs, outcome_w (R_Int 1))
    \<and> st_inv 0 st'
    \<and> store_ks st' = (store_ks st)(k \<mapsto> \<lparr>en_value = v, en_expire_at = Some (ev_clock ev (Suc i) + clamp_u64 n * 1000)\<rparr>)"
proof -
  let ?d = "dispatch fl cfg [''EXPIRE'', k, show_int n] cs"
  have d: "?d = plain cs (expire_cmd [''EXPIRE'', k, show_int n] 1000 False)"
    by (simp add: dispatch_defs upper_EXPIRE)
  have "g = (store_ks st)(k \<mapsto> \<lparr>en_value = v, en_expire_at = Some (ev_clock ev (Suc i) + clamp_u64 n * 1000)\<rparr>)
      \<and> m = i + 3 \<and> r = (cs, outcome_w (R_Int 1))"
    if "ks_exec False ev i (store_ks st) ?d g m r" for g m r
    using that n k unfolding d
    by (simp add: plain_def expire_cmd_def expire_finish_def ks_exec_Ask ks_step_def read_cell_def expire_cell_def
        ans_def Let_def vis_def expired_def fun_upd_idem)
  then show ?thesis using exec_allowed [OF inv, of ev i ?d] by (fastforce simp: returns_iff)
qed

text \<open>\<^verbatim>\<open>EXPIRE\<close> on a key without expiry answers 1 and changes nothing but that key's deadline, which becomes the
  clock's reading plus the given seconds in milliseconds, as long as the sum fits a \<^verbatim>\<open>u64\<close>.\<close>

theorem expire_deadline:
  assumes "st_inv 0 st" "store_ks st k = Some \<lparr>en_value = v, en_expire_at = None\<rparr>"
    and "0 \<le> n" "uint (ev_clock ev (Suc i)) + n * 1000 < 2 ^ 64"
  shows "\<exists>st' d. exec ev i (dispatch fl cfg [''EXPIRE'', k, show_int n] cs) st = Some (st', i + 3, cs, outcome_w (R_Int 1))
    \<and> st_inv 0 st' \<and> store_ks st' = (store_ks st)(k \<mapsto> \<lparr>en_value = v, en_expire_at = Some d\<rparr>)
    \<and> uint d = uint (ev_clock ev (Suc i)) + n * 1000"
proof -
  let ?d = "ev_clock ev (Suc i) + clamp_u64 n * 1000"
  have "n * 1000 < 2 ^ 64" using assms(4) uint_ge_0 [of "ev_clock ev (Suc i)"] by linarith
  then have "i64_range n" using assms(3) by (simp add: i64_range_def)
  moreover have "uint ?d = uint (ev_clock ev (Suc i)) + n * 1000"
  proof -
    have "?d = word_of_int (uint (ev_clock ev (Suc i)) + n * 1000)" using assms(3) by (simp add: clamp_u64_def)
    moreover have "uint (word_of_int x :: u64) = x" if "0 \<le> x" "x < 2 ^ 64" for x
      using that by (simp add: uint_word_of_int_eq take_bit_int_eq_self)
    ultimately show ?thesis using assms(3,4) by (metis uint_ge_0 add_nonneg_nonneg mult_nonneg_nonneg zero_le_numeral)
  qed
  ultimately show ?thesis using expire_runs [OF assms(1,2), of n ev i fl cfg cs] by blast
qed

text \<open>A well-formed store with given contents, as a run of some program on a new store.\<close>

lemma built_store:
  assumes "\<And>g m r. ks_exec False still_env 0 Map.empty prog g m r \<Longrightarrow> g = f"
  shows "\<exists>st. st_inv 0 st \<and> store_ks st = f"
proof -
  have inv: "st_inv 0 (store_new (\<lambda>_. 7) zero_hashers 4 0)" "store_ks (store_new (\<lambda>_. 7) zero_hashers 4 0) = Map.empty"
    using store_new_inv(1) [OF four, of 0] store_new_inv(2) [OF four] by (simp_all add: budget_of_def)
  with exec_allowed [OF inv(1), of still_env 0 prog] assms show ?thesis by (fastforce simp: returns_iff)
qed

lemma one_key_store: "\<exists>st. st_inv 0 st \<and> store_ks st = [''k'' \<mapsto> \<lparr>en_value = VStr ''v'', en_expire_at = None\<rparr>]"
  by (rule built_store [of "q_bool (S_Set ''k'' ''v'' default_options) Done"]) (simp add: ks_exec_Ask ks_step_def ans_def set_cell_def vis_def default_options_def Let_def)

theorem expire_deadline_witness:
  "\<exists>st st' d. exec still_env 0 (dispatch no_floats config_default [''EXPIRE'', ''k'', show_int 10] (conn_new 1 True)) st
      = Some (st', 3, conn_new 1 True, outcome_w (R_Int 1))
    \<and> store_ks st' ''k'' = Some \<lparr>en_value = VStr ''v'', en_expire_at = Some d\<rparr> \<and> uint d = 10005"
proof -
  obtain st where st: "st_inv 0 st" "store_ks st = [''k'' \<mapsto> \<lparr>en_value = VStr ''v'', en_expire_at = None\<rparr>]"
    using one_key_store by blast
  from expire_deadline [OF st(1), of "''k''" "VStr ''v''" 10 still_env 0 no_floats config_default "conn_new 1 True"] st(2)
  show ?thesis by (fastforce simp: still_env_def)
qed

text \<open>C26: The multiplication and the addition wrap. \<^verbatim>\<open>EXPIRE\<close> with the largest accepted number of seconds answers 1 and
  sets a deadline one second before the current time, so the key is gone at once.\<close>

theorem expire_wraps:
  assumes "st_inv 0 st" "store_ks st k = Some \<lparr>en_value = v, en_expire_at = None\<rparr>" "1000 \<le> ev_clock ev (Suc i)"
  shows "\<exists>st'. exec ev i (dispatch fl cfg [''EXPIRE'', k, show_int 9223372036854775807] cs) st
      = Some (st', i + 3, cs, outcome_w (R_Int 1))
    \<and> vis (ev_clock ev (Suc i)) (store_ks st' k) = None"
proof -
  have c: "clamp_u64 9223372036854775807 * 1000 = - 1000" by (simp add: clamp_u64_def)
  have "ev_clock ev (Suc i) - 1000 \<le> ev_clock ev (Suc i)" using assms(3) by (simp add: word_sub_le_iff)
  then have "vis (ev_clock ev (Suc i)) (Some \<lparr>en_value = v, en_expire_at = Some (ev_clock ev (Suc i) + clamp_u64 9223372036854775807 * 1000)\<rparr>) = None"
    unfolding c by (simp add: vis_def expired_def)
  then show ?thesis using expire_runs [OF assms(1,2), of 9223372036854775807 ev i fl cfg cs]
    by (force simp: i64_range_def)
qed

theorem expire_wraps_witness:
  "\<exists>st st'. exec (still_env\<lparr>ev_clock := \<lambda>_. 5000\<rparr>) 0
        (dispatch no_floats config_default [''EXPIRE'', ''k'', show_int 9223372036854775807] (conn_new 1 True)) st
      = Some (st', 3, conn_new 1 True, outcome_w (R_Int 1))
    \<and> vis 5000 (store_ks st ''k'') \<noteq> None \<and> vis 5000 (store_ks st' ''k'') = None"
proof -
  obtain st where st: "st_inv 0 st" "store_ks st = [''k'' \<mapsto> \<lparr>en_value = VStr ''v'', en_expire_at = None\<rparr>]"
    using one_key_store by blast
  then have "vis 5000 (store_ks st ''k'') \<noteq> None" by (simp add: vis_def expired_def)
  moreover from expire_wraps [OF st(1), of "''k''" "VStr ''v''" "still_env\<lparr>ev_clock := \<lambda>_. 5000\<rparr>" 0 no_floats config_default "conn_new 1 True"] st(2)
  obtain st' where "exec (still_env\<lparr>ev_clock := \<lambda>_. 5000\<rparr>) 0
        (dispatch no_floats config_default [''EXPIRE'', ''k'', show_int 9223372036854775807] (conn_new 1 True)) st
      = Some (st', 3, conn_new 1 True, outcome_w (R_Int 1))" "vis 5000 (store_ks st' ''k'') = None" by auto
  ultimately show ?thesis by blast
qed


end
