(* ===== verification/Persistence.thy ===== *)
theory Persistence
  imports Commands
begin

text \<open>
  \<^verbatim>\<open>crates/server/src/persistence.rs\<close>: the append-only file with its buffered writer, the replay of a
  file of commands, and snapshot files written through a temporary file. A file being written is
  the bytes it holds and the room left on the device, so that a write can fail at any byte; a file
  to be read is absent, unreadable or its contents. Replay is a program over the store, like the
  commands it runs.
\<close>

section \<open>Buffered output\<close>

text \<open>\<^verbatim>\<open>Write::write_all\<close> on a device with limited room, which keeps the part that fitted.\<close>

record sink =
  sk_data :: bytes
  sk_room :: nat
  sk_error :: string

definition write_all :: "sink \<Rightarrow> bytes \<Rightarrow> sink \<times> string option" where
  "write_all s b =
     (s\<lparr>sk_data := sk_data s @ take (sk_room s) b, sk_room := sk_room s - length b\<rparr>,
      if length b \<le> sk_room s then None else Some (sk_error s))"

text \<open>\<^verbatim>\<open>BufWriter\<close> of the standard library: a small write goes to the buffer, one that does not fit flushes
  it, one as large as the buffer goes past it. A flush that fails keeps what was not written.\<close>

record buf_writer =
  bw_buf :: bytes
  bw_inner :: sink

definition BUF_CAPACITY :: nat where "BUF_CAPACITY = 8 * 1024"

definition bw_flush :: "buf_writer \<Rightarrow> buf_writer \<times> string option" where
  "bw_flush w =
     (let (inner, e) = write_all (bw_inner w) (bw_buf w)
      in (\<lparr>bw_buf = drop (sk_room (bw_inner w)) (bw_buf w), bw_inner = inner\<rparr>, e))"

definition bw_direct :: "buf_writer \<Rightarrow> bytes \<Rightarrow> buf_writer \<times> string option" where
  "bw_direct w b =
     (if length b \<ge> BUF_CAPACITY then let (inner, e) = write_all (bw_inner w) b in (w\<lparr>bw_inner := inner\<rparr>, e)
      else (w\<lparr>bw_buf := bw_buf w @ b\<rparr>, None))"

definition bw_write_all :: "buf_writer \<Rightarrow> bytes \<Rightarrow> buf_writer \<times> string option" where
  "bw_write_all w b =
     (let spare = BUF_CAPACITY - length (bw_buf w) in
      if length b < spare then (w\<lparr>bw_buf := bw_buf w @ b\<rparr>, None)
      else if length b > spare then
        (case bw_flush w of (w, Some e) \<Rightarrow> (w, Some e) | (w, None) \<Rightarrow> bw_direct w b)
      else bw_direct w b)"

section \<open>The append-only file\<close>

record aof =
  aof_writer :: buf_writer

definition aof_open :: "sink \<Rightarrow> aof" where
  "aof_open file = \<lparr>aof_writer = \<lparr>bw_buf = [], bw_inner = file\<rparr>\<rparr>"

definition encode_command :: "bytes list \<Rightarrow> bytes \<Rightarrow> bytes" where
  "encode_command argv out =
     foldl (\<lambda>out a. out @ ''$'' @ show_nat (length a) @ CRLF @ a @ CRLF)
       (out @ ''*'' @ show_nat (length argv) @ CRLF) argv"

definition aof_append :: "aof \<Rightarrow> bytes list \<Rightarrow> aof \<times> string option" where
  "aof_append a argv =
     (case bw_write_all (aof_writer a) (encode_command argv []) of
        (w, Some e) \<Rightarrow> (\<lparr>aof_writer = w\<rparr>, Some e)
      | (w, None) \<Rightarrow> let (w, e) = bw_flush w in (\<lparr>aof_writer = w\<rparr>, e))"

section \<open>Replay\<close>

datatype file_state = Absent | Unreadable string | Contents bytes

function replay_loop :: "floats \<Rightarrow> config \<Rightarrow> bytes \<Rightarrow> conn_state \<Rightarrow> nat \<Rightarrow> nat prog" where
  "replay_loop fl cfg data cs applied =
     (if data = [] then Done applied
      else case parse_command data of
        Inr (Some (argv, consumed)) \<Rightarrow>
          if argv \<noteq> [] then
            prog_bind (dispatch fl cfg argv cs) (\<lambda>(cs, _). replay_loop fl cfg (drop consumed data) cs (applied + 1))
          else replay_loop fl cfg (drop consumed data) cs applied
      | Inr None \<Rightarrow> Done applied
      | Inl _ \<Rightarrow> Done applied)"
  by pat_completeness auto
termination
  by (relation "measure (\<lambda>(fl, cfg, data, cs, applied). length data)") (auto dest: parse_command_bounds)

declare replay_loop.simps [simp del]

definition replay_file :: "floats \<Rightarrow> config \<Rightarrow> file_state \<Rightarrow> (string + nat) prog" where
  "replay_file fl cfg f =
     (case f of
        Contents data \<Rightarrow> map_prog Inr (replay_loop fl cfg data conn_internal 0)
      | Absent \<Rightarrow> Done (Inr 0)
      | Unreadable e \<Rightarrow> Done (Inl e))"

definition load_aof :: "floats \<Rightarrow> config \<Rightarrow> file_state \<Rightarrow> (string + nat) prog" where
  "load_aof fl cfg f = replay_file fl cfg f"

definition load_snapshot :: "floats \<Rightarrow> config \<Rightarrow> file_state \<Rightarrow> (string + nat) prog" where
  "load_snapshot fl cfg f = replay_file fl cfg f"

section \<open>Snapshot files\<close>

text \<open>The file system as far as \<^verbatim>\<open>save_snapshot\<close> uses it: the files, the room on the device, and what creating
  and renaming answer.\<close>

record file_system =
  fs_files :: "string \<rightharpoonup> bytes"
  fs_room :: nat
  fs_write_error :: string
  fs_create_error :: "string option"
  fs_rename_error :: "string option"

text \<open>\<^verbatim>\<open>Path::with_extension\<close>: the extension is what follows the last dot of the file name, unless that dot
  begins the name.\<close>

definition file_stem :: "string \<Rightarrow> string" where
  "file_stem name =
     (let stem = rev (tl (dropWhile (\<lambda>c. c \<noteq> CHR ''.'') (rev name))) in
      if CHR ''.'' \<in> set name \<and> stem \<noteq> [] then stem else name)"

definition with_extension :: "string \<Rightarrow> string \<Rightarrow> string" where
  "with_extension path ext =
     (let name = rev (takeWhile (\<lambda>c. c \<noteq> CHR ''/'') (rev path));
          dir = rev (dropWhile (\<lambda>c. c \<noteq> CHR ''/'') (rev path))
      in dir @ file_stem name @ ''.'' @ ext)"

definition save_snapshot :: "(f64 \<Rightarrow> string) \<Rightarrow> u64 \<Rightarrow> store \<Rightarrow> string \<Rightarrow> file_system \<Rightarrow> file_system \<times> string option" where
  "save_snapshot fmt now st path fs =
     (let tmp = with_extension path ''tmp'' in
      case fs_create_error fs of
        Some e \<Rightarrow> (fs, Some e)
      | None \<Rightarrow>
          (let w = \<lparr>bw_buf = [], bw_inner = \<lparr>sk_data = [], sk_room = fs_room fs, sk_error = fs_write_error fs\<rparr>\<rparr>;
               (w, e) = (case bw_write_all w (dump_commands fmt now st) of
                           (w, Some e) \<Rightarrow> (w, Some e)
                         | (w, None) \<Rightarrow> bw_flush w);
               fs = fs\<lparr>fs_files := (fs_files fs)(tmp \<mapsto> sk_data (bw_inner w)), fs_room := sk_room (bw_inner w)\<rparr>
           in case e of
                Some e \<Rightarrow> (fs, Some e)
              | None \<Rightarrow>
                  (case fs_rename_error fs of
                     Some e \<Rightarrow> (fs, Some e)
                   | None \<Rightarrow> (fs\<lparr>fs_files := (fs_files fs)(tmp := None, path := fs_files fs tmp)\<rparr>, None))))"

section \<open>Appending\<close>

lemma encode_command_resp: "encode_command argv out = out @ resp_command argv"
  using write_cmd_resp [of out argv] by (simp add: encode_command_def write_cmd_def)

lemma bw_flush_empty: "bw_buf w = [] \<Longrightarrow> bw_flush w = (w, None)"
  by (cases w) (simp add: bw_flush_def write_all_def)

text \<open>A write to an empty buffer followed by a flush reaches the device, as far as there is room.\<close>

lemma bw_write_flush:
  assumes "bw_buf w = []"
  shows "\<exists>w'. (case bw_write_all w b of (w, Some e) \<Rightarrow> (w, Some e) | (w, None) \<Rightarrow> bw_flush w) = (w', snd (write_all (bw_inner w) b))
    \<and> bw_inner w' = fst (write_all (bw_inner w) b) \<and> (length b \<le> sk_room (bw_inner w) \<longrightarrow> bw_buf w' = [])"
proof (cases "length b < BUF_CAPACITY")
  case True
  with assms show ?thesis by (simp add: bw_write_all_def bw_flush_def Let_def split_def)
next
  case False
  let ?w = "w\<lparr>bw_inner := fst (write_all (bw_inner w) b)\<rparr>"
  have "bw_write_all w b = (?w, snd (write_all (bw_inner w) b))"
    using False assms by (auto simp: bw_write_all_def bw_flush_empty bw_direct_def Let_def split_def)
  moreover have "bw_flush ?w = (?w, None)" using assms by (intro bw_flush_empty) simp
  ultimately show ?thesis using assms by (cases "snd (write_all (bw_inner w) b)") auto
qed

definition aof_file :: "aof \<Rightarrow> bytes" where
  "aof_file a = sk_data (bw_inner (aof_writer a))"

definition aof_room :: "aof \<Rightarrow> nat" where
  "aof_room a = sk_room (bw_inner (aof_writer a))"

definition aof_flushed :: "aof \<Rightarrow> bool" where
  "aof_flushed a \<longleftrightarrow> bw_buf (aof_writer a) = []"

lemmas aof_defs = aof_file_def aof_room_def aof_flushed_def

lemma aof_append_step:
  assumes "aof_flushed a"
  shows "\<exists>a'. aof_append a argv = (a', if length (resp_command argv) \<le> aof_room a then None else Some (sk_error (bw_inner (aof_writer a))))
    \<and> aof_file a' = aof_file a @ take (aof_room a) (resp_command argv) \<and> aof_room a' = aof_room a - length (resp_command argv)
    \<and> (length (resp_command argv) \<le> aof_room a \<longrightarrow> aof_flushed a')"
proof -
  let ?w = "aof_writer a" and ?b = "resp_command argv"
  obtain w' where w': "(case bw_write_all ?w ?b of (w, Some e) \<Rightarrow> (w, Some e) | (w, None) \<Rightarrow> bw_flush w) = (w', snd (write_all (bw_inner ?w) ?b))"
      "bw_inner w' = fst (write_all (bw_inner ?w) ?b)" "length ?b \<le> sk_room (bw_inner ?w) \<longrightarrow> bw_buf w' = []"
    using bw_write_flush [of ?w ?b] assms by (auto simp: aof_flushed_def)
  have "aof_append a argv = (\<lparr>aof_writer = w'\<rparr>, snd (write_all (bw_inner ?w) ?b))"
    using w'(1) by (auto simp: aof_append_def encode_command_resp Let_def split: option.splits prod.splits)
  with w' show ?thesis by (auto simp: aof_defs write_all_def)
qed

section \<open>Replaying\<close>

primrec run_commands :: "floats \<Rightarrow> config \<Rightarrow> bytes list list \<Rightarrow> conn_state \<Rightarrow> conn_state prog" where
  "run_commands fl cfg [] cs = Done cs"
| "run_commands fl cfg (argv # cmds) cs = prog_bind (dispatch fl cfg argv cs) (\<lambda>(cs, _). run_commands fl cfg cmds cs)"

lemma run_commands_append:
  "run_commands fl cfg (as @ bs) cs = prog_bind (run_commands fl cfg as cs) (run_commands fl cfg bs)"
  by (induction as arbitrary: cs) (simp_all add: prog_bind_assoc split_def)

text \<open>What the log can hold: a command with a name, within the parser's limits.\<close>

definition loggable :: "bytes list \<Rightarrow> bool" where
  "loggable argv \<longleftrightarrow> argv \<noteq> [] \<and> wire_args argv"

lemma replay_nil [simp]: "replay_loop fl cfg [] cs n = Done n"
  by (simp add: replay_loop.simps)

lemma resp_command_not_Nil [simp]: "resp_command argv \<noteq> []"
  by (simp add: resp_command_def)

lemma replay_command:
  assumes "loggable argv"
  shows "replay_loop fl cfg (resp_command argv @ rest) cs n =
    prog_bind (dispatch fl cfg argv cs) (\<lambda>(cs, _). replay_loop fl cfg rest cs (n + 1))"
  using assms by (subst replay_loop.simps) (simp add: loggable_def parse_resp_command)

lemma replay_commands:
  "list_all loggable cmds \<Longrightarrow> replay_loop fl cfg (concat (map resp_command cmds) @ rest) cs n =
    prog_bind (run_commands fl cfg cmds cs) (\<lambda>cs. replay_loop fl cfg rest cs (n + length cmds))"
  by (induction cmds arbitrary: cs n) (simp_all add: replay_command prog_bind_assoc split_def)

lemma replay_torn:
  assumes "wire_args argv" "k < length (resp_command argv)"
  shows "replay_loop fl cfg (take k (resp_command argv)) cs n = Done n"
proof -
  have "parse_command (resp_command argv) = Inr (Some (argv, length (resp_command argv)))"
    using parse_resp_command [OF assms(1), of "[]"] by simp
  moreover have "resp_command argv ! 0 = CHR ''*''" by (simp add: resp_command_def)
  ultimately have "parse_command (take k (resp_command argv)) = Inr None" using assms(2) by (rule parse_array_prefix)
  then show ?thesis by (simp add: replay_loop.simps)
qed

text \<open>A star that is followed by the star of another command is not a number of arguments.\<close>

lemma replay_broken:
  assumes "newer \<noteq> []"
  shows "replay_loop fl cfg (''*'' @ concat (map resp_command newer)) cs n = Done n"
proof -
  obtain argv cmds where l: "newer = argv # cmds" using assms by (cases newer) auto
  let ?d = "show_nat (length argv)"
  have "CR \<notin> set (''*'' @ ?d)" using digits_no_CR by simp
  from read_line_append [OF this, of "''*''" "concat (map resp_arg argv) @ concat (map resp_command cmds)"]
  have "read_line (''*'' @ concat (map resp_command newer)) 1 = Some (''*'' @ ?d, length ?d + 4)"
    by (simp add: l resp_command_def)
  moreover have "\<exists>e. parse_int (''*'' @ ?d) = Inl e"
    by (simp add: parse_int_def parse_i64_def parse_signed_def parse_digits_def is_digit_def)
  ultimately have "\<exists>e. parse_command (''*'' @ concat (map resp_command newer)) = Inl e"
    by (auto simp: parse_command_def parse_array_command_def)
  then show ?thesis by (auto simp: replay_loop.simps)
qed

text \<open>Appending a list of commands, whatever each append answers.\<close>

definition append_all :: "aof \<Rightarrow> bytes list list \<Rightarrow> aof" where
  "append_all a cmds = foldl (\<lambda>a argv. fst (aof_append a argv)) a cmds"

lemma write_full: "sk_room s = 0 \<Longrightarrow> sk_data (fst (write_all s b)) = sk_data s \<and> sk_room (fst (write_all s b)) = 0"
  by (simp add: write_all_def)

lemma flush_full:
  "sk_room (bw_inner w) = 0 \<Longrightarrow>
     sk_data (bw_inner (fst (bw_flush w))) = sk_data (bw_inner w) \<and> sk_room (bw_inner (fst (bw_flush w))) = 0"
  by (simp add: bw_flush_def split_def Let_def write_full)

lemma bw_write_full:
  assumes "sk_room (bw_inner w) = 0"
  shows "sk_data (bw_inner (fst (bw_write_all w b))) = sk_data (bw_inner w) \<and> sk_room (bw_inner (fst (bw_write_all w b))) = 0"
proof -
  have d: "sk_data (bw_inner (fst (bw_direct w b))) = sk_data (bw_inner w) \<and> sk_room (bw_inner (fst (bw_direct w b))) = 0"
    if "sk_room (bw_inner w) = 0" for w
    using that by (simp add: bw_direct_def split_def Let_def write_full)
  obtain w' e where f: "bw_flush w = (w', e)" by (cases "bw_flush w")
  with flush_full [OF assms] have "sk_room (bw_inner w') = 0" "sk_data (bw_inner w') = sk_data (bw_inner w)" by auto
  with d [of w'] d [OF assms] assms f show ?thesis by (auto simp: bw_write_all_def Let_def split: option.split)
qed

lemma aof_append_full:
  assumes "aof_room a = 0"
  shows "aof_file (fst (aof_append a argv)) = aof_file a \<and> aof_room (fst (aof_append a argv)) = 0"
proof -
  obtain w e where w: "bw_write_all (aof_writer a) (encode_command argv []) = (w, e)" by (cases "bw_write_all (aof_writer a) (encode_command argv [])")
  with bw_write_full [of "aof_writer a" "encode_command argv []"] assms
  have "sk_room (bw_inner w) = 0" "sk_data (bw_inner w) = sk_data (bw_inner (aof_writer a))" by (auto simp: aof_defs)
  with flush_full [of w] w show ?thesis by (auto simp: aof_append_def aof_defs Let_def split_def split: option.split)
qed

lemma append_all_file:
  assumes "aof_room a = 0 \<or> aof_flushed a"
  shows "aof_file (append_all a cmds) = aof_file a @ take (aof_room a) (concat (map resp_command cmds))"
  using assms
proof (induction cmds arbitrary: a)
  case (Cons argv cmds)
  have step: "append_all a (argv # cmds) = append_all (fst (aof_append a argv)) cmds" by (simp add: append_all_def)
  show ?case
  proof (cases "aof_room a = 0")
    case True
    with aof_append_full [OF True, of argv] Cons.IH [of "fst (aof_append a argv)"] show ?thesis by (simp add: step)
  next
    case False
    with Cons.prems obtain a' where a': "fst (aof_append a argv) = a'" "aof_file a' = aof_file a @ take (aof_room a) (resp_command argv)"
        "aof_room a' = aof_room a - length (resp_command argv)" "length (resp_command argv) \<le> aof_room a \<longrightarrow> aof_flushed a'"
      using aof_append_step [of a argv] by auto
    then have "aof_room a' = 0 \<or> aof_flushed a'" by fastforce
    from Cons.IH [OF this] a' show ?thesis by (simp add: step)
  qed
qed (simp add: append_all_def)

lemma replay_cut:
  assumes "list_all loggable cmds"
  shows "\<exists>j \<le> length cmds. length (concat (map resp_command (take j cmds))) \<le> r \<and>
      (j < length cmds \<longrightarrow> r < length (concat (map resp_command (take (Suc j) cmds)))) \<and>
      (\<forall>cs n. replay_loop fl cfg (take r (concat (map resp_command cmds))) cs n =
        prog_bind (run_commands fl cfg (take j cmds) cs) (\<lambda>_. Done (n + j)))"
  using assms
proof (induction cmds arbitrary: r)
  case (Cons argv cmds)
  let ?e = "resp_command argv"
  show ?case
  proof (cases "r < length ?e")
    case True
    then have "take r (concat (map resp_command (argv # cmds))) = take r ?e" by simp
    with True Cons.prems replay_torn [of argv r fl cfg] show ?thesis
      by (intro exI [of _ 0]) (simp add: loggable_def)
  next
    case False
    define r' where "r' = r - length ?e"
    from False have r: "take r (concat (map resp_command (argv # cmds))) = ?e @ take r' (concat (map resp_command cmds))"
      by (simp add: r'_def)
    from Cons.IH [of r'] Cons.prems obtain j where j: "j \<le> length cmds" "length (concat (map resp_command (take j cmds))) \<le> r'"
      "j < length cmds \<longrightarrow> r' < length (concat (map resp_command (take (Suc j) cmds)))"
      "\<And>cs n. replay_loop fl cfg (take r' (concat (map resp_command cmds))) cs n =
        prog_bind (run_commands fl cfg (take j cmds) cs) (\<lambda>_. Done (n + j))" by auto
    have "replay_loop fl cfg (?e @ take r' (concat (map resp_command cmds))) cs n =
        prog_bind (run_commands fl cfg (take (Suc j) (argv # cmds)) cs) (\<lambda>_. Done (n + Suc j))" for cs n
      using Cons.prems by (simp add: replay_command j(4) prog_bind_assoc split_def)
    with j(1-3) False show ?thesis unfolding r by (intro exI [of _ "Suc j"]) (auto simp: r'_def)
  qed
qed simp

section \<open>Properties\<close>

text \<open>C31: Crash recovery of the append-only file. Commands appended to an empty log leave a prefix of their
  encodings in the file, wherever the device ran full and whatever the single appends answered. Loading that
  file runs exactly the commands that were written completely, in their order, reports their number, and drops
  the torn one.\<close>

theorem log_crash_recovery:
  assumes "list_all loggable cmds" "aof_flushed a" "aof_file a = []"
  shows "\<exists>j \<le> length cmds.
    aof_file (append_all a cmds) = take (aof_room a) (concat (map resp_command cmds))
    \<and> length (concat (map resp_command (take j cmds))) \<le> aof_room a
    \<and> (j = length cmds \<or> aof_room a < length (concat (map resp_command (take (Suc j) cmds))))
    \<and> load_aof fl cfg (Contents (aof_file (append_all a cmds))) =
        prog_bind (run_commands fl cfg (take j cmds) conn_internal) (\<lambda>_. Done (Inr j))"
proof -
  have "aof_file (append_all a cmds) = take (aof_room a) (concat (map resp_command cmds))"
    using append_all_file [of a cmds] assms by simp
  with replay_cut [OF assms(1), of "aof_room a" fl cfg] show ?thesis
    by (auto simp: load_aof_def replay_file_def map_prog_bind prog_bind_assoc comp_def nat_less_le)
qed

definition empty_aof :: "nat \<Rightarrow> aof" where
  "empty_aof room = aof_open \<lparr>sk_data = [], sk_room = room, sk_error = ''No space left on device''\<rparr>"

theorem log_crash_recovery_witness:
  "load_aof no_floats config_default (Contents (aof_file (append_all (empty_aof 35) [[''SET'', ''k'', ''1''], [''INCR'', ''k'']])))
     = prog_bind (run_commands no_floats config_default [[''SET'', ''k'', ''1'']] conn_internal) (\<lambda>_. Done (Inr 1))"
proof -
  define c where "c = [[''SET'', ''k'', ''1''], [''INCR'', ''k'']]"
  have "list_all loggable c" unfolding c_def by code_simp
  moreover have "aof_flushed (empty_aof 35)" "aof_file (empty_aof 35) = []" and room: "aof_room (empty_aof 35) = 35"
    by (simp_all add: aof_defs empty_aof_def aof_open_def)
  ultimately obtain j where j: "j \<le> length c" "length (concat (map resp_command (take j c))) \<le> 35"
      "j = length c \<or> 35 < length (concat (map resp_command (take (Suc j) c)))"
      "load_aof no_floats config_default (Contents (aof_file (append_all (empty_aof 35) c))) =
        prog_bind (run_commands no_floats config_default (take j c) conn_internal) (\<lambda>_. Done (Inr j))"
    using log_crash_recovery [of c "empty_aof 35" no_floats config_default] unfolding room by blast
  have len: "length (resp_command [''SET'', ''k'', ''1'']) = 27" "length (resp_command [''INCR'', ''k'']) = 21" by code_simp+
  have "j = 0 \<or> j = 1 \<or> j = 2" using j(1) by (auto simp: c_def)
  with j(2,3) len have "j = 1" by (auto simp: c_def)
  with j(4) show ?thesis by (simp add: c_def)
qed

text \<open>C32: A torn last command is not removed when the log is opened again, and new commands are appended after it.
  After a log that ends in the first byte of a command, nothing appended later is ever replayed, although each
  of those appends succeeds.\<close>

theorem torn_tail_hides_later:
  assumes "list_all loggable cmds" "newer \<noteq> []" "length (concat (map resp_command newer)) \<le> room"
  shows "let a = aof_open \<lparr>sk_data = concat (map resp_command cmds) @ take 1 (resp_command argv), sk_room = room, sk_error = e\<rparr> in
    aof_file (append_all a newer) = aof_file a @ concat (map resp_command newer)
    \<and> load_aof fl cfg (Contents (aof_file (append_all a newer))) =
        prog_bind (run_commands fl cfg cmds conn_internal) (\<lambda>_. Done (Inr (length cmds)))"
proof -
  let ?a = "aof_open \<lparr>sk_data = concat (map resp_command cmds) @ take 1 (resp_command argv), sk_room = room, sk_error = e\<rparr>"
  have a: "aof_flushed ?a" "aof_room ?a = room" "aof_file ?a = concat (map resp_command cmds) @ ''*''"
    by (simp_all add: aof_defs aof_open_def resp_command_def)
  have f: "aof_file (append_all ?a newer) = concat (map resp_command cmds) @ ''*'' @ concat (map resp_command newer)"
    using append_all_file [of ?a newer] a assms(3) by simp
  have "load_aof fl cfg (Contents (concat (map resp_command cmds) @ ''*'' @ concat (map resp_command newer))) =
      prog_bind (run_commands fl cfg cmds conn_internal) (\<lambda>_. Done (Inr (length cmds)))"
    using replay_broken [OF assms(2), of fl cfg]
    by (simp only: load_aof_def replay_file_def file_state.case replay_commands [OF assms(1)] map_prog_bind prog_bind_assoc)
       (simp add: comp_def)
  with f a show ?thesis by (simp add: Let_def)
qed

theorem torn_tail_hides_later_witness:
  "let a = aof_open \<lparr>sk_data = resp_command [''SET'', ''k'', ''1''] @ ''*'', sk_room = 100, sk_error = []\<rparr> in
    aof_file (append_all a [[''SET'', ''k'', ''2'']]) = aof_file a @ resp_command [''SET'', ''k'', ''2'']
    \<and> load_aof no_floats config_default (Contents (aof_file (append_all a [[''SET'', ''k'', ''2'']]))) =
        prog_bind (run_commands no_floats config_default [[''SET'', ''k'', ''1'']] conn_internal) (\<lambda>_. Done (Inr 1))"
proof -
  have "length (resp_command [''SET'', ''k'', ''2'']) = 27" "list_all loggable [[''SET'', ''k'', ''1'']]"
    "take 1 (resp_command []) = ''*''" by code_simp+
  then show ?thesis
    using torn_tail_hides_later [of "[[''SET'', ''k'', ''1'']]" "[[''SET'', ''k'', ''2'']]" 100 "[]" "[]" no_floats config_default]
    by simp
qed



end
