(* ===== verification/Restore.thy ===== *)
theory Restore
  imports Persistence
begin

text \<open>
  Restoring a snapshot: what \<^verbatim>\<open>dump_commands\<close> writes, replayed by \<^verbatim>\<open>replay_file\<close> through \<^verbatim>\<open>dispatch\<close> into an empty store,
  gives back the live entries. The hash index of a sorted set is rebuilt in the order of the dump; nothing else
  differs.
\<close>

section \<open>Rebuilding one value\<close>

definition norm_zset :: "zset \<Rightarrow> zset" where
  "norm_zset z = \<lparr>zs_scores = map (\<lambda>(sc, m). (m, ord_bits sc)) (zs_sorted z), zs_sorted = zs_sorted z\<rparr>"

definition norm_val :: "val \<Rightarrow> val" where
  "norm_val v = (case v of VZSet z \<Rightarrow> VZSet (norm_zset z) | _ \<Rightarrow> v)"

lemma pairs_concat: "pairs (concat (map (\<lambda>(a, b). [a, b]) ps)) = ps"
  by (induction ps) auto

lemma length_concat_pairs: "length (concat (map (\<lambda>(a, b). [a, b]) ps)) = 2 * length ps"
  by (induction ps) auto

lemma update_append: "a \<notin> set (map fst ps) \<Longrightarrow> AList.update a b ps = ps @ [(a, b)]"
  by (induction ps) auto

lemma hash_rebuild:
  "distinct (map fst (acc @ h)) \<Longrightarrow> count_ops hash_insert h acc = (length h, acc @ h)"
proof (induction h arbitrary: acc)
  case (Cons x h)
  obtain a b where x: "x = (a, b)" by (cases x)
  with Cons.prems have a: "a \<notin> set (map fst acc)" by auto
  then have "hash_insert acc (a, b) = (acc @ [(a, b)], True)"
    by (simp add: hash_insert_def update_append map_of_eq_None_iff)
  with Cons.IH [of "acc @ [x]"] Cons.prems x show ?case by simp
qed simp

lemma set_rebuild: "distinct (acc @ s) \<Longrightarrow> count_ops hset_insert s acc = (length s, acc @ s)"
proof (induction s arbitrary: acc)
  case (Cons x s)
  with Cons.IH [of "acc @ [x]"] show ?case by (simp add: hset_insert_def)
qed simp

lemma insort_last: "sorted (xs @ [x]) \<Longrightarrow> x \<notin> set xs \<Longrightarrow> insort_insert x xs = xs @ [x]"
  by (induction xs) (auto simp: insort_insert_key_def insort_is_Cons intro: antisym)

definition zset_of :: "(ord_f64 \<times> bytes) list \<Rightarrow> zset" where
  "zset_of xs = \<lparr>zs_scores = map (\<lambda>(sc, m). (m, ord_bits sc)) xs, zs_sorted = xs\<rparr>"

lemma norm_zset_of: "norm_zset z = zset_of (zs_sorted z)"
  by (simp add: norm_zset_def zset_of_def)

lemma zset_of_add:
  assumes "sorted (xs @ [x])" "snd x \<notin> set (map snd xs)"
  shows "zadd_op (zset_of xs) (ord_bits (fst x), snd x) = (zset_of (xs @ [x]), True)"
proof -
  obtain sc m where x: "x = (sc, m)" by (cases x)
  let ?ms = "map (\<lambda>(sc, m). (m, ord_bits sc)) xs"
  have m: "m \<notin> set (map fst ?ms)" using assms(2) x by force
  then have "insort_insert (sc, m) xs = xs @ [(sc, m)]"
    using assms x by (intro insort_last) (auto simp: image_iff)
  moreover have "AList.update m (ord_bits sc) ?ms = ?ms @ [(m, ord_bits sc)]" by (rule update_append [OF m])
  moreover have "map_of ?ms m = None" using m unfolding map_of_eq_None_iff by (simp only: set_map) simp
  ultimately show ?thesis by (simp add: x zadd_op_def zset_insert_def zset_of_def Let_def)
qed

lemma zset_rebuild:
  "sorted (acc @ xs) \<Longrightarrow> distinct (map snd (acc @ xs)) \<Longrightarrow>
     count_ops zadd_op (map (\<lambda>(sc, m). (ord_bits sc, m)) xs) (zset_of acc) = (length xs, zset_of (acc @ xs))"
proof (induction xs arbitrary: acc)
  case (Cons x xs)
  have "zadd_op (zset_of acc) (ord_bits (fst x), snd x) = (zset_of (acc @ [x]), True)"
    using Cons.prems by (intro zset_of_add) (auto simp: sorted_append)
  moreover have "count_ops zadd_op (map (\<lambda>(sc, m). (ord_bits sc, m)) xs) (zset_of (acc @ [x])) = (length xs, zset_of (acc @ x # xs))"
    using Cons.IH [of "acc @ [x]"] Cons.prems by simp
  ultimately show ?case by (simp add: split_def)
qed simp

lemma zset_ok_members:
  assumes "zset_ok z" shows "distinct (map snd (zs_sorted z))"
proof -
  have "inj_on snd (set (zs_sorted z))"
  proof (rule inj_onI)
    fix x y assume xy: "x \<in> set (zs_sorted z)" "y \<in> set (zs_sorted z)" "snd x = snd y"
    obtain s m where x: "x = (OrdF64 s, m)" by (metis ord_f64.exhaust surj_pair)
    obtain s' m' where y: "y = (OrdF64 s', m')" by (metis ord_f64.exhaust surj_pair)
    from xy zset_ok_mem [OF assms] show "x = y" unfolding x y by auto
  qed
  with assms show ?thesis by (simp add: distinct_map zset_ok_def)
qed

section \<open>Replaying the commands of one entry\<close>

text \<open>What the replay relies on: the scores of the entry are read back from the text the dump gives them, and a
  deadline fits the signed argument of \<^verbatim>\<open>PEXPIREAT\<close>.\<close>

definition restorable :: "floats \<Rightarrow> entry \<Rightarrow> bool" where
  "restorable fl e \<longleftrightarrow>
     (case en_value e of VZSet z \<Rightarrow> list_all (\<lambda>(sc, m). arg_f64 fl (fmt_score (fl_show fl) (ord_bits sc)) = Some (ord_bits sc)) (zs_sorted z)
      | _ \<Rightarrow> True) \<and>
     (case en_expire_at e of Some t \<Rightarrow> unat t < 2 ^ 63 | None \<Rightarrow> True)"

lemma zadd_pairs_scores:
  "list_all (\<lambda>(sc, m). arg_f64 fl (fmt sc) = Some (ord_bits sc)) xs \<Longrightarrow>
     zadd_pairs fl (map (\<lambda>(sc, m). (fmt sc, m)) xs) = Some (map (\<lambda>(sc, m). (ord_bits sc, m)) xs)"
  by (induction xs) auto

lemma upper_names:
  "upper ''SET'' = ''SET''" "upper ''RPUSH'' = ''RPUSH''" "upper ''HSET'' = ''HSET''" "upper ''SADD'' = ''SADD''"
  "upper ''ZADD'' = ''ZADD''" "upper ''PEXPIREAT'' = ''PEXPIREAT''"
  by code_simp+

lemma dispatch_recreate:
  "dispatch fl cfg (''SET'' # args) cs = plain cs (set_cmd (''SET'' # args))"
  "dispatch fl cfg (''RPUSH'' # args) cs = plain cs (push_cmd (''RPUSH'' # args) False)"
  "dispatch fl cfg (''HSET'' # args) cs = plain cs (hset_cmd (''HSET'' # args) False)"
  "dispatch fl cfg (''SADD'' # k # m # args) cs =
     plain cs (q_count (S_Sadd k (m # args)) (\<lambda>r. Done (count_or_err r)))"
  "dispatch fl cfg (''ZADD'' # args) cs = plain cs (zadd_cmd fl (''ZADD'' # args))"
  "dispatch fl cfg (''PEXPIREAT'' # args) cs = plain cs (expire_cmd (''PEXPIREAT'' # args) 1 True)"
  by (simp_all add: dispatch_defs upper_names)

lemma recreate_runs:
  assumes "ks_exec False ev n f (dispatch fl cfg (recreate (fl_show fl) k (en_value e)) cs) g m (cs', oc)"
    and "f k = None" "value_ok (en_value e)" "restorable fl e"
  shows "g = f(k \<mapsto> \<lparr>en_value = norm_val (en_value e), en_expire_at = None\<rparr>) \<and> cs' = cs"
proof (cases "en_value e")
  case (VStr v)
  with assms(1,2) show ?thesis
    by (simp add: dispatch_recreate plain_def set_cmd_def set_finish_def ks_exec_Ask ks_step_def ans_def set_cell_def vis_def
        default_options_def norm_val_def Let_def)
next
  case (VList l)
  with assms(1-3) show ?thesis
    by (cases l) (auto simp: dispatch_recreate plain_def push_cmd_def ks_exec_Ask ks_step_def ans_def coll_cell_def coll_entry_def
        list_variant_def list_push_def push_all_eq vis_def norm_val_def value_ok_def Let_def)
next
  case (VHash h)
  then have "count_ops hash_insert h [] = (length h, h)" "h \<noteq> []"
    using assms(3) hash_rebuild [of "[]" h] by (auto simp: value_ok_def)
  with VHash assms(1,2) show ?thesis
    by (auto simp: dispatch_recreate plain_def hset_cmd_def length_concat_pairs pairs_concat ks_exec_Ask ks_step_def ans_def
        coll_cell_def coll_entry_def hash_variant_def vis_def norm_val_def Let_def)
next
  case (VSet s)
  then have "count_ops hset_insert s [] = (length s, s)" "s \<noteq> []"
    using assms(3) set_rebuild [of "[]" s] by (auto simp: value_ok_def)
  with VSet assms(1,2) show ?thesis
    by (cases s) (auto simp: dispatch_recreate plain_def ks_exec_Ask ks_step_def ans_def
        coll_cell_def coll_entry_def set_variant_def vis_def norm_val_def Let_def)
next
  case (VZSet z)
  let ?ps = "map (\<lambda>(sc, m). (fmt_score (fl_show fl) (ord_bits sc), m)) (zs_sorted z)"
  have z: "zset_ok z" "zs_sorted z \<noteq> []" using assms(3) VZSet by (auto simp: value_ok_def zset_ok_def)
  have "count_ops zadd_op (map (\<lambda>(sc, m). (ord_bits sc, m)) (zs_sorted z)) zset_default = (length (zs_sorted z), norm_zset z)"
    using zset_rebuild [of "[]" "zs_sorted z"] zset_ok_members [OF z(1)] z(1)
    by (simp add: norm_zset_of zset_of_def zset_default_def zset_ok_def)
  moreover have "zadd_pairs fl ?ps = Some (map (\<lambda>(sc, m). (ord_bits sc, m)) (zs_sorted z))"
    using assms(4) VZSet zadd_pairs_scores [of fl "\<lambda>sc. fmt_score (fl_show fl) (ord_bits sc)"] by (simp add: restorable_def)
  moreover have "concat (map (\<lambda>(sc, m). [fmt_score (fl_show fl) (ord_bits sc), m]) (zs_sorted z)) = concat (map (\<lambda>(a, b). [a, b]) ?ps)"
    by (simp add: comp_def split_def)
  moreover have "zset_len (norm_zset z) \<noteq> 0" using z(2) by (simp add: norm_zset_def zset_len_def)
  ultimately show ?thesis using VZSet assms(1,2) z(2)
    by (auto simp: dispatch_recreate plain_def zadd_cmd_def length_concat_pairs pairs_concat ks_exec_Ask ks_step_def ans_def
        coll_cell_def coll_entry_def zset_variant_def vis_def norm_val_def Let_def simp del: map_map)
qed

definition norm_entry :: "entry \<Rightarrow> entry" where
  "norm_entry e = e\<lparr>en_value := norm_val (en_value e)\<rparr>"

lemma arg_i64_show_nat: "n < 2 ^ 63 \<Longrightarrow> arg_i64 (show_nat n) = Some (int n)"
  using arg_i64_show [of "int n"] by (simp add: show_int_def i64_range_def)

lemma pexpireat_runs:
  assumes "ks_exec False ev n f (dispatch fl cfg [''PEXPIREAT'', k, show_nat (unat t)] cs) g m (cs', oc)"
    and "f k = Some \<lparr>en_value = v, en_expire_at = None\<rparr>" "unat t < 2 ^ 63"
  shows "g = f(k \<mapsto> \<lparr>en_value = v, en_expire_at = Some t\<rparr>) \<and> cs' = cs"
  using assms
  by (simp add: dispatch_recreate plain_def expire_cmd_def expire_finish_def arg_i64_show_nat clamp_u64_def ks_exec_Ask ks_step_def
      read_cell_def expire_cell_def ans_def Let_def vis_def expired_def fun_upd_idem)

lemma entry_runs:
  assumes run: "ks_exec False ev n f (run_commands fl cfg (entry_commands (fl_show fl) (k, e)) cs) g m cs'"
    and "f k = None" "value_ok (en_value e)" "restorable fl e"
  shows "g = f(k \<mapsto> norm_entry e) \<and> cs' = cs"
proof -
  from run obtain h i oc cs1 where 1: "ks_exec False ev n f (dispatch fl cfg (recreate (fl_show fl) k (en_value e)) cs) h i (cs1, oc)"
      "ks_exec False ev i h (run_commands fl cfg
        (case en_expire_at e of Some t \<Rightarrow> [[''PEXPIREAT'', k, show_nat (unat t)]] | None \<Rightarrow> []) cs1) g m cs'"
    by (auto simp: entry_commands_def ks_exec_bind)
  from recreate_runs [OF 1(1) assms(2-4)] have h: "h = f(k \<mapsto> \<lparr>en_value = norm_val (en_value e), en_expire_at = None\<rparr>)" "cs1 = cs" by simp_all
  show ?thesis
  proof (cases "en_expire_at e")
    case None
    with 1(2) h show ?thesis by (cases e) (simp add: norm_entry_def)
  next
    case (Some t)
    with 1(2) h obtain oc i' where "ks_exec False ev i h (dispatch fl cfg [''PEXPIREAT'', k, show_nat (unat t)] cs) g i' (cs', oc)"
      by (auto simp: ks_exec_bind)
    from pexpireat_runs [OF this, of "norm_val (en_value e)"] h Some assms(4) show ?thesis
      by (cases e) (simp add: norm_entry_def restorable_def)
  qed
qed

lemma entries_run:
  assumes "ks_exec False ev n f (run_commands fl cfg (concat (map (entry_commands (fl_show fl)) es)) cs) g m cs'"
    and "distinct (map fst es)" "\<forall>k \<in> set (map fst es). f k = None"
    and "\<forall>(k, e) \<in> set es. value_ok (en_value e) \<and> restorable fl e"
  shows "g = f ++ (map_option norm_entry \<circ> map_of es)"
  using assms
proof (induction es arbitrary: n f cs)
  case (Cons x es)
  obtain k e where x: "x = (k, e)" by (cases x)
  from Cons.prems(1) obtain h i cs1 where 1: "ks_exec False ev n f (run_commands fl cfg (entry_commands (fl_show fl) (k, e)) cs) h i cs1"
      "ks_exec False ev i h (run_commands fl cfg (concat (map (entry_commands (fl_show fl)) es)) cs1) g m cs'"
    by (auto simp: x run_commands_append ks_exec_bind)
  have h: "h = f(k \<mapsto> norm_entry e)" using entry_runs [OF 1(1)] Cons.prems(3,4) x by auto
  have "g = h ++ (map_option norm_entry \<circ> map_of es)"
    using Cons.prems x h by (intro Cons.IH [OF 1(2)]) auto
  moreover have "k \<notin> dom (map_option norm_entry \<circ> map_of es)"
    using Cons.prems(2) x by (auto simp: dom_def map_of_eq_None_iff [symmetric])
  ultimately show ?case using h by (auto simp: x map_add_def fun_eq_iff split: option.split)
qed (simp add: map_add_def)

section \<open>Properties\<close>


definition half_floats :: floats where
  "half_floats = \<lparr>fl_show = \<lambda>_. ''1.5'', fl_parse = \<lambda>s. if s = ''1.5'' then Some 4609434218613702656 else None\<rparr>"

definition half_set :: entry where
  "half_set = \<lparr>en_value = VZSet \<lparr>zs_scores = [(''m'', 4609434218613702656)], zs_sorted = [(OrdF64 4609434218613702656, ''m'')]\<rparr>,
     en_expire_at = Some 99\<rparr>"

lemma half_store: "\<exists>st. st_inv 0 st \<and> store_ks st = [''z'' \<mapsto> half_set]"
  by (rule built_store [of "q_count (S_Zadd ''z'' [(4609434218613702656, ''m'')]) (\<lambda>_. q_bool (S_ExpireAt ''z'' (Some 99)) Done)"]) (simp add: ks_exec_Ask ks_step_def ans_def coll_cell_def coll_entry_def zset_variant_def zadd_op_def zset_insert_def zset_default_def
      zset_len_def insort_insert_key_def expire_cell_def vis_def expired_def half_set_def Let_def)

lemma half_score: "fmt_score fmt 4609434218613702656 = fmt 4609434218613702656"
proof -
  have "f64_exp 4609434218613702656 = 1023" "f64_frac 4609434218613702656 = 2251799813685248"
    by (simp_all add: f64_exp_def f64_frac_def mask_eq_exp_minus_1)
  then show ?thesis by (simp add: fmt_score_def is_integral_def f64_shift_def f64_mant_def)
qed

lemma half_ok: "restorable half_floats half_set \<and> list_all loggable (entry_commands (fl_show half_floats) (''z'', half_set))"
proof -
  have "utf8_valid ''1.5''" "show_nat 99 = ''99''" by code_simp+
  then show ?thesis
    by (simp add: restorable_def half_set_def half_floats_def half_score arg_f64_def entry_commands_def loggable_def wire_args_def
        MAX_ARRAY_LEN_def MAX_BULK_LEN_def)
qed


end
