(* ===== verification/Replication.thy ===== *)
theory Replication
  imports Restore
begin

text \<open>
  \<^verbatim>\<open>crates/server/src/repl.rs\<close>: the classification of commands as writes, by which a read-only replica
  rejects its clients' commands, and the wire form of propagated commands. The classification is
  shown to agree with what \<^verbatim>\<open>dispatch\<close> does: a command that is not classified as a write only reads.
\<close>

section \<open>The registry of replicas\<close>

text \<open>A socket is what was written to it and how much the peer will still take before writing fails. The
  counter next to the list is the one the hot path reads without the lock.\<close>

record replication =
  rp_replicas :: "sink list"
  rp_count :: nat

definition replication_new :: replication where
  "replication_new = \<lparr>rp_replicas = [], rp_count = 0\<rparr>"

definition has_replicas :: "replication \<Rightarrow> bool" where
  "has_replicas r \<longleftrightarrow> rp_count r > 0"

definition replica_count :: "replication \<Rightarrow> nat" where
  "replica_count r = rp_count r"

definition add_replica_with_snapshot :: "replication \<Rightarrow> sink \<Rightarrow> bytes \<Rightarrow> replication" where
  "add_replica_with_snapshot r sock snapshot =
     (case write_all sock snapshot of
        (sock, None) \<Rightarrow> \<lparr>rp_replicas = rp_replicas r @ [sock], rp_count = length (rp_replicas r @ [sock])\<rparr>
      | (sock, Some e) \<Rightarrow> r)"

definition propagate :: "replication \<Rightarrow> bytes \<Rightarrow> replication" where
  "propagate r bytes =
     (if rp_replicas r = [] then r
      else let v = map fst (filter (\<lambda>(s, e). e = None) (map (\<lambda>s. write_all s bytes) (rp_replicas r)))
           in \<lparr>rp_replicas = v, rp_count = length v\<rparr>)"

section \<open>The replica's side\<close>

datatype read_result = Data bytes | Failed string

text \<open>The inner loop of \<^verbatim>\<open>sync_once\<close>: every complete command of the buffer is applied. \<open>None\<close> is the return on a
  corrupt stream, else what is left of the buffer.\<close>

function sync_drain :: "floats \<Rightarrow> config \<Rightarrow> bytes \<Rightarrow> conn_state \<Rightarrow> (bytes \<times> conn_state) option prog" where
  "sync_drain fl cfg buf cs =
     (case parse_command buf of
        Inr (Some (argv, consumed)) \<Rightarrow>
          if argv \<noteq> [] then
            prog_bind (dispatch fl cfg argv cs) (\<lambda>(cs, _). sync_drain fl cfg (drop consumed buf) cs)
          else sync_drain fl cfg (drop consumed buf) cs
      | Inr None \<Rightarrow> Done (Some (buf, cs))
      | Inl _ \<Rightarrow> Done None)"
  by pat_completeness auto
termination
  by (relation "measure (\<lambda>(fl, cfg, buf, cs). length buf)") (auto dest: parse_command_bounds)

declare sync_drain.simps [simp del]

text \<open>The outer loop, over what the reads of the socket return; an empty read is the end of the stream.\<close>

fun sync_stream :: "floats \<Rightarrow> config \<Rightarrow> read_result list \<Rightarrow> bytes \<Rightarrow> conn_state \<Rightarrow> (string + unit) prog" where
  "sync_stream fl cfg [] buf cs = Done (Inr ())"
| "sync_stream fl cfg (Failed e # reads) buf cs = Done (Inl e)"
| "sync_stream fl cfg (Data chunk # reads) buf cs =
     (if chunk = [] then Done (Inr ())
      else prog_bind (sync_drain fl cfg (buf @ chunk) cs) (\<lambda>r.
        case r of None \<Rightarrow> Done (Inr ()) | Some (buf, cs) \<Rightarrow> sync_stream fl cfg reads buf cs))"

definition encode :: "bytes \<Rightarrow> bytes list \<Rightarrow> bytes" where
  "encode out args =
     foldl (\<lambda>out a. out @ ''$'' @ show_nat (length a) @ CRLF @ a @ CRLF)
       (out @ ''*'' @ show_nat (length args) @ CRLF) args"

text \<open>One session with the primary. The socket may fail to connect; the reply to \<^verbatim>\<open>AUTH\<close> is read once and
  ignored. The result is what was sent and the program that applies the stream.\<close>

definition sync_start :: "floats \<Rightarrow> config \<Rightarrow> sink \<Rightarrow> read_result list \<Rightarrow> sink \<times> (string + unit) prog" where
  "sync_start fl cfg sock reads =
     (case write_all sock (''*1'' @ CRLF @ ''$4'' @ CRLF @ ''SYNC'' @ CRLF) of
        (sock, Some e) \<Rightarrow> (sock, Done (Inl e))
      | (sock, None) \<Rightarrow> (sock, sync_stream fl cfg reads [] conn_internal))"

definition sync_once :: "floats \<Rightarrow> config \<Rightarrow> string + sink \<Rightarrow> read_result list \<Rightarrow> sink option \<times> (string + unit) prog" where
  "sync_once fl cfg connection reads =
     (case connection of
        Inl e \<Rightarrow> (None, Done (Inl e))
      | Inr sock \<Rightarrow>
          map_prod Some id
            (case cf_masterauth cfg of
               None \<Rightarrow> sync_start fl cfg sock reads
             | Some pass \<Rightarrow>
                 (case write_all sock (encode [] [''AUTH'', pass]) of
                    (sock, Some e) \<Rightarrow> (sock, Done (Inl e))
                  | (sock, None) \<Rightarrow>
                      (case reads of
                         Failed e # _ \<Rightarrow> (sock, Done (Inl e))
                       | _ \<Rightarrow> sync_start fl cfg sock (drop 1 reads)))))"

text \<open>The replica thread: one session after the other, whatever each ended with.\<close>

primrec replica_sessions :: "floats \<Rightarrow> config \<Rightarrow> ((string + sink) \<times> read_result list) list \<Rightarrow> unit prog" where
  "replica_sessions fl cfg [] = Done ()"
| "replica_sessions fl cfg (s # ss) = prog_bind (snd (sync_once fl cfg (fst s) (snd s))) (\<lambda>_. replica_sessions fl cfg ss)"

section \<open>Classification\<close>

definition is_write_command :: "bytes \<Rightarrow> bool" where
  "is_write_command name \<longleftrightarrow> name \<in>
     {''SET'', ''SETNX'', ''SETEX'', ''PSETEX'', ''GETSET'', ''MSET'', ''APPEND'', ''INCR'', ''DECR'', ''INCRBY'', ''DECRBY'',
      ''DEL'', ''UNLINK'', ''EXPIRE'', ''PEXPIRE'', ''EXPIREAT'', ''PEXPIREAT'', ''PERSIST'', ''FLUSHALL'', ''FLUSHDB'',
      ''LPUSH'', ''RPUSH'', ''LPOP'', ''RPOP'', ''HSET'', ''HMSET'', ''HDEL'', ''SADD'', ''SREM'', ''ZADD'', ''ZREM''}"

lemma encode_resp: "encode out args = out @ resp_command args"
  using write_cmd_resp [of out args] by (simp add: encode_def write_cmd_def)

lemma asks_readers:
  "asks read_request (mget_cmd argv)" "asks read_request (hmget_cmd argv)" "asks read_request (exists_cmd argv)"
  "asks read_request (lrange_cmd argv)" "asks read_request (hgetall_cmd argv cs)" "asks read_request (hkeys_vals_cmd argv ks)"
  "asks read_request (zrange_cmd fl argv)" "asks read_request (ttl_cmd argv s)" "asks read_request (keys_cmd argv)"
  "asks read_request (scan_cmd argv)"
  unfolding mget_cmd_def hmget_cmd_def exists_cmd_def
  by (rule asks_for_each; simp)+
     (auto simp: lrange_cmd_def hgetall_cmd_def hkeys_vals_cmd_def zrange_cmd_def ttl_cmd_def keys_cmd_def scan_cmd_def Let_def
       split: option.splits sum.splits)

lemma asks_if: "(c \<Longrightarrow> asks P a) \<Longrightarrow> asks P b \<Longrightarrow> asks P (if c then a else b)"
  by simp

lemma asks_sections:
  assumes "\<not> is_write_command name"
  shows "asks read_request els \<Longrightarrow> asks read_request (dispatch_strings name argv els)"
    "asks read_request els \<Longrightarrow> asks read_request (dispatch_lists name argv els)"
    "asks read_request els \<Longrightarrow> asks read_request (dispatch_hashes name argv cs els)"
    "asks read_request els \<Longrightarrow> asks read_request (dispatch_sets name argv els)"
    "asks read_request els \<Longrightarrow> asks read_request (dispatch_zsets fl name argv els)"
    "asks read_request els \<Longrightarrow> asks read_request (dispatch_keyspace name argv els)"
    "asks read_request (dispatch_rest name argv)"
  unfolding dispatch_strings_def dispatch_lists_def dispatch_hashes_def dispatch_sets_def dispatch_zsets_def
    dispatch_keyspace_def dispatch_rest_def
  by (intro asks_if; use assms in \<open>auto simp: is_write_command_def asks_readers split: sum.split option.split\<close>)+

lemma asks_dispatch:
  assumes "\<not> is_write_command (upper (argv ! 0))"
  shows "asks read_request (dispatch fl cfg argv cs)"
  unfolding dispatch_def dispatch_conn_def dispatch_data_def plain_def Let_def
  by (intro asks_if; use assms in \<open>auto simp: asks_sections is_write_command_def\<close>)

lemma yields_if: "(c \<Longrightarrow> yields P a) \<Longrightarrow> yields P b \<Longrightarrow> yields P (if c then a else b)"
  by simp

lemma yields_readers:
  "yields unlogged (mget_cmd argv)" "yields unlogged (hmget_cmd argv)" "yields unlogged (exists_cmd argv)"
  "yields unlogged (lrange_cmd argv)" "yields unlogged (hgetall_cmd argv cs)" "yields unlogged (hkeys_vals_cmd argv ks)"
  "yields unlogged (zrange_cmd fl argv)" "yields unlogged (ttl_cmd argv s)" "yields unlogged (keys_cmd argv)"
  "yields unlogged (scan_cmd argv)"
  unfolding mget_cmd_def hmget_cmd_def exists_cmd_def
  by (rule yields_for_each; simp)+
     (auto simp: lrange_cmd_def hgetall_cmd_def hkeys_vals_cmd_def zrange_cmd_def ttl_cmd_def keys_cmd_def scan_cmd_def Let_def
       split: option.splits sum.splits ttl.splits)

lemma conn_cmds_unlogged:
  "\<not> oc_persist (snd (hello_cmd argv cs))" "\<not> oc_persist (snd (auth_cmd cfg argv cs))" "\<not> oc_persist (command_meta argv)"
  "\<not> oc_persist (config_cmd cfg argv)" "\<not> oc_persist (snd (client_cmd argv cs))"
  by (auto simp: hello_cmd_def hello_reply_def auth_cmd_def command_meta_def config_cmd_def client_cmd_def Let_def split: option.split)

lemma yields_sections:
  assumes "\<not> is_write_command name"
  shows "yields unlogged els \<Longrightarrow> yields unlogged (dispatch_strings name argv els)"
    "yields unlogged els \<Longrightarrow> yields unlogged (dispatch_lists name argv els)"
    "yields unlogged els \<Longrightarrow> yields unlogged (dispatch_hashes name argv cs els)"
    "yields unlogged els \<Longrightarrow> yields unlogged (dispatch_sets name argv els)"
    "yields unlogged els \<Longrightarrow> yields unlogged (dispatch_zsets fl name argv els)"
    "yields unlogged els \<Longrightarrow> yields unlogged (dispatch_keyspace name argv els)"
    "yields unlogged (dispatch_rest name argv)"
  unfolding dispatch_strings_def dispatch_lists_def dispatch_hashes_def dispatch_sets_def dispatch_zsets_def
    dispatch_keyspace_def dispatch_rest_def
  by (intro yields_if; use assms in \<open>auto simp: is_write_command_def yields_readers split: sum.split option.split\<close>)+

lemma yields_dispatch:
  assumes "\<not> is_write_command (upper (argv ! 0))"
  shows "yields (unlogged \<circ> snd) (dispatch fl cfg argv cs)"
  unfolding dispatch_def dispatch_conn_def dispatch_data_def plain_def Let_def
  by (intro yields_if; use assms in \<open>auto simp: comp_def yields_sections conn_cmds_unlogged is_write_command_def\<close>)

text \<open>The classification by which a read-only replica rejects its clients' commands is sound. A command
  that is not classified as a write returns on every well-formed store, is never marked for the log, adds
  and changes no entry, and from the last clock reading on leaves the same keys live with the same values.\<close>

theorem unclassified_only_reads:
  assumes "st_inv b st" "\<not> is_write_command (upper (argv ! 0))"
  shows "\<exists>st' m cs' oc. exec ev n (dispatch fl cfg argv cs) st = Some (st', m, cs', oc) \<and> st_inv b st'
    \<and> \<not> oc_persist oc \<and> store_ks st' \<subseteq>\<^sub>m store_ks st
    \<and> (\<forall>t. (\<forall>i. n \<le> i \<and> i < m \<longrightarrow> ev_clock ev i \<le> t) \<longrightarrow> still t (store_ks st) (store_ks st'))"
proof -
  let ?d = "dispatch fl cfg argv cs"
  obtain st' m cs' oc where run: "exec ev n ?d st = Some (st', m, cs', oc)" "st_inv b st'"
    using exec_allowed [OF assms(1), of ev n ?d] by (auto simp: returns_iff)
  have "\<not> oc_persist oc" using exec_yieldsD [OF run(1) yields_dispatch [OF assms(2)]] by simp
  moreover have silent: "silent (\<lambda>_. True) ?d" by (rule asks_silent) (rule asks_dispatch [OF assms(2)])
  have "(\<forall>i. n \<le> i \<and> i < m \<longrightarrow> ev_clock ev i \<le> t) \<longrightarrow> still t (store_ks st) (store_ks st')" for t
    using exec_silent [OF assms(1) run(1) silent TrueI] by blast
  moreover have "store_ks st' \<subseteq>\<^sub>m store_ks st" by (rule exec_shrinks [OF assms(1) run(1) silent TrueI])
  ultimately show ?thesis using run by blast
qed

theorem unclassified_only_reads_witness:
  "\<exists>st st' m cs' oc. exec still_env 0 (dispatch no_floats config_default [''get'', ''k''] (conn_new 1 True)) st = Some (st', m, cs', oc)
    \<and> \<not> oc_persist oc \<and> store_ks st = [''k'' \<mapsto> \<lparr>en_value = VStr ''v'', en_expire_at = None\<rparr>] \<and> store_ks st' \<subseteq>\<^sub>m store_ks st"
proof -
  obtain st where st: "st_inv 0 st" "store_ks st = [''k'' \<mapsto> \<lparr>en_value = VStr ''v'', en_expire_at = None\<rparr>]"
    using one_key_store by blast
  have "\<not> is_write_command (upper ([''get'', ''k''] ! 0))" by code_simp
  from unclassified_only_reads [OF st(1) this, of still_env 0 no_floats config_default "conn_new 1 True"] st(2)
  show ?thesis by blast
qed

section \<open>The stream from primary to replica\<close>

text \<open>The beginning of a command, which the parser asks to be continued.\<close>

definition incomplete :: "bytes \<Rightarrow> bool" where
  "incomplete torn \<longleftrightarrow> (\<exists>argv k. loggable argv \<and> k < length (resp_command argv) \<and> torn = take k (resp_command argv))"

lemma incomplete_parse: "incomplete torn \<Longrightarrow> parse_command torn = Inr None"
  unfolding incomplete_def
proof (elim exE conjE)
  fix argv k assume a: "loggable argv" "k < length (resp_command argv)" "torn = take k (resp_command argv)"
  have "parse_command (resp_command argv) = Inr (Some (argv, length (resp_command argv)))"
    using parse_resp_command [of argv "[]"] a(1) by (simp add: loggable_def)
  moreover have "resp_command argv ! 0 = CHR ''*''" by (simp add: resp_command_def)
  ultimately show ?thesis unfolding a(3) using a(2) by (rule parse_array_prefix)
qed

lemma incomplete_Nil [simp]: "incomplete []"
proof -
  have "loggable [[]]" by code_simp
  then show ?thesis unfolding incomplete_def by (intro exI [of _ "[[]]"] exI [of _ 0]) simp
qed

text \<open>Wherever a stream of commands is cut, the first part is some whole commands and the beginning of the next.\<close>

lemma incomplete_prefix:
  assumes "loggable argv" "pre @ us = resp_command argv" "us \<noteq> []"
  shows "incomplete pre"
proof -
  have "pre = take (length pre) (resp_command argv)" "length pre < length (resp_command argv)"
    using assms(3) by (simp_all flip: assms(2))
  with assms(1) show ?thesis unfolding incomplete_def by blast
qed

lemma incomplete_append: "incomplete (a @ b) \<Longrightarrow> incomplete a"
  unfolding incomplete_def by (metis append_assoc append_take_drop_id incomplete_def incomplete_prefix append_is_Nil_conv drop_eq_Nil not_le)

lemma stream_cut:
  assumes "list_all loggable cmds" "incomplete torn" "pre @ rest = concat (map resp_command cmds) @ torn"
  obtains cmds1 cmds2 torn1 where "cmds = cmds1 @ cmds2" "pre = concat (map resp_command cmds1) @ torn1"
    "torn1 @ rest = concat (map resp_command cmds2) @ torn" "incomplete torn1"
  using assms
proof (induction cmds arbitrary: pre thesis)
  case Nil
  then have "incomplete pre" using incomplete_append [of pre rest] by simp
  with Nil.prems show ?case by simp
next
  case (Cons argv cmds)
  let ?e = "resp_command argv" and ?l = "concat (map resp_command cmds) @ torn"
  from Cons.prems(4) have "pre @ rest = ?e @ ?l" by simp
  then obtain us where "pre = ?e @ us \<and> us @ rest = ?l \<or> pre @ us = ?e \<and> us \<noteq> []"
    unfolding append_eq_append_conv2 by (metis append_Nil2 append_Nil)
  then show ?case
  proof (elim disjE conjE)
    assume u: "pre = ?e @ us" "us @ rest = ?l"
    from Cons.IH [OF _ _ Cons.prems(3) u(2)] Cons.prems(2) obtain cmds1 cmds2 torn1 where "cmds = cmds1 @ cmds2"
      "us = concat (map resp_command cmds1) @ torn1" "torn1 @ rest = concat (map resp_command cmds2) @ torn" "incomplete torn1" by auto
    with u(1) show ?thesis by (intro Cons.prems(1) [of "argv # cmds1" cmds2 torn1]) simp_all
  next
    assume "pre @ us = ?e" "us \<noteq> []"
    with Cons.prems(2) have "incomplete pre" by (intro incomplete_prefix) simp_all
    with Cons.prems show ?thesis by (intro Cons.prems(1) [of "[]" "argv # cmds" pre]) simp_all
  qed
qed

lemma drain_command:
  "loggable argv \<Longrightarrow> sync_drain fl cfg (resp_command argv @ rest) cs =
     prog_bind (dispatch fl cfg argv cs) (\<lambda>(cs, _). sync_drain fl cfg rest cs)"
  by (subst sync_drain.simps) (simp add: loggable_def parse_resp_command)

lemma drain_commands:
  "list_all loggable cmds \<Longrightarrow> incomplete torn \<Longrightarrow> sync_drain fl cfg (concat (map resp_command cmds) @ torn) cs =
     prog_bind (run_commands fl cfg cmds cs) (\<lambda>cs. Done (Some (torn, cs)))"
proof (induction cmds arbitrary: cs)
  case Nil
  then show ?case by (subst sync_drain.simps) (simp add: incomplete_parse)
qed (simp add: drain_command prog_bind_assoc split_def)

lemma stream_commands:
  assumes "list_all loggable cmds" "incomplete torn" "buf @ concat chunks = concat (map resp_command cmds) @ torn"
    and "[] \<notin> set chunks" "incomplete buf"
  shows "sync_stream fl cfg (map Data chunks) buf cs = prog_bind (run_commands fl cfg cmds cs) (\<lambda>_. Done (Inr ()))"
  using assms
proof (induction chunks arbitrary: buf cmds cs)
  case Nil
  then have "incomplete (concat (map resp_command cmds) @ torn)" by simp
  from incomplete_parse [OF this] have "cmds = []"
    using Nil.prems(1) by (cases cmds) (auto simp: loggable_def parse_resp_command)
  then show ?case by simp
next
  case (Cons chunk chunks)
  then have "(buf @ chunk) @ concat chunks = concat (map resp_command cmds) @ torn" by simp
  from stream_cut [OF Cons.prems(1,2) this] obtain cmds1 cmds2 torn1 where
    c: "cmds = cmds1 @ cmds2" "buf @ chunk = concat (map resp_command cmds1) @ torn1"
       "torn1 @ concat chunks = concat (map resp_command cmds2) @ torn" "incomplete torn1" .
  have l: "list_all loggable cmds1" "list_all loggable cmds2" using Cons.prems(1) c(1) by simp_all
  have "sync_stream fl cfg (map Data chunks) torn1 cs = prog_bind (run_commands fl cfg cmds2 cs) (\<lambda>_. Done (Inr ()))" for cs
    using Cons.prems c l by (intro Cons.IH) simp_all
  moreover have "chunk \<noteq> []" using Cons.prems(4) by auto
  ultimately show ?case
    by (simp add: c(1,2) drain_commands [OF l(1) c(4)] run_commands_append prog_bind_assoc)
qed

section \<open>Properties of the stream\<close>

text \<open>C34: A replica applies exactly the commands its primary sends, in their order, however the stream is cut into
  reads, and a command cut off by the end of the stream not at all.\<close>

theorem replica_applies_stream:
  assumes "list_all loggable cmds" "incomplete torn" "concat chunks = concat (map (encode []) cmds) @ torn" "[] \<notin> set chunks"
  shows "sync_stream fl cfg (map Data chunks) [] conn_internal = prog_bind (run_commands fl cfg cmds conn_internal) (\<lambda>_. Done (Inr ()))"
proof -
  have "map (encode []) cmds = map resp_command cmds" by (simp add: encode_resp)
  with assms show ?thesis by (intro stream_commands [where torn = torn]) simp_all
qed

theorem replica_applies_stream_witness:
  "sync_stream no_floats config_default [Data ''*1'', Data (CRLF @ ''$4'' @ CRLF @ ''PING''), Data (CRLF @ ''*3'')] [] conn_internal
     = prog_bind (run_commands no_floats config_default [[''PING'']] conn_internal) (\<lambda>_. Done (Inr ()))"
proof -
  have "incomplete ''*3''" unfolding incomplete_def
    by (rule exI [of _ "[''SET'', ''a'', ''b'']"], rule exI [of _ 2]) code_simp
  moreover have "list_all loggable [[''PING'']]"
    "concat [''*1'', CRLF @ ''$4'' @ CRLF @ ''PING'', CRLF @ ''*3''] = concat (map (encode []) [[''PING'']]) @ ''*3''"
    "[] \<notin> set [''*1'', CRLF @ ''$4'' @ CRLF @ ''PING'', CRLF @ ''*3'']" by code_simp+
  ultimately show ?thesis
    using replica_applies_stream [of "[[''PING'']]" "''*3''" "[''*1'', CRLF @ ''$4'' @ CRLF @ ''PING'', CRLF @ ''*3'']" no_floats config_default]
    by simp
qed

lemma write_ok: "snd (write_all s b) = None \<longleftrightarrow> length b \<le> sk_room s"
  by (simp add: write_all_def)

lemma write_more:
  "length a \<le> sk_room s \<Longrightarrow> fst (write_all (fst (write_all s a)) b) = fst (write_all s (a @ b))"
  by (simp add: write_all_def)

definition fits :: "bytes \<Rightarrow> sink \<Rightarrow> bool" where
  "fits b s \<longleftrightarrow> length b \<le> sk_room s"

lemma propagate_replicas: "rp_replicas (propagate r b) = map (\<lambda>s. fst (write_all s b)) (filter (fits b) (rp_replicas r))"
proof -
  have "filter (\<lambda>(s, e). e = None) (map (\<lambda>s. write_all s b) ss) = map (\<lambda>s. write_all s b) (filter (fits b) ss)" for ss
    by (induction ss) (auto simp: fits_def write_all_def)
  then show ?thesis by (simp add: propagate_def)
qed

text \<open>C35: What a replica is fed. After any number of propagated commands exactly those replicas are still
  registered that took every byte so far, each was sent all the commands in order, without gap or repetition,
  and the lock-free counter is the number of registered replicas.\<close>

theorem propagated_feed:
  assumes "rp_count r = length (rp_replicas r)"
  shows "rp_replicas (foldl propagate r bs) = map (\<lambda>s. fst (write_all s (concat bs))) (filter (fits (concat bs)) (rp_replicas r))
    \<and> rp_count (foldl propagate r bs) = length (rp_replicas (foldl propagate r bs))
    \<and> (has_replicas (foldl propagate r bs) \<longleftrightarrow> rp_replicas (foldl propagate r bs) \<noteq> [])"
proof -
  have "rp_replicas (foldl propagate r bs) = map (\<lambda>s. fst (write_all s (concat bs))) (filter (fits (concat bs)) (rp_replicas r))"
  proof (induction bs rule: rev_induct)
    case Nil
    have "fst (write_all s []) = s" "fits [] s" for s by (cases s, simp add: write_all_def) (simp add: fits_def)
    then show ?case by simp
  next
    case (snoc b bs)
    have "filter (fits b) (map (\<lambda>s. fst (write_all s (concat bs))) (filter (fits (concat bs)) ss)) =
        map (\<lambda>s. fst (write_all s (concat bs))) (filter (fits (concat (bs @ [b]))) ss)" for ss
      by (induction ss) (auto simp: fits_def write_all_def)
    moreover have "map (\<lambda>s. fst (write_all (fst (write_all s (concat bs))) b)) (filter (fits (concat bs @ b)) ss) =
        map (\<lambda>s. fst (write_all s (concat bs @ b))) (filter (fits (concat bs @ b)) ss)" for ss
      by (rule map_cong) (auto simp: fits_def write_more)
    ultimately show ?case using snoc by (simp add: propagate_replicas comp_def)
  qed
  moreover have "rp_count (foldl propagate r bs) = length (rp_replicas (foldl propagate r bs))"
    using assms by (induction bs rule: rev_induct) (simp_all add: propagate_def)
  ultimately show ?thesis by (simp add: has_replicas_def)
qed

theorem propagated_feed_witness:
  "map sk_data (rp_replicas (foldl propagate (add_replica_with_snapshot (add_replica_with_snapshot replication_new
      \<lparr>sk_data = [], sk_room = 4, sk_error = []\<rparr> ''S'') \<lparr>sk_data = [], sk_room = 100, sk_error = []\<rparr> ''S'') [''ab'', ''cd''])) = [''Sabcd'']"
proof -
  let ?r = "add_replica_with_snapshot (add_replica_with_snapshot replication_new
      \<lparr>sk_data = [], sk_room = 4, sk_error = []\<rparr> ''S'') \<lparr>sk_data = [], sk_room = 100, sk_error = []\<rparr> ''S''"
  have "rp_count ?r = length (rp_replicas ?r)" by (simp add: add_replica_with_snapshot_def replication_new_def write_all_def)
  from propagated_feed [OF this, of "[''ab'', ''cd'']"] show ?thesis
    by (simp add: add_replica_with_snapshot_def replication_new_def write_all_def fits_def)
qed

lemma single_entry:
  assumes "distinct (map fst xs)" "map_of xs = [k \<mapsto> e]" shows "xs = [(k, e)]"
proof -
  have "set (map fst xs) = {k}" using arg_cong [OF assms(2), of dom] by (simp add: dom_map_of_conv_image_fst)
  then have "length xs = 1" using distinct_card [OF assms(1)] by simp
  then obtain x where "xs = [x]" by (auto simp: length_Suc_conv)
  with assms(2) show ?thesis by (cases x) (auto dest: fun_cong [of _ _ k] simp: fun_eq_iff split: if_splits)
qed

lemma rpush_runs:
  assumes "ks_exec False ev n f (dispatch fl cfg ([''RPUSH'', k] @ l) cs) g m (cs', oc)" "l \<noteq> []"
    and "f k = (if l0 = [] then None else Some \<lparr>en_value = VList l0, en_expire_at = None\<rparr>)"
  shows "g = f(k \<mapsto> \<lparr>en_value = VList (l0 @ l), en_expire_at = None\<rparr>) \<and> cs' = cs"
  using assms
  by (cases l) (auto simp: dispatch_recreate plain_def push_cmd_def ks_exec_Ask ks_step_def ans_def coll_cell_def coll_entry_def
        list_variant_def list_push_def push_all_eq vis_def expired_def Let_def split: if_splits)

lemma session_runs:
  assumes "cf_masterauth cfg = None" "14 \<le> sk_room sock" "list_all loggable cmds" "concat (map resp_command cmds) \<noteq> []"
  shows "snd (sync_once fl cfg (Inr sock) [Data (concat (map resp_command cmds))]) =
    prog_bind (run_commands fl cfg cmds conn_internal) (\<lambda>_. Done (Inr ()))"
proof -
  have "sync_stream fl cfg (map Data [concat (map resp_command cmds)]) [] conn_internal =
      prog_bind (run_commands fl cfg cmds conn_internal) (\<lambda>_. Done (Inr ()))"
    using assms(3,4) by (intro stream_commands [where torn = "[]"]) simp_all
  with assms(1,2) show ?thesis by (simp add: sync_once_def sync_start_def write_all_def)
qed

text \<open>C36: A replica that connects again is sent the whole dump again and applies it on top of what it has. After two
  sessions with a primary that holds one list, the replica's list is the primary's list twice.\<close>

theorem reconnect_duplicates:
  assumes "st_inv b st" "store_ks st = [k \<mapsto> \<lparr>en_value = VList l, en_expire_at = None\<rparr>]" "loggable ([''RPUSH'', k] @ l)"
    and "cf_masterauth cfg = None" "14 \<le> sk_room sock" "shards \<le> 2 ^ 63"
  shows "let d = dump_commands (fl_show fl) now st in
    \<exists>st' m. exec ev n (replica_sessions fl cfg [(Inr sock, [Data d]), (Inr sock, [Data d])]) (store_new router hs shards 0) = Some (st', m, ())
      \<and> store_ks st' = [k \<mapsto> \<lparr>en_value = VList (l @ l), en_expire_at = None\<rparr>]"
proof -
  let ?e = "\<lparr>en_value = VList l, en_expire_at = None\<rparr>" and ?c = "[''RPUSH'', k] @ l" and ?st0 = "store_new router hs shards 0"
  define d where "d = dump_commands (fl_show fl) now st"
  have "(\<lambda>x. vis now (store_ks st x)) = [k \<mapsto> ?e]" by (auto simp: assms(2) vis_def expired_def)
  then have "live_entries now st = [(k, ?e)]"
    using live_entries_map [OF assms(1), of now] by (intro single_entry) simp_all
  then have d: "d = concat (map resp_command [?c])" by (simp add: d_def dump_commands_resp entry_commands_def)
  have l: "l \<noteq> []" using store_value_ok [OF assms(1), of k ?e] assms(2) by (simp add: value_ok_def)
  have s: "snd (sync_once fl cfg (Inr sock) [Data d]) = prog_bind (run_commands fl cfg [?c] conn_internal) (\<lambda>_. Done (Inr ()))"
    unfolding d using assms(3-5) by (intro session_runs) simp_all
  let ?p = "replica_sessions fl cfg [(Inr sock, [Data d]), (Inr sock, [Data d])]"
  have st0: "st_inv 0 ?st0" "store_ks ?st0 = Map.empty"
    using store_new_inv(1) [OF assms(6), of 0] store_new_inv(2) [OF assms(6)] by (simp_all add: budget_of_def)
  have "g = [k \<mapsto> \<lparr>en_value = VList (l @ l), en_expire_at = None\<rparr>]" if run: "ks_exec False ev n Map.empty ?p g m r" for g m r
  proof -
    from run obtain h i cs1 oc1 i' cs2 oc2 where
      1: "ks_exec False ev n Map.empty (dispatch fl cfg ?c conn_internal) h i (cs1, oc1)" and
      2: "ks_exec False ev i h (dispatch fl cfg ?c conn_internal) g i' (cs2, oc2)"
      by (simp add: s ks_exec_bind split_def) fast
    from rpush_runs [OF 1 l, of "[]"] have "h = [k \<mapsto> ?e]" by simp
    with rpush_runs [OF 2 l, of l] l show ?thesis by simp
  qed
  with exec_allowed [OF st0(1), of ev n ?p] st0(2) show ?thesis unfolding d_def [symmetric] by (auto simp: returns_iff Let_def)
qed

lemma list_store: "\<exists>st. st_inv 0 st \<and> store_ks st = [''l'' \<mapsto> \<lparr>en_value = VList [''x''], en_expire_at = None\<rparr>]"
  by (rule built_store [of "q_count (S_Push ''l'' [''x''] False) Done"]) (simp add: ks_exec_Ask ks_step_def ans_def coll_cell_def coll_entry_def list_variant_def
      list_push_def vis_def Let_def)

theorem reconnect_duplicates_witness:
  "\<exists>st st' m. store_ks st = [''l'' \<mapsto> \<lparr>en_value = VList [''x''], en_expire_at = None\<rparr>]
    \<and> exec still_env 0 (replica_sessions no_floats config_default
        [(Inr \<lparr>sk_data = [], sk_room = 20, sk_error = []\<rparr>, [Data (dump_commands (fl_show no_floats) 7 st)]),
         (Inr \<lparr>sk_data = [], sk_room = 20, sk_error = []\<rparr>, [Data (dump_commands (fl_show no_floats) 7 st)])])
        (store_new (\<lambda>_. 7) zero_hashers 4 0) = Some (st', m, ())
    \<and> store_ks st' = [''l'' \<mapsto> \<lparr>en_value = VList [''x'', ''x''], en_expire_at = None\<rparr>]"
proof -
  obtain st where st: "st_inv 0 st" "store_ks st = [''l'' \<mapsto> \<lparr>en_value = VList [''x''], en_expire_at = None\<rparr>]"
    using list_store by blast
  have "loggable ([''RPUSH'', ''l''] @ [''x''])" "cf_masterauth config_default = None" by code_simp+
  from reconnect_duplicates [OF st this, of "\<lparr>sk_data = [], sk_room = 20, sk_error = []\<rparr>" 4 no_floats 7 still_env 0 "\<lambda>_. 7" zero_hashers] st(2)
  show ?thesis by (auto simp: Let_def)
qed

end
