(* ===== verification/Conn.thy ===== *)
theory Conn
  imports Replication
begin

text \<open>
  \<^verbatim>\<open>crates/server/src/conn.rs\<close>: the loop that serves one connection, with the shared state of
  \<^verbatim>\<open>crates/server/src/server.rs\<close>. A session is the server, the number of clock readings and store operations so
  far, the state of the connection and its output buffer. What the socket delivers is a list of read
  results; what is sent to it is a sink.
\<close>

section \<open>State\<close>

record server =
  sv_store :: store
  sv_config :: config
  sv_aof :: "aof option"
  sv_repl :: replication
  sv_read_only :: bool

record session =
  se_server :: server
  se_tick :: nat
  se_conn :: conn_state
  se_out :: bytes

section \<open>The fast path\<close>

text \<open>The results are \<open>None\<close> where a writer would panic. Otherwise they are the output buffer and whether the
  command was a write, with \<open>None\<close> for a command that is left to \<^verbatim>\<open>dispatch\<close>.\<close>

definition fast_incr :: "bytes \<Rightarrow> int \<Rightarrow> bytes \<Rightarrow> (bytes \<times> bool) option prog" where
  "fast_incr key delta out =
     q_int (S_IncrBy key delta) (\<lambda>r.
       case r of
         Inr v \<Rightarrow> Done (map_option (\<lambda>out. (out, True)) (write_int out v))
       | Inl e \<Rightarrow> Done (Some (if e = WRONGTYPE then write_error out e else write_error out (''ERR '' @ e), False)))"

definition serve_fast :: "conn_state \<Rightarrow> bytes list \<Rightarrow> bytes \<Rightarrow> (bytes \<times> bool option) option prog" where
  "serve_fast cs argv out =
     (let name = upper (argv ! 0) in
      if name = ''GET'' \<and> length argv = 2 then
        q_read (S_ReadStr (argv ! 1)) (\<lambda>r.
          Done (map_option (\<lambda>out. (out, Some False))
            (case r of
               StrRead_Str b \<Rightarrow> write_bulk out b
             | StrRead_None \<Rightarrow> Some (write_null out (cs_resp3 cs))
             | StrRead_WrongType \<Rightarrow> Some (write_error out WRONGTYPE))))
      else if name = ''SET'' \<and> length argv = 3 then
        q_bool (S_Set (argv ! 1) (argv ! 2) default_options) (\<lambda>_. Done (Some (write_simple out ''OK'', Some True)))
      else if name = ''PING'' \<and> length argv = 1 then Done (Some (write_simple out ''PONG'', Some False))
      else if name = ''INCR'' \<and> length argv = 2 then map_prog (map_option (map_prod id Some)) (fast_incr (argv ! 1) 1 out)
      else if name = ''DECR'' \<and> length argv = 2 then map_prog (map_option (map_prod id Some)) (fast_incr (argv ! 1) (- 1) out)
      else Done (Some (out, None)))"

section \<open>One command\<close>

definition is_preauth_ok :: "bytes \<Rightarrow> bool" where
  "is_preauth_ok name \<longleftrightarrow> name = ''AUTH'' \<or> name = ''HELLO'' \<or> name = ''QUIT'' \<or> name = ''PING''"

text \<open>Durability and replication of a write. The result carries whether the connection is to be closed.\<close>

definition log_append :: "bytes list \<Rightarrow> session \<Rightarrow> session \<times> bool" where
  "log_append argv s =
     (case sv_aof (se_server s) of
        None \<Rightarrow> (s, False)
      | Some a \<Rightarrow>
          (case aof_append a argv of
             (a, None) \<Rightarrow> (s\<lparr>se_server := (se_server s)\<lparr>sv_aof := Some a\<rparr>\<rparr>, False)
           | (a, Some e) \<Rightarrow>
               (s\<lparr>se_server := (se_server s)\<lparr>sv_aof := Some a\<rparr>, se_out := write_error (se_out s) (''ERR aof write failed: '' @ e)\<rparr>, True)))"

definition log_propagate :: "bytes list \<Rightarrow> session \<Rightarrow> session" where
  "log_propagate argv s =
     (if has_replicas (sv_repl (se_server s))
      then s\<lparr>se_server := (se_server s)\<lparr>sv_repl := propagate (sv_repl (se_server s)) (encode [] argv)\<rparr>\<rparr>
      else s)"

definition log_write :: "bytes list \<Rightarrow> bool \<Rightarrow> session \<Rightarrow> session \<times> bool" where
  "log_write argv is_write s =
     (if is_write \<and> (sv_aof (se_server s) \<noteq> None \<or> has_replicas (sv_repl (se_server s))) then
        let (s, quit) = log_append argv s in (log_propagate argv s, quit)
      else (s, False))"

definition execute_command :: "floats \<Rightarrow> environ \<Rightarrow> bytes list \<Rightarrow> session \<Rightarrow> (session \<times> bool) option" where
  "execute_command fl ev argv s =
     (let sv = se_server s in
      do {
        (st, n, handled) \<leftarrow> exec ev (se_tick s) (serve_fast (se_conn s) argv (se_out s)) (sv_store sv);
        (out, fast) \<leftarrow> handled;
        case fast of
          Some is_write \<Rightarrow>
            Some (log_write argv is_write (s\<lparr>se_server := sv\<lparr>sv_store := st\<rparr>, se_tick := n, se_out := out\<rparr>))
        | None \<Rightarrow> do {
            (st, n, cs, oc) \<leftarrow> exec ev n (dispatch fl (sv_config sv) argv (se_conn s)) st;
            let out = out @ reply_encode (fl_show fl) (cs_resp3 cs) (oc_reply oc);
                (s, quit) = log_write argv (oc_persist oc) \<lparr>se_server = sv\<lparr>sv_store := st\<rparr>, se_tick = n, se_conn = cs, se_out = out\<rparr>
            in Some (s, oc_quit oc \<or> quit)
          }
      })"

definition run_command :: "floats \<Rightarrow> environ \<Rightarrow> bytes list \<Rightarrow> session \<Rightarrow> (session \<times> bool) option" where
  "run_command fl ev argv s =
     (let name = upper (argv ! 0) in
      if \<not> cs_authenticated (se_conn s) \<and> \<not> is_preauth_ok name then
        Some (s\<lparr>se_out := write_error (se_out s) ''NOAUTH Authentication required.''\<rparr>, False)
      else if sv_read_only (se_server s) \<and> is_write_command name then
        Some (s\<lparr>se_out := write_error (se_out s) (''READONLY You can'' @ [CHR 0x27] @ ''t write against a read only replica.'')\<rparr>, False)
      else execute_command fl ev argv s)"

section \<open>The commands of a buffer\<close>

text \<open>How the inner loop ends: with an incomplete command, with the connection to be closed, or with a \<^verbatim>\<open>SYNC\<close>.\<close>

datatype drained = More bytes | Quit | Sync

function run_buffer :: "floats \<Rightarrow> environ \<Rightarrow> bytes \<Rightarrow> session \<Rightarrow> (session \<times> drained) option" where
  "run_buffer fl ev buf s =
     (case parse_command_ranges buf of
        Inl e \<Rightarrow> Some (s\<lparr>se_out := write_error (se_out s) (''ERR Protocol error: '' @ protocol_error_display e)\<rparr>, Quit)
      | Inr None \<Rightarrow> Some (s, More buf)
      | Inr (Some (ranges, consumed)) \<Rightarrow>
          if ranges = [] then run_buffer fl ev (drop consumed buf) s
          else
            let argv = map (\<lambda>(off, len). slice off (off + len) buf) ranges; name = upper (argv ! 0) in
            if name = ''SYNC'' \<or> name = ''PSYNC'' then Some (s, Sync)
            else case run_command fl ev argv s of
              None \<Rightarrow> None
            | Some (s, quit) \<Rightarrow> if quit then Some (s, Quit) else run_buffer fl ev (drop consumed buf) s)"
  by pat_completeness auto
termination
  by (relation "measure (\<lambda>(fl, ev, buf, s). length buf)") (auto dest: parse_ranges_bounds)

declare run_buffer.simps [simp del]

section \<open>The connection\<close>

text \<open>A feed: the connection of a replica is read to its end, and what it sends is ignored.\<close>

fun passive_replica :: "read_result list \<Rightarrow> string option" where
  "passive_replica [] = None"
| "passive_replica (Failed e # reads) = Some e"
| "passive_replica (Data chunk # reads) = (if chunk = [] then None else passive_replica reads)"

text \<open>\<^verbatim>\<open>SYNC\<close>: the pending output is sent first; \<open>raw\<close> is \<open>None\<close> over TLS, else whether the socket could be cloned.\<close>

definition start_sync :: "floats \<Rightarrow> environ \<Rightarrow> bool option \<Rightarrow> session \<Rightarrow> sink \<Rightarrow> read_result list \<Rightarrow> session \<times> sink \<times> string option" where
  "start_sync fl ev raw s stream reads =
     (case (if se_out s = [] then (stream, None) else write_all stream (se_out s)) of
        (stream, Some e) \<Rightarrow> (s, stream, Some e)
      | (stream, None) \<Rightarrow>
          (case raw of
             Some cloned \<Rightarrow>
               let sv = se_server s;
                   snapshot = dump_commands (fl_show fl) (ev_clock ev (se_tick s)) (sv_store sv);
                   sv = (if cloned then sv\<lparr>sv_repl := add_replica_with_snapshot (sv_repl sv) stream snapshot\<rparr> else sv)
               in (s\<lparr>se_server := sv, se_tick := Suc (se_tick s), se_out := []\<rparr>, stream, passive_replica reads)
           | None \<Rightarrow>
               let (stream, e) = write_all stream (write_error [] ''ERR replication is not supported over TLS'')
               in (s\<lparr>se_out := []\<rparr>, stream, e)))"

fun run_reads ::
  "floats \<Rightarrow> environ \<Rightarrow> bool option \<Rightarrow> read_result list \<Rightarrow> bytes \<Rightarrow> session \<Rightarrow> sink \<Rightarrow> (session \<times> sink \<times> string option) option"
where
  "run_reads fl ev raw [] inbuf s stream = Some (s, stream, None)"
| "run_reads fl ev raw (Failed e # reads) inbuf s stream = Some (s, stream, Some e)"
| "run_reads fl ev raw (Data chunk # reads) inbuf s stream =
     (if chunk = [] then Some (s, stream, None)
      else case run_buffer fl ev (inbuf @ chunk) s of
        None \<Rightarrow> None
      | Some (s, Sync) \<Rightarrow> Some (start_sync fl ev raw s stream reads)
      | Some (s, r) \<Rightarrow>
          (case (if se_out s = [] then (stream, None) else write_all stream (se_out s)) of
             (stream, Some e) \<Rightarrow> Some (s, stream, Some e)
           | (stream, None) \<Rightarrow>
               let s = s\<lparr>se_out := []\<rparr> in
               (case r of
                  More inbuf \<Rightarrow> run_reads fl ev raw reads inbuf s stream
                | _ \<Rightarrow> Some (s, stream, None))))"

definition run_conn ::
  "floats \<Rightarrow> environ \<Rightarrow> bool option \<Rightarrow> u64 \<Rightarrow> read_result list \<Rightarrow> server \<Rightarrow> nat \<Rightarrow> sink \<Rightarrow> (session \<times> sink \<times> string option) option"
where
  "run_conn fl ev raw cid reads sv n stream =
     (let authed = (cf_requirepass (sv_config sv) = None)
      in run_reads fl ev raw reads [] \<lparr>se_server = sv, se_tick = n, se_conn = conn_new cid authed, se_out = []\<rparr> stream)"

section \<open>The fast path agrees with dispatch\<close>

definition read_answer :: "str_read \<Rightarrow> bytes option result" where
  "read_answer r = (case r of StrRead_Str b \<Rightarrow> Inr (Some b) | StrRead_None \<Rightarrow> Inr None | StrRead_WrongType \<Rightarrow> Inl WRONGTYPE)"

lemma sh_get_read: "sh_get now k s = map_option (map_prod id read_answer) (sh_read_str now k id s)"
  by (simp add: sh_get_def sh_read_str_def read_answer_def split: bind_splits option.split val.split)

lemma store_get_read:
  "store_step now (S_Get k) st = map_option (map_prod id (\<lambda>a. A_OptStr (read_answer (un_Read a)))) (store_step now (S_ReadStr k) st)"
  by (simp add: store_step_def on_shard_def answering_def sh_get_read split: bind_splits) 

lemma step_answer:
  assumes "st_inv b st"
  obtains st' where "store_step now op st = Some (st', snd (cell_step now op (store_ks st (op_key op))))" "st_inv b st'"
  using store_step_returns [OF assms, of now op] by (auto simp: returns_iff ks_step_def split_def Let_def)

lemma outcome_quit [simp]: "\<not> oc_quit (outcome_r r)" "\<not> oc_quit (outcome_w r)" "\<not> oc_quit (outcome_maybe r d)"
  by (simp_all add: outcome_r_def outcome_w_def outcome_maybe_def)

lemma outcome_reply [simp]: "oc_reply (outcome_r r) = r" "oc_reply (outcome_w r) = r" "oc_reply (outcome_maybe r d) = r"
  by (simp_all add: outcome_r_def outcome_w_def outcome_maybe_def)

text \<open>The text of a stored string can be written.\<close>

definition strings_fit :: "keyspace \<Rightarrow> bool" where
  "strings_fit f \<longleftrightarrow> (\<forall>k e v. f k = Some e \<longrightarrow> en_value e = VStr v \<longrightarrow> length v < 2 ^ 64)"

lemma fast_get:
  assumes inv: "st_inv b st" and fit: "strings_fit (store_ks st)" and a: "upper (argv ! 0) = ''GET''" "length argv = 2"
  shows "\<exists>st' oc. exec ev n (serve_fast cs argv out) st =
      Some (st', Suc n, Some (out @ reply_encode fmt (cs_resp3 cs) (oc_reply oc), Some (oc_persist oc)))
    \<and> exec ev n (dispatch fl cfg argv cs) st = Some (st', Suc n, cs, oc) \<and> \<not> oc_quit oc"
proof -
  let ?now = "ev_clock ev n" and ?k = "argv ! 1"
  obtain st' where st': "store_step ?now (S_ReadStr ?k) st = Some (st', snd (cell_step ?now (S_ReadStr ?k) (store_ks st ?k)))"
    using step_answer [OF inv, of ?now "S_ReadStr ?k"] by auto
  define r where "r = str_read_of (map_option en_value (vis ?now (store_ks st ?k)))"
  have r: "snd (cell_step ?now (S_ReadStr ?k) (store_ks st ?k)) = A_Read r" by (simp add: ans_def read_cell_def r_def)
  have g: "store_step ?now (S_Get ?k) st = Some (st', A_OptStr (read_answer r))" unfolding store_get_read st' r by simp
  have "length v < 2 ^ 64" if "r = StrRead_Str v" for v
    using that fit by (cases "store_ks st ?k") (auto simp: r_def str_read_of_def strings_fit_def vis_def split: option.splits val.splits if_splits)
  then show ?thesis
    using st' g r a
    by (cases r) (auto simp: serve_fast_def dispatch_defs read_answer_def write_bulk_show [of _ _ fmt "cs_resp3 cs"] write_null_def write_error_def store_err_def)
qed

lemma fast_set:
  assumes inv: "st_inv b st" and now: "\<And>i. ev_clock ev i = now" and a: "upper (argv ! 0) = ''SET''" "length argv = 3"
  shows "\<exists>st' oc. exec ev n (serve_fast cs argv out) st =
      Some (st', Suc n, Some (out @ reply_encode fmt (cs_resp3 cs) (oc_reply oc), Some (oc_persist oc)))
    \<and> exec ev n (dispatch fl cfg argv cs) st = Some (st', Suc (Suc n), cs, oc) \<and> \<not> oc_quit oc"
proof -
  let ?op = "S_Set (argv ! 1) (argv ! 2) default_options"
  obtain st' where st': "store_step now ?op st = Some (st', snd (cell_step now ?op (store_ks st (argv ! 1))))"
    using step_answer [OF inv, of now ?op] by auto
  moreover have "snd (cell_step now ?op (store_ks st (argv ! 1))) = A_Bool True"
    by (simp add: ans_def set_cell_def default_options_def Let_def)
  ultimately show ?thesis using a
    by (simp add: serve_fast_def dispatch_defs set_cmd_def set_finish_def now write_simple_def reply_ok_def)
qed

lemma fast_incr_agrees:
  assumes inv: "st_inv b st"
  shows "\<exists>st' oc. exec ev n (fast_incr k d out) st =
      Some (st', Suc n, Some (out @ reply_encode fmt resp3 (oc_reply oc), oc_persist oc))
    \<and> exec ev n (incr_run_cmd k d) st = Some (st', Suc n, oc) \<and> \<not> oc_quit oc"
proof -
  let ?now = "ev_clock ev n" and ?op = "S_IncrBy k d"
  obtain st' where st': "store_step ?now ?op st = Some (st', snd (cell_step ?now ?op (store_ks st k)))"
    using step_answer [OF inv, of ?now ?op] by auto
  obtain r where r: "snd (cell_step ?now ?op (store_ks st k)) = A_Int r" "\<And>v. r = Inr v \<Longrightarrow> i64_range v"
  proof
    show "snd (cell_step ?now ?op (store_ks st k)) = A_Int (snd (incr_cell ?now d (store_ks st k)))" by (simp add: ans_def)
  qed (auto simp: incr_cell_def Let_def split: sum.splits if_splits)
  then show ?thesis using st'
    by (cases r) (auto simp: fast_incr_def incr_run_cmd_def write_int_show write_error_def store_err_def err_def)
qed

text \<open>C7: The allocation-free fast path is equivalent to the general one. On every well-formed store it returns
  without panic. Either it leaves the command alone and has done nothing, or it has done what \<^verbatim>\<open>dispatch\<close> does at
  the same time on the same store: the same store afterwards, the bytes of the same reply, the same decision whether
  the command is logged, and the connection stays open.\<close>

theorem fast_path_agrees:
  assumes "st_inv b st" "strings_fit (store_ks st)" "\<And>i. ev_clock ev i = now"
  shows "\<exists>st' m out' fast. exec ev n (serve_fast cs argv out) st = Some (st', m, Some (out', fast))
    \<and> (case fast of
         None \<Rightarrow> st' = st \<and> m = n \<and> out' = out
       | Some is_write \<Rightarrow> \<exists>m' oc. exec ev n (dispatch fl cfg argv cs) st = Some (st', m', cs, oc)
           \<and> out' = out @ reply_encode (fl_show fl) (cs_resp3 cs) (oc_reply oc) \<and> oc_persist oc = is_write \<and> \<not> oc_quit oc)"
proof -
  let ?name = "upper (argv ! 0)"
  consider "?name = ''GET'' \<and> length argv = 2" | "?name = ''SET'' \<and> length argv = 3" | "?name = ''PING'' \<and> length argv = 1"
    | d :: int where "?name = ''INCR'' \<and> d = 1 \<or> ?name = ''DECR'' \<and> d = - 1" "length argv = 2"
    | "\<not> (?name = ''GET'' \<and> length argv = 2)" "\<not> (?name = ''SET'' \<and> length argv = 3)" "\<not> (?name = ''PING'' \<and> length argv = 1)"
      "\<not> (?name = ''INCR'' \<and> length argv = 2)" "\<not> (?name = ''DECR'' \<and> length argv = 2)"
    by blast
  then show ?thesis
  proof cases
    case 1
    then show ?thesis using fast_get [OF assms(1,2), of argv ev n cs out "fl_show fl" fl cfg] by auto
  next
    case 2
    then show ?thesis using fast_set [OF assms(1,3), of argv n cs out "fl_show fl" fl cfg] by auto
  next
    case 3
    then show ?thesis by (simp add: serve_fast_def dispatch_defs write_simple_def)
  next
    case (4 d)
    then have "serve_fast cs argv out = map_prog (map_option (map_prod id Some)) (fast_incr (argv ! 1) d out)"
      "dispatch fl cfg argv cs = plain cs (incr_run_cmd (argv ! 1) d)"
      by (auto simp: serve_fast_def dispatch_defs incr_cmd_def)
    with fast_incr_agrees [OF assms(1), of ev n "argv ! 1" d out "fl_show fl" "cs_resp3 cs"] show ?thesis
      by (auto simp: plain_def map_prog_bind exec_bind)
  next
    case 5
    then have "serve_fast cs argv out = Done (Some (out, None))" unfolding serve_fast_def Let_def by presburger
    then show ?thesis by simp
  qed
qed

theorem fast_path_agrees_witness:
  "\<exists>st st' m out' fast. store_ks st = [''k'' \<mapsto> \<lparr>en_value = VStr ''v'', en_expire_at = None\<rparr>]
    \<and> exec still_env 0 (serve_fast (conn_new 1 True) [''get'', ''k''] []) st = Some (st', m, Some (out', fast))
    \<and> (case fast of
         None \<Rightarrow> False
       | Some is_write \<Rightarrow> \<exists>m' oc. exec still_env 0 (dispatch no_floats config_default [''get'', ''k''] (conn_new 1 True)) st
             = Some (st', m', conn_new 1 True, oc)
           \<and> out' = reply_encode (fl_show no_floats) False (oc_reply oc) \<and> oc_persist oc = is_write)"
proof -
  obtain st where st: "st_inv 0 st" "store_ks st = [''k'' \<mapsto> \<lparr>en_value = VStr ''v'', en_expire_at = None\<rparr>]"
    using one_key_store by blast
  have "strings_fit (store_ks st)" by (simp add: strings_fit_def st(2))
  moreover have "ev_clock still_env i = 5" for i by (simp add: still_env_def)
  ultimately obtain st' m out' fast where r: "exec still_env 0 (serve_fast (conn_new 1 True) [''get'', ''k''] []) st = Some (st', m, Some (out', fast))"
      "case fast of None \<Rightarrow> st' = st \<and> m = 0 \<and> out' = []
       | Some is_write \<Rightarrow> \<exists>m' oc. exec still_env 0 (dispatch no_floats config_default [''get'', ''k''] (conn_new 1 True)) st = Some (st', m', conn_new 1 True, oc)
           \<and> out' = [] @ reply_encode (fl_show no_floats) (cs_resp3 (conn_new 1 True)) (oc_reply oc) \<and> oc_persist oc = is_write \<and> \<not> oc_quit oc"
    using fast_path_agrees [OF st(1), of still_env 5 0 "conn_new 1 True" "[''get'', ''k'']" "[]" no_floats config_default] by blast
  have "upper ''get'' = ''GET''" by code_simp
  then have "yields (\<lambda>r. \<forall>out fast. r = Some (out, fast) \<longrightarrow> fast \<noteq> None) (serve_fast (conn_new 1 True) [''get'', ''k''] [])"
    by (auto simp: serve_fast_def)
  from exec_yieldsD [OF r(1) this] have "fast \<noteq> None" by simp
  with st(2) r show ?thesis by (cases fast) (auto simp: conn_new_def)
qed

section \<open>Output is appended\<close>

text \<open>Every writer appends to the buffer it is given, so what a command answers does not depend on what is still
  to be sent.\<close>

definition after :: "bytes \<Rightarrow> session \<Rightarrow> session" where
  "after pre s = s\<lparr>se_out := pre @ se_out s\<rparr>"

lemma after_simps [simp]:
  "se_server (after pre s) = se_server s" "se_tick (after pre s) = se_tick s" "se_conn (after pre s) = se_conn s"
  "se_out (after pre s) = pre @ se_out s"
  by (simp_all add: after_def)

lemmas writers = write_bulk_def write_null_def write_simple_def write_error_def write_int_def write_uint_show

lemma exec_map: "exec ev n (map_prog h prog) st = map_option (\<lambda>(st, m, r). (st, m, h r)) (exec ev n prog st)"
  by (cases "exec ev n prog st") (auto simp: map_prog_bind exec_bind)

lemma serve_fast_after:
  "serve_fast cs argv (pre @ out) = map_prog (map_option (map_prod ((@) pre) id)) (serve_fast cs argv out)"
  by (simp add: serve_fast_def fast_incr_def Let_def writers prog.map_comp fun_eq_iff split: str_read.split sum.split)

lemma log_append_after: "log_append argv (after pre s) = map_prod (after pre) id (log_append argv s)"
  by (auto simp: log_append_def after_def write_error_def split: option.split prod.split)

lemma log_propagate_after: "log_propagate argv (after pre s) = after pre (log_propagate argv s)"
  by (simp add: log_propagate_def after_def)

lemma log_write_after: "log_write argv w (after pre s) = map_prod (after pre) id (log_write argv w s)"
  by (auto simp: log_write_def log_append_after log_propagate_after Let_def split_def)

lemma log_write_out:
  "log_write argv w (s\<lparr>se_out := pre @ out\<rparr>) = map_prod (after pre) id (log_write argv w (s\<lparr>se_out := out\<rparr>))"
  "log_write argv w \<lparr>se_server = sv, se_tick = n, se_conn = cs, se_out = pre @ out\<rparr> =
     map_prod (after pre) id (log_write argv w \<lparr>se_server = sv, se_tick = n, se_conn = cs, se_out = out\<rparr>)"
  using log_write_after [of argv w pre "s\<lparr>se_out := out\<rparr>"]
    log_write_after [of argv w pre "\<lparr>se_server = sv, se_tick = n, se_conn = cs, se_out = out\<rparr>"] by (simp_all add: after_def)

lemma run_command_after: "run_command fl ev argv (after pre s) = map_option (map_prod (after pre) id) (run_command fl ev argv s)"
  unfolding run_command_def execute_command_def Let_def after_simps serve_fast_after exec_map
  by (simp add: write_error_def log_write_out after_def split_def split: bind_splits option.split)

section \<open>Commands one after the other\<close>

fun serve_all :: "floats \<Rightarrow> environ \<Rightarrow> bytes list list \<Rightarrow> session \<Rightarrow> (session \<times> bool) option" where
  "serve_all fl ev [] s = Some (s, False)"
| "serve_all fl ev (argv # cmds) s =
     do { (s, quit) \<leftarrow> run_command fl ev argv s; if quit then Some (s, True) else serve_all fl ev cmds s }"

lemma serve_all_after: "serve_all fl ev cmds (after pre s) = map_option (map_prod (after pre) id) (serve_all fl ev cmds s)"
  by (induction cmds arbitrary: s) (auto simp: run_command_after split: bind_splits)

lemma serve_all_append:
  "serve_all fl ev (as @ bs) s = do { (s, quit) \<leftarrow> serve_all fl ev as s; if quit then Some (s, True) else serve_all fl ev bs s }"
  by (induction as arbitrary: s) (auto split: bind_splits)

lemma reply_encode_not_Nil [simp]: "reply_encode fmt resp3 r \<noteq> []"
  by (cases "(fmt, resp3, r)" rule: reply_encode.cases) (auto simp: Let_def)

text \<open>What every step of a session keeps.\<close>

definition same_server :: "server \<Rightarrow> server \<Rightarrow> bool" where
  "same_server sv sv' \<longleftrightarrow> sv_config sv' = sv_config sv \<and> sv_read_only sv' = sv_read_only sv"

lemma log_write_frame:
  "log_write argv w s = (s', quit) \<Longrightarrow> \<exists>more. se_out s' = se_out s @ more \<and> sv_store (se_server s') = sv_store (se_server s)
     \<and> same_server (se_server s) (se_server s') \<and> se_conn s' = se_conn s \<and> se_tick s' = se_tick s"
  by (auto simp: log_write_def log_append_def log_propagate_def write_error_def same_server_def Let_def split: if_splits option.splits prod.splits)

lemma serve_fast_returns:
  assumes "st_inv b st"
  obtains st' n' out' fast where "exec ev n (serve_fast cs argv out) st = Some (st', n', Some (out', fast))" "st_inv b st'"
    "fast = None \<Longrightarrow> out' = out" "fast \<noteq> None \<Longrightarrow> \<exists>more. more \<noteq> [] \<and> out' = out @ more"
proof -
  obtain st' n' r where run: "exec ev n (serve_fast cs argv out) st = Some (st', n', r)" "st_inv b st'"
    using exec_allowed [OF assms, of ev n "serve_fast cs argv out"] by (auto simp: returns_iff)
  let ?P = "\<lambda>r. \<exists>out' fast. r = Some (out', fast) \<and> (fast = None \<longrightarrow> out' = out) \<and> (fast \<noteq> None \<longrightarrow> (\<exists>more. more \<noteq> [] \<and> out' = out @ more))"
  have "yields ?P (serve_fast cs argv out)"
    by (auto simp: serve_fast_def fast_incr_def Let_def writers split: str_read.split sum.split)
  from exec_yieldsD [OF run(1) this] run that show thesis by blast
qed

definition answered :: "session \<Rightarrow> session \<Rightarrow> bool" where
  "answered s s' \<longleftrightarrow> same_server (se_server s) (se_server s') \<and> (\<exists>more. more \<noteq> [] \<and> se_out s' = se_out s @ more)"

lemma execute_command_returns:
  assumes "st_inv b (sv_store (se_server s))"
  shows "returns (execute_command fl ev argv s) (\<lambda>(s', quit). st_inv b (sv_store (se_server s')) \<and> answered s s')"
proof -
  let ?sv = "se_server s"
  obtain st n out fast where f: "exec ev (se_tick s) (serve_fast (se_conn s) argv (se_out s)) (sv_store ?sv) = Some (st, n, Some (out, fast))"
      "st_inv b st" "fast = None \<Longrightarrow> out = se_out s" "fast \<noteq> None \<Longrightarrow> \<exists>more. more \<noteq> [] \<and> out = se_out s @ more"
    using serve_fast_returns [OF assms] by blast
  show ?thesis
  proof (cases fast)
    case (Some w)
    let ?t = "s\<lparr>se_server := ?sv\<lparr>sv_store := st\<rparr>, se_tick := n, se_out := out\<rparr>"
    obtain s' quit where l: "log_write argv w ?t = (s', quit)" by (cases "log_write argv w ?t")
    from f(4) Some obtain more where "more \<noteq> []" "out = se_out s @ more" by auto
    with log_write_frame [OF l] f(1,2) l Some show ?thesis
      by (auto simp: execute_command_def answered_def same_server_def returns_iff)
  next
    case None
    obtain st1 n1 cs oc where d: "exec ev n (dispatch fl (sv_config ?sv) argv (se_conn s)) st = Some (st1, n1, cs, oc)" "st_inv b st1"
      using exec_allowed [OF f(2), of ev n "dispatch fl (sv_config ?sv) argv (se_conn s)"] by (auto simp: returns_iff)
    let ?e = "reply_encode (fl_show fl) (cs_resp3 cs) (oc_reply oc)"
    let ?t = "\<lparr>se_server = ?sv\<lparr>sv_store := st1\<rparr>, se_tick = n1, se_conn = cs, se_out = se_out s @ ?e\<rparr>"
    obtain s' quit where l: "log_write argv (oc_persist oc) ?t = (s', quit)" by (cases "log_write argv (oc_persist oc) ?t")
    from log_write_frame [OF l] obtain more where "se_out s' = se_out s @ ?e @ more" "sv_store (se_server s') = st1"
      "same_server ?sv (se_server s')" by (auto simp: same_server_def)
    with f(1,3) d l None show ?thesis
      by (auto simp: execute_command_def answered_def returns_iff)
  qed
qed

lemma run_command_returns:
  assumes "st_inv b (sv_store (se_server s))"
  shows "returns (run_command fl ev argv s) (\<lambda>(s', quit). st_inv b (sv_store (se_server s')) \<and> answered s s')"
  using execute_command_returns [OF assms, of fl ev argv] assms
  by (simp add: run_command_def answered_def same_server_def write_error_def Let_def)

section \<open>The loops\<close>

lemma parse_ranges_resp:
  assumes "loggable argv"
  obtains rs where "parse_command_ranges (resp_command argv @ rest) = Inr (Some (rs, length (resp_command argv)))"
    "map (resolve (resp_command argv @ rest)) rs = argv" "rs \<noteq> []"
proof -
  let ?buf = "resp_command argv @ rest"
  have "resolve_result ?buf (parse_command_ranges ?buf) = Inr (Some (argv, length (resp_command argv)))"
    using parse_ranges [of ?buf] parse_resp_command [of argv rest] assms by (simp add: loggable_def)
  then obtain rs where "parse_command_ranges ?buf = Inr (Some (rs, length (resp_command argv)))" "map (resolve ?buf) rs = argv"
    unfolding resolve_result_def by (cases "parse_command_ranges ?buf") (force simp del: append_assoc)+
  moreover from this assms have "rs \<noteq> []" by (auto simp: loggable_def)
  ultimately show thesis by (rule that)
qed

definition is_sync :: "bytes list \<Rightarrow> bool" where
  "is_sync argv \<longleftrightarrow> upper (argv ! 0) = ''SYNC'' \<or> upper (argv ! 0) = ''PSYNC''"

lemma run_buffer_command:
  assumes "loggable argv" "\<not> is_sync argv"
  shows "run_buffer fl ev (resp_command argv @ rest) s =
    do { (s, quit) \<leftarrow> run_command fl ev argv s; if quit then Some (s, Quit) else run_buffer fl ev rest s }"
proof -
  obtain rs where "parse_command_ranges (resp_command argv @ rest) = Inr (Some (rs, length (resp_command argv)))"
    "map (resolve (resp_command argv @ rest)) rs = argv" "rs \<noteq> []" using parse_ranges_resp [OF assms(1)] .
  with assms(2) show ?thesis
    by (subst run_buffer.simps) (auto simp: is_sync_def split: bind_splits option.split)
qed

lemma run_buffer_incomplete: "incomplete torn \<Longrightarrow> run_buffer fl ev torn s = Some (s, More torn)"
  using parse_ranges [of torn] incomplete_parse [of torn]
  by (subst run_buffer.simps) (auto simp: resolve_result_def split: sum.split option.split)

lemma run_buffer_commands:
  assumes "list_all loggable cmds" "list_all (\<lambda>c. \<not> is_sync c) cmds" "incomplete torn"
  shows "run_buffer fl ev (concat (map resp_command cmds) @ torn) s =
    map_option (\<lambda>(s, quit). (s, if quit then Quit else More torn)) (serve_all fl ev cmds s)"
  using assms
proof (induction cmds arbitrary: s)
  case Nil
  then show ?case by (simp add: run_buffer_incomplete)
next
  case (Cons argv cmds)
  then show ?case by (auto simp: run_buffer_command split: bind_splits)
qed

lemma serve_all_returns:
  assumes "st_inv b (sv_store (se_server s))"
  shows "returns (serve_all fl ev cmds s) (\<lambda>(s', quit). st_inv b (sv_store (se_server s')) \<and> same_server (se_server s) (se_server s')
    \<and> (\<exists>outs. se_out s' = se_out s @ concat outs \<and> [] \<notin> set outs
        \<and> (if quit then length outs \<le> length cmds else length outs = length cmds)))"
  using assms
proof (induction cmds arbitrary: s)
  case Nil
  then show ?case by (simp add: same_server_def)
next
  case (Cons argv cmds)
  obtain s1 q where 1: "run_command fl ev argv s = Some (s1, q)" "st_inv b (sv_store (se_server s1))" "answered s s1"
    using run_command_returns [OF Cons.prems, of fl ev argv] by (auto simp: returns_iff)
  then obtain more where more: "more \<noteq> []" "se_out s1 = se_out s @ more" "same_server (se_server s) (se_server s1)" by (auto simp: answered_def)
  show ?case
  proof (cases q)
    case True
    with 1 more show ?thesis by (auto intro!: exI [of _ "[more]"])
  next
    case False
    obtain s2 q2 outs where 2: "serve_all fl ev cmds s1 = Some (s2, q2)" "st_inv b (sv_store (se_server s2))" "same_server (se_server s1) (se_server s2)"
        "se_out s2 = se_out s1 @ concat outs" "[] \<notin> set outs" "if q2 then length outs \<le> length cmds else length outs = length cmds"
      using Cons.IH [OF 1(2)] by (auto simp: returns_iff)
    with 1 more False show ?thesis by (auto simp: same_server_def intro!: exI [of _ "more # outs"] split: if_splits)
  qed
qed

lemma write_nothing: "(if out = [] then (stream, None) else write_all stream out) = write_all stream out"
  by (cases stream) (simp add: write_all_def)

lemma write_fits:
  assumes "length out \<le> sk_room stream"
  obtains stream' where "write_all stream out = (stream', None)" "fst (write_all stream out) = stream'"
  using assms by (simp add: write_all_def)

lemma reads_commands:
  assumes "list_all loggable cmds" "list_all (\<lambda>c. \<not> is_sync c) cmds" "incomplete torn"
    and "buf @ concat chunks = concat (map resp_command cmds) @ torn" "[] \<notin> set chunks" "incomplete buf"
    and "se_out s = []" "serve_all fl ev cmds s = Some (s', quit)" "length (se_out s') \<le> sk_room stream"
  shows "run_reads fl ev raw (map Data chunks) buf s stream = Some (s'\<lparr>se_out := []\<rparr>, fst (write_all stream (se_out s')), None)"
  using assms
proof (induction chunks arbitrary: buf cmds s stream s')
  case Nil
  then have "incomplete (concat (map resp_command cmds) @ torn)" by simp
  from incomplete_parse [OF this] have "cmds = []"
    using Nil.prems(1) by (cases cmds) (auto simp: loggable_def parse_resp_command)
  with Nil.prems(7,8) show ?case by (cases stream) (simp add: write_all_def)
next
  case (Cons chunk chunks)
  then have "(buf @ chunk) @ concat chunks = concat (map resp_command cmds) @ torn" by simp
  from stream_cut [OF Cons.prems(1,3) this] obtain cmds1 cmds2 torn1 where
    c: "cmds = cmds1 @ cmds2" "buf @ chunk = concat (map resp_command cmds1) @ torn1"
       "torn1 @ concat chunks = concat (map resp_command cmds2) @ torn" "incomplete torn1" .
  note l = Cons.prems(1,2) [unfolded c(1) list_all_append]
  have ne: "chunk \<noteq> []" using Cons.prems(5) by auto
  from Cons.prems(8) obtain s1 q1 where 1: "serve_all fl ev cmds1 s = Some (s1, q1)"
      "(if q1 then Some (s1, True) else serve_all fl ev cmds2 s1) = Some (s', quit)"
    by (auto simp: c(1) serve_all_append bind_eq_Some_conv)
  have buf: "run_buffer fl ev (buf @ chunk) s = Some (s1, if q1 then Quit else More torn1)"
    unfolding c(2) using run_buffer_commands [of cmds1 torn1 fl ev s] l c(4) 1(1) by simp
  show ?case
  proof (cases q1)
    case True
    obtain stream' where "write_all stream (se_out s') = (stream', None)" using write_fits [OF Cons.prems(9)] by blast
    with True 1(2) buf ne show ?thesis by (simp add: write_nothing)
  next
    case False
    let ?s1 = "s1\<lparr>se_out := []\<rparr>" and ?str = "fst (write_all stream (se_out s1))"
    have "s1 = after (se_out s1) ?s1" by (simp add: after_def)
    with 1(2) False have "map_option (map_prod (after (se_out s1)) id) (serve_all fl ev cmds2 ?s1) = Some (s', quit)"
      by (metis serve_all_after)
    then obtain s2 where 2: "serve_all fl ev cmds2 ?s1 = Some (s2, quit)" "s' = after (se_out s1) s2" by auto
    have fits: "length (se_out s1) \<le> sk_room stream" "length (se_out s2) \<le> sk_room ?str"
      using Cons.prems(9) 2(2) by (simp_all add: write_all_def)
    have "run_reads fl ev raw (map Data chunks) torn1 ?s1 ?str = Some (s2\<lparr>se_out := []\<rparr>, fst (write_all ?str (se_out s2)), None)"
      using Cons.prems c l 2(1) fits by (intro Cons.IH [of cmds2]) simp_all
    moreover obtain stream' where "write_all stream (se_out s1) = (stream', None)" "?str = stream'" using write_fits [OF fits(1)] by blast
    ultimately show ?thesis using buf ne False write_more [OF fits(1), of "se_out s2"]
      by (simp add: write_nothing 2(2) after_def)
  qed
qed

definition new_session :: "u64 \<Rightarrow> server \<Rightarrow> nat \<Rightarrow> session" where
  "new_session cid sv n =
     \<lparr>se_server = sv, se_tick = n, se_conn = conn_new cid (cf_requirepass (sv_config sv) = None), se_out = []\<rparr>"

text \<open>C8: Every command that arrives is executed and answered. However the bytes of a sequence of commands are cut
  into reads, the connection loop returns, has executed the commands one after the other, and has sent one
  non-empty answer for each of them, in their order; after a command that closes the connection nothing more is done.
  A command of which only the beginning arrived has no effect.\<close>

theorem pipelined_commands_answered:
  assumes "st_inv b (sv_store sv)" "list_all loggable cmds" "list_all (\<lambda>c. \<not> is_sync c) cmds" "incomplete torn"
    and "concat chunks = concat (map resp_command cmds) @ torn" "[] \<notin> set chunks"
  shows "\<exists>s' quit outs. serve_all fl ev cmds (new_session cid sv n) = Some (s', quit) \<and> st_inv b (sv_store (se_server s'))
    \<and> se_out s' = concat outs \<and> [] \<notin> set outs \<and> (if quit then length outs \<le> length cmds else length outs = length cmds)
    \<and> (length (concat outs) \<le> sk_room stream \<longrightarrow>
        run_conn fl ev raw cid (map Data chunks) sv n stream = Some (s'\<lparr>se_out := []\<rparr>, fst (write_all stream (concat outs)), None))"
proof -
  let ?s = "new_session cid sv n"
  have "st_inv b (sv_store (se_server ?s))" using assms(1) by (simp add: new_session_def)
  from serve_all_returns [OF this, of fl ev cmds] obtain s' quit outs where s': "serve_all fl ev cmds ?s = Some (s', quit)"
      "st_inv b (sv_store (se_server s'))" "se_out s' = concat outs" "[] \<notin> set outs"
      "if quit then length outs \<le> length cmds else length outs = length cmds"
    by (auto simp: returns_iff new_session_def)
  have "run_conn fl ev raw cid (map Data chunks) sv n stream = Some (s'\<lparr>se_out := []\<rparr>, fst (write_all stream (concat outs)), None)"
    if "length (concat outs) \<le> sk_room stream"
    using reads_commands [OF assms(2-4), of "[]" chunks ?s fl ev s' quit stream raw] s' that assms(5,6)
    by (simp add: run_conn_def new_session_def)
  with s' show ?thesis by blast
qed

definition guarded_server :: server where
  "guarded_server = \<lparr>sv_store = store_new (\<lambda>_. 7) zero_hashers 4 0, sv_config = config_default\<lparr>cf_requirepass := Some ''secret''\<rparr>,
     sv_aof = None, sv_repl = replication_new, sv_read_only = False\<rparr>"

lemma guarded_inv: "st_inv 0 (sv_store guarded_server)" "store_ks (sv_store guarded_server) = Map.empty"
  using store_new_inv(1) [OF four, of 0] store_new_inv(2) [OF four] by (simp_all add: guarded_server_def budget_of_def)

lemma upper_ping: "upper ''PING'' = ''PING''"
  by code_simp

theorem pipelined_commands_answered_witness:
  "\<exists>s'. run_conn no_floats still_env None 1 [Data ''*1'', Data (CRLF @ ''$4'' @ CRLF @ ''PING''), Data (CRLF @ ''*3'')] guarded_server 0
      \<lparr>sk_data = [], sk_room = 100, sk_error = []\<rparr> = Some (s', \<lparr>sk_data = ''+PONG'' @ CRLF, sk_room = 93, sk_error = []\<rparr>, None)"
proof -
  let ?cs = "[''*1'', CRLF @ ''$4'' @ CRLF @ ''PING'', CRLF @ ''*3'']" and ?str = "\<lparr>sk_data = [], sk_room = 100, sk_error = []\<rparr>"
  have "incomplete ''*3''" unfolding incomplete_def
    by (rule exI [of _ "[''SET'', ''a'', ''b'']"], rule exI [of _ 2]) code_simp
  moreover have "list_all loggable [[''PING'']]" "list_all (\<lambda>c. \<not> is_sync c) [[''PING'']]"
    "concat ?cs = concat (map resp_command [[''PING'']]) @ ''*3''" "[] \<notin> set ?cs" by code_simp+
  ultimately obtain s' quit outs where s': "serve_all no_floats still_env [[''PING'']] (new_session 1 guarded_server 0) = Some (s', quit)"
      "se_out s' = concat outs" and run: "length (concat outs) \<le> sk_room ?str \<Longrightarrow>
        run_conn no_floats still_env None 1 (map Data ?cs) guarded_server 0 ?str = Some (s'\<lparr>se_out := []\<rparr>, fst (write_all ?str (concat outs)), None)"
    using pipelined_commands_answered [OF guarded_inv(1), of "[[''PING'']]" "''*3''" ?cs no_floats still_env 1 0 ?str None] by blast
  have "serve_all no_floats still_env [[''PING'']] (new_session 1 guarded_server 0) =
      Some ((new_session 1 guarded_server 0)\<lparr>se_out := ''+PONG'' @ CRLF\<rparr>, False)"
    by (simp add: run_command_def execute_command_def upper_ping is_preauth_ok_def serve_fast_def new_session_def guarded_server_def
        log_write_def write_simple_def)
  with s' have "concat outs = ''+PONG'' @ CRLF" by (auto simp: new_session_def)
  with run show ?thesis by (simp add: write_all_def)
qed

section \<open>Gates\<close>

definition grants :: "bytes \<Rightarrow> bytes list \<Rightarrow> bool" where
  "grants pw argv \<longleftrightarrow> upper (argv ! 0) = ''AUTH'' \<and> (length argv = 2 \<and> argv ! 1 = pw \<or> length argv = 3 \<and> argv ! 2 = pw)"

lemma preauth_dispatch:
  assumes "is_preauth_ok (upper (argv ! 0))"
  obtains cs' oc where "dispatch fl cfg argv cs = Done (cs', oc)" "\<not> oc_persist oc"
    "\<not> (\<exists>pw. cf_requirepass cfg = Some pw \<and> grants pw argv) \<Longrightarrow> cs_authenticated cs' = cs_authenticated cs"
proof -
  have "\<exists>cs' oc. dispatch fl cfg argv cs = Done (cs', oc) \<and> \<not> oc_persist oc \<and>
    (\<not> (\<exists>pw. cf_requirepass cfg = Some pw \<and> grants pw argv) \<longrightarrow> cs_authenticated cs' = cs_authenticated cs)"
    using assms
    by (auto simp: is_preauth_ok_def dispatch_def dispatch_conn_def hello_cmd_def hello_reply_def auth_cmd_def grants_def Let_def split: option.split)
  with that show thesis by blast
qed

lemma preauth_fast:
  assumes "is_preauth_ok (upper (argv ! 0))"
  obtains out' where "serve_fast cs argv out = Done (Some (out', None))" | out' where "serve_fast cs argv out = Done (Some (out', Some False))"
proof -
  have "(\<exists>out'. serve_fast cs argv out = Done (Some (out', None))) \<or> (\<exists>out'. serve_fast cs argv out = Done (Some (out', Some False)))"
    using assms by (auto simp: is_preauth_ok_def serve_fast_def Let_def)
  with that show thesis by blast
qed

lemma run_command_unauthenticated:
  assumes "cf_requirepass (sv_config (se_server s)) = Some pw" "\<not> cs_authenticated (se_conn s)" "\<not> grants pw argv"
  shows "\<exists>s' quit. run_command fl ev argv s = Some (s', quit) \<and> se_server s' = se_server s \<and> \<not> cs_authenticated (se_conn s')"
proof (cases "is_preauth_ok (upper (argv ! 0))")
  case True
  obtain cs' oc where d: "dispatch fl (sv_config (se_server s)) argv (se_conn s) = Done (cs', oc)" "\<not> oc_persist oc" "\<not> cs_authenticated cs'"
    using preauth_dispatch [OF True, of fl "sv_config (se_server s)" "se_conn s"] assms by auto
  have "\<not> is_write_command (upper (argv ! 0))" using True by (auto simp: is_preauth_ok_def is_write_command_def)
  then have "run_command fl ev argv s = execute_command fl ev argv s" using True by (simp add: run_command_def Let_def)
  moreover have "\<exists>s' quit. execute_command fl ev argv s = Some (s', quit) \<and> se_server s' = se_server s \<and> \<not> cs_authenticated (se_conn s')"
    using d assms(2) by (rule_tac preauth_fast [OF True, of "se_conn s" "se_out s"]) (auto simp: execute_command_def log_write_def)
  ultimately show ?thesis by simp
next
  case False
  with assms(2) show ?thesis by (auto simp: run_command_def)
qed



lemma asks_serve_fast: "\<not> is_write_command (upper (argv ! 0)) \<Longrightarrow> asks read_request (serve_fast cs argv out)"
  by (auto simp: serve_fast_def is_write_command_def Let_def)

lemma yields_serve_fast:
  "\<not> is_write_command (upper (argv ! 0)) \<Longrightarrow> yields (\<lambda>r. \<forall>out w. r = Some (out, Some w) \<longrightarrow> \<not> w) (serve_fast cs argv out)"
  by (auto simp: serve_fast_def is_write_command_def Let_def)

text \<open>What happens to a store that is only read between two points: entries may go because they expired, and from
  the last clock reading on the data is the same.\<close>

definition only_read :: "environ \<Rightarrow> nat \<Rightarrow> store \<Rightarrow> nat \<Rightarrow> store \<Rightarrow> bool" where
  "only_read ev n st n' st' \<longleftrightarrow> n \<le> n' \<and> store_ks st' \<subseteq>\<^sub>m store_ks st
     \<and> (\<forall>t. (\<forall>i. n \<le> i \<and> i < n' \<longrightarrow> ev_clock ev i \<le> t) \<longrightarrow> still t (store_ks st) (store_ks st'))"

lemma only_read_refl [simp]: "only_read ev n st n st"
  by (simp add: only_read_def)

lemma only_read_trans: "only_read ev n st n1 st1 \<Longrightarrow> only_read ev n1 st1 n2 st2 \<Longrightarrow> only_read ev n st n2 st2"
  unfolding only_read_def by (meson le_trans less_le_trans map_le_trans still_trans)

lemma exec_only_read:
  assumes "st_inv b st" "exec ev n prog st = Some (st', n', r)" "asks read_request prog"
  shows "only_read ev n st n' st'"
proof -
  have "silent (\<lambda>_. True) prog" by (rule asks_silent [OF assms(3)])
  from exec_silent [OF assms(1,2) this] exec_shrinks [OF assms(1,2) this] exec_tick [OF assms(2)]
  show ?thesis by (simp add: only_read_def)
qed

lemma exec_inv: "st_inv b st \<Longrightarrow> exec ev n prog st = Some (st', m, r) \<Longrightarrow> st_inv b st'"
  using exec_allowed [of b st ev n prog] by (simp add: returns_iff)

lemma log_write_False [simp]: "log_write argv False s = (s, False)"
  by (simp add: log_write_def)

definition session_read :: "environ \<Rightarrow> session \<Rightarrow> session \<Rightarrow> bool" where
  "session_read ev s s' \<longleftrightarrow> se_server s' = (se_server s)\<lparr>sv_store := sv_store (se_server s')\<rparr>
     \<and> only_read ev (se_tick s) (sv_store (se_server s)) (se_tick s') (sv_store (se_server s'))"

lemma session_read_trans: "session_read ev s s1 \<Longrightarrow> session_read ev s1 s2 \<Longrightarrow> session_read ev s s2"
  by (cases "se_server s"; cases "se_server s1"; cases "se_server s2") (auto simp: session_read_def intro: only_read_trans)

lemma execute_only_reads:
  assumes inv: "st_inv b (sv_store (se_server s))" and rd: "\<not> is_write_command (upper (argv ! 0))"
    and run: "execute_command fl ev argv s = Some (s', quit)"
  shows "session_read ev s s'"
proof -
  let ?sv = "se_server s"
  from run obtain st n out fast where 1: "exec ev (se_tick s) (serve_fast (se_conn s) argv (se_out s)) (sv_store ?sv) = Some (st, n, Some (out, fast))"
    and rest: "(case fast of
          Some is_write \<Rightarrow> Some (log_write argv is_write (s\<lparr>se_server := ?sv\<lparr>sv_store := st\<rparr>, se_tick := n, se_out := out\<rparr>))
        | None \<Rightarrow> do {
            (st, n, cs, oc) \<leftarrow> exec ev n (dispatch fl (sv_config ?sv) argv (se_conn s)) st;
            let out = out @ reply_encode (fl_show fl) (cs_resp3 cs) (oc_reply oc);
                (s, quit) = log_write argv (oc_persist oc) \<lparr>se_server = ?sv\<lparr>sv_store := st\<rparr>, se_tick = n, se_conn = cs, se_out = out\<rparr>
            in Some (s, oc_quit oc \<or> quit) }) = Some (s', quit)"
    unfolding execute_command_def Let_def by (auto simp: bind_eq_Some_conv)
  have o1: "only_read ev (se_tick s) (sv_store ?sv) n st" by (rule exec_only_read [OF inv 1 asks_serve_fast [OF rd]])
  have inv1: "st_inv b st" by (rule exec_inv [OF inv 1])
  show ?thesis
  proof (cases fast)
    case (Some w)
    then have "\<not> w" using exec_yieldsD [OF 1 yields_serve_fast [OF rd]] by simp
    with rest Some o1 show ?thesis by (auto simp: session_read_def)
  next
    case None
    with rest obtain st2 n2 cs oc where 2: "exec ev n (dispatch fl (sv_config ?sv) argv (se_conn s)) st = Some (st2, n2, cs, oc)"
      and s': "(let (s, quit) = log_write argv (oc_persist oc) \<lparr>se_server = ?sv\<lparr>sv_store := st2\<rparr>, se_tick = n2, se_conn = cs,
            se_out = out @ reply_encode (fl_show fl) (cs_resp3 cs) (oc_reply oc)\<rparr> in Some (s, oc_quit oc \<or> quit)) = Some (s', quit)"
      by (auto simp: bind_eq_Some_conv)
    have "\<not> oc_persist oc" using exec_yieldsD [OF 2 yields_dispatch [OF rd]] by simp
    moreover have "only_read ev n st n2 st2" by (rule exec_only_read [OF inv1 2 asks_dispatch [OF rd]])
    ultimately show ?thesis using s' only_read_trans [OF o1] by (auto simp: session_read_def)
  qed
qed

text \<open>C10: A read-only replica keeps its data from its clients. Whatever commands a client sends to a server that runs
  as a replica, each is answered, the log and the replicas are not touched, no entry is added or changed, and from the
  last clock reading on the same keys are live with the same values.\<close>

theorem read_only_replica:
  assumes "st_inv b (sv_store (se_server s))" "sv_read_only (se_server s)"
  shows "\<exists>s' quit. serve_all fl ev cmds s = Some (s', quit) \<and> st_inv b (sv_store (se_server s')) \<and> session_read ev s s'"
  using assms
proof (induction cmds arbitrary: s)
  case (Cons argv cmds)
  obtain s1 q where 1: "run_command fl ev argv s = Some (s1, q)" "st_inv b (sv_store (se_server s1))" "same_server (se_server s) (se_server s1)"
    using run_command_returns [OF Cons.prems(1), of fl ev argv] by (auto simp: returns_iff answered_def)
  have r: "session_read ev s s1"
    using 1(1) Cons.prems execute_only_reads [OF Cons.prems(1), of argv fl ev s1 q]
    by (auto simp: run_command_def session_read_def Let_def split: if_splits)
  show ?case
  proof (cases q)
    case False
    obtain s2 q2 where "serve_all fl ev cmds s1 = Some (s2, q2)" "st_inv b (sv_store (se_server s2))" "session_read ev s1 s2"
      using Cons.IH [OF 1(2)] 1(3) Cons.prems(2) by (auto simp: same_server_def)
    with 1(1) r False session_read_trans show ?thesis by fastforce
  qed (use 1 r in auto)
qed (auto simp: session_read_def)

theorem read_only_replica_witness:
  "\<exists>s' quit. serve_all no_floats still_env [[''SET'', ''k'', ''v''], [''KEYS'', ''*'']]
      \<lparr>se_server = guarded_server\<lparr>sv_read_only := True\<rparr>, se_tick = 0, se_conn = conn_new 1 True, se_out = []\<rparr> = Some (s', quit)
    \<and> store_ks (sv_store (se_server s')) = Map.empty"
proof -
  let ?s = "\<lparr>se_server = guarded_server\<lparr>sv_read_only := True\<rparr>, se_tick = 0, se_conn = conn_new 1 True, se_out = []\<rparr>"
  have "st_inv 0 (sv_store (se_server ?s))" "sv_read_only (se_server ?s)" using guarded_inv by simp_all
  from read_only_replica [OF this, of no_floats still_env "[[''SET'', ''k'', ''v''], [''KEYS'', ''*'']]"] obtain s' quit where
    "serve_all no_floats still_env [[''SET'', ''k'', ''v''], [''KEYS'', ''*'']] ?s = Some (s', quit)" "session_read still_env ?s s'" by blast
  moreover from this(2) have "store_ks (sv_store (se_server s')) = Map.empty"
    using guarded_inv(2) by (simp add: session_read_def only_read_def map_le_antisym)
  ultimately show ?thesis by blast
qed

text \<open>C11: \<^verbatim>\<open>SYNC\<close> is served before the password is asked for. A client that sends nothing but \<^verbatim>\<open>SYNC\<close> to a server with a
  password is sent the whole dataset and is registered for every later write.\<close>

theorem sync_without_password:
  assumes "cf_requirepass (sv_config sv) = Some pw"
    and "length (dump_commands (fl_show fl) (ev_clock ev n) (sv_store sv)) \<le> sk_room stream"
  shows "\<exists>s'. run_conn fl ev (Some True) cid [Data (resp_command [''SYNC''])] sv n stream = Some (s', stream, None)
    \<and> \<not> cs_authenticated (se_conn s')
    \<and> rp_replicas (sv_repl (se_server s')) =
        rp_replicas (sv_repl sv) @ [stream\<lparr>sk_data := sk_data stream @ dump_commands (fl_show fl) (ev_clock ev n) (sv_store sv),
          sk_room := sk_room stream - length (dump_commands (fl_show fl) (ev_clock ev n) (sv_store sv))\<rparr>]
    \<and> has_replicas (sv_repl (se_server s'))"
proof -
  let ?s = "new_session cid sv n" and ?buf = "resp_command [''SYNC'']"
  have "loggable [''SYNC'']" "upper ''SYNC'' = ''SYNC''" by code_simp+
  from parse_ranges_resp [OF this(1), of "[]"] obtain rs where
    "parse_command_ranges ?buf = Inr (Some (rs, length ?buf))" "map (resolve ?buf) rs = [''SYNC'']" "rs \<noteq> []" by auto
  then have b: "run_buffer fl ev ?buf ?s = Some (?s, Sync)"
    using \<open>upper ''SYNC'' = ''SYNC''\<close> by (subst run_buffer.simps) simp
  have "?buf \<noteq> []" by simp
  with b assms show ?thesis unfolding run_conn_def Let_def new_session_def [symmetric]
    by (simp add: start_sync_def new_session_def add_replica_with_snapshot_def write_all_def has_replicas_def conn_new_def Let_def)
qed

theorem sync_without_password_witness:
  "\<exists>st s' r. store_ks st = [''k'' \<mapsto> \<lparr>en_value = VStr ''v'', en_expire_at = None\<rparr>]
    \<and> run_conn no_floats still_env (Some True) 1 [Data (resp_command [''SYNC''])] (guarded_server\<lparr>sv_store := st\<rparr>) 0
        \<lparr>sk_data = [], sk_room = 100, sk_error = []\<rparr> = Some (s', \<lparr>sk_data = [], sk_room = 100, sk_error = []\<rparr>, None)
    \<and> rp_replicas (sv_repl (se_server s')) = [r] \<and> sk_data r = resp_command [''SET'', ''k'', ''v'']"
proof -
  let ?e = "\<lparr>en_value = VStr ''v'', en_expire_at = None\<rparr>" and ?str = "\<lparr>sk_data = [], sk_room = 100, sk_error = []\<rparr>"
  obtain st where st: "st_inv 0 st" "store_ks st = [''k'' \<mapsto> ?e]" using one_key_store by blast
  have "(\<lambda>x. vis 5 (store_ks st x)) = [''k'' \<mapsto> ?e]" by (auto simp: st(2) vis_def expired_def)
  then have "live_entries 5 st = [(''k'', ?e)]"
    using live_entries_map [OF st(1), of 5] by (intro single_entry) simp_all
  then have d: "dump_commands (fl_show no_floats) (ev_clock still_env 0) (sv_store (guarded_server\<lparr>sv_store := st\<rparr>)) = resp_command [''SET'', ''k'', ''v'']"
    by (simp add: dump_commands_resp entry_commands_def still_env_def)
  have "length (resp_command [''SET'', ''k'', ''v'']) = 27" by code_simp
  with sync_without_password [of "guarded_server\<lparr>sv_store := st\<rparr>" "''secret''" no_floats still_env 0 ?str 1] d st(2) show ?thesis
    by (force simp: guarded_server_def replication_new_def)
qed

end
