(* ===== verification/Server.thy ===== *)
theory Server
  imports Conn
begin

text \<open>
  \<^verbatim>\<open>crates/server/src/server.rs\<close>: start-up with recovery from the log or a snapshot, the background reaper, the
  replica thread and the numbering of accepted connections, and the property that spans the components: what the
  clients were told is what a restart recovers.
\<close>

section \<open>Start-up\<close>

text \<open>The files as a start finds them, and what opening the log for appending answers. Both paths of the
  configuration name files of this record; whether a file exists is whether it is absent here.\<close>

record disk =
  dk_aof :: file_state
  dk_snapshot :: file_state
  dk_room :: nat
  dk_write_error :: string
  dk_open_error :: "string option"

definition recover :: "floats \<Rightarrow> config \<Rightarrow> disk \<Rightarrow> (string + nat) prog" where
  "recover fl cfg disk =
     (if cf_appendonly cfg \<and> dk_aof disk \<noteq> Absent then load_aof fl cfg (dk_aof disk)
      else if dk_snapshot disk \<noteq> Absent then load_snapshot fl cfg (dk_snapshot disk)
      else Done (Inr 0))"

definition open_log :: "config \<Rightarrow> disk \<Rightarrow> string + aof option" where
  "open_log cfg disk =
     (if cf_appendonly cfg then
        (case dk_open_error disk of
           Some e \<Rightarrow> Inl e
         | None \<Rightarrow> Inr (Some (aof_open \<lparr>sk_data = (case dk_aof disk of Contents data \<Rightarrow> data | _ \<Rightarrow> []),
             sk_room = dk_room disk, sk_error = dk_write_error disk\<rparr>)))
      else Inr None)"

definition bootstrap ::
  "floats \<Rightarrow> environ \<Rightarrow> nat \<Rightarrow> (bytes \<Rightarrow> u64) \<Rightarrow> (nat \<Rightarrow> hashers) \<Rightarrow> config \<Rightarrow> disk \<Rightarrow> (nat \<times> (string + server)) option"
where
  "bootstrap fl ev n router hs cfg disk =
     do {
       (st, n, recovered) \<leftarrow> exec ev n (recover fl cfg disk) (store_new router hs (cf_shards cfg) (cf_maxmemory cfg));
       Some (n, case recovered of
           Inl e \<Rightarrow> Inl e
         | Inr _ \<Rightarrow>
             (case open_log cfg disk of
                Inl e \<Rightarrow> Inl e
              | Inr aof \<Rightarrow> Inr \<lparr>sv_store = st, sv_config = cfg, sv_aof = aof, sv_repl = replication_new,
                  sv_read_only = (cf_replicaof cfg \<noteq> None)\<rparr>))
     }"

section \<open>Background threads and the accept loop\<close>

definition reaper_round :: "environ \<Rightarrow> nat \<Rightarrow> server \<Rightarrow> (server \<times> nat) option" where
  "reaper_round ev n sv =
     do { (st, _) \<leftarrow> purge_expired (ev_clock ev n) (sv_store sv); Some (sv\<lparr>sv_store := st\<rparr>, Suc n) }"

definition start_replication :: "floats \<Rightarrow> server \<Rightarrow> ((string + sink) \<times> read_result list) list \<Rightarrow> unit prog" where
  "start_replication fl sv sessions =
     (if sv_read_only sv then replica_sessions fl (sv_config sv) sessions else Done ())"

text \<open>The accept loop: every accepted stream gets the next connection number, an accept error none.\<close>

fun accept_loop :: "u64 \<Rightarrow> (string + 'a) list \<Rightarrow> (u64 \<times> 'a) list" where
  "accept_loop next_id [] = []"
| "accept_loop next_id (Inr stream # incoming) = (next_id, stream) # accept_loop (next_id + 1) incoming"
| "accept_loop next_id (Inl e # incoming) = accept_loop next_id incoming"

section \<open>The commands of all connections\<close>

text \<open>The commands the server executes, of whatever connections, in the order of their execution: the state of the
  connection each came from, and its arguments.\<close>

fun server_run :: "floats \<Rightarrow> environ \<Rightarrow> (conn_state \<times> bytes list) list \<Rightarrow> server \<times> nat \<Rightarrow> (server \<times> nat) option" where
  "server_run fl ev [] (sv, n) = Some (sv, n)"
| "server_run fl ev ((cs, argv) # cmds) (sv, n) =
     do {
       (s, quit) \<leftarrow> execute_command fl ev argv \<lparr>se_server = sv, se_tick = n, se_conn = cs, se_out = []\<rparr>;
       server_run fl ev cmds (se_server s, se_tick s)
     }"

section \<open>Commands that do not depend on the clock\<close>

definition deadline :: "entry option \<Rightarrow> u64 option" where
  "deadline c = Option.bind c en_expire_at"

definition no_ttl :: "keyspace \<Rightarrow> bool" where
  "no_ttl f \<longleftrightarrow> (\<forall>k. deadline (f k) = None)"

fun sets_expiry :: "store_op \<Rightarrow> bool" where
  "sets_expiry (S_Set k v opts) \<longleftrightarrow> so_expire_at opts \<noteq> None"
| "sets_expiry (S_ExpireAt k at) \<longleftrightarrow> at \<noteq> None"
| "sets_expiry _ \<longleftrightarrow> False"

text \<open>A program that sets no expiry, and whose requests are answered the same at every time: it may read the clock
  only if it ignores the reading.\<close>

primrec untimed :: "'r prog \<Rightarrow> bool" where
  "untimed (Done r) \<longleftrightarrow> True"
| "untimed (Ask q k) \<longleftrightarrow>
     (case q of Q_Now \<Rightarrow> (\<forall>p p'. k p = k p') | Q_Op op \<Rightarrow> \<not> sets_expiry op | Q_Flush \<Rightarrow> True | _ \<Rightarrow> False) \<and> (\<forall>p. untimed (k p))"

lemma vis_no_ttl: "deadline c = None \<Longrightarrow> vis now c = c"
  by (cases c) (simp_all add: deadline_def vis_def expired_def)

lemma coll_cell_ttl: "deadline c = None \<Longrightarrow> deadline (fst (coll_cell V t body c)) = None"
  using vis_no_ttl [of c t]
  by (cases c) (auto simp: coll_cell_def coll_entry_def deadline_def Let_def split: option.split prod.split)

lemma cell_timeless:
  assumes c: "deadline c = None" and op: "\<not> sets_expiry op"
  shows "cell_step t op c = cell_step t' op c" "deadline (fst (cell_step t op c)) = None"
proof -
  have v: "vis u c = c" for u by (rule vis_no_ttl [OF c])
  show "cell_step t op c = cell_step t' op c"
    using op c v by (cases op; simp add: ans_def string_cells coll_cell_def coll_entry_def v; cases c; simp add: deadline_def)
  show "deadline (fst (cell_step t op c)) = None"
  proof (cases "\<exists>k d v. op = S_IncrBy k d \<or> op = S_Append k v \<or> op = S_ExpireAt k None")
    case True
    with c show ?thesis by (cases c) (auto simp: ans_def string_cells vis_def expired_def Let_def deadline_def split: sum.split)
  next
    case False
    with op c show ?thesis
      by (cases op) (auto simp: ans_def string_cells v Let_def coll_cell_ttl deadline_def [of "Some x" for x] deadline_def [of None] split_def)
  qed
qed

lemma ks_step_timeless:
  assumes "no_ttl f" "\<not> sets_expiry op"
  shows "ks_step t op f = ks_step t' op f" "no_ttl (fst (ks_step t op f))"
proof -
  have c: "deadline (f (op_key op)) = None" using assms(1) by (simp add: no_ttl_def)
  show "ks_step t op f = ks_step t' op f" unfolding ks_step_def using cell_timeless(1) [OF c assms(2), of t t'] by simp
  show "no_ttl (fst (ks_step t op f))"
    using assms(1) cell_timeless(2) [OF c assms(2)] by (simp add: ks_step_def no_ttl_def Let_def split_def)
qed

lemma untimed_deterministic:
  assumes "untimed prog" "no_ttl f" "ks_exec False ev n f prog g m r" "ks_exec False ev' n' f prog g' m' r'"
  shows "g' = g \<and> r' = r \<and> no_ttl g"
  using assms
proof (induction prog arbitrary: f n n')
  case (Ask q k)
  from Ask.prems(3,4) obtain f1 p f2 p' where
    1: "allowed False ev n q f f1 p" "ks_exec False ev (Suc n) f1 (k p) g m r" and
    2: "allowed False ev' n' q f f2 p'" "ks_exec False ev' (Suc n') f2 (k p') g' m' r'" by (auto simp: ks_exec_Ask)
  have "f2 = f1 \<and> k p' = k p \<and> no_ttl f1"
  proof (cases q)
    case (Q_Op op)
    then have "\<not> sets_expiry op" using Ask.prems(1) by simp
    from ks_step_timeless [OF Ask.prems(2) this] 1(1) 2(1) show ?thesis
      by (simp add: Q_Op split_def Let_def) metis
  qed (use Ask.prems(1,2) 1(1) 2(1) in \<open>auto simp: no_ttl_def deadline_def\<close>)
  with Ask.IH [of "k p" f1 "Suc n" "Suc n'"] 1(2) 2(2) Ask.prems(1) show ?case by auto
qed auto

text \<open>An unlogged command leaves a keyspace without deadlines exactly as it is.\<close>

lemma still_no_ttl:
  assumes "no_ttl f" "g \<subseteq>\<^sub>m f" "still t f g" shows "g = f"
proof
  fix k
  have "vis t (f k) = f k" using assms(1) by (intro vis_no_ttl) (simp add: no_ttl_def)
  moreover have "vis t (g k) = g k"
  proof (cases "g k")
    case (Some e)
    with assms(2) have "f k = Some e" by (auto simp: map_le_def dom_def)
    with Some \<open>vis t (f k) = f k\<close> show ?thesis by simp
  qed (simp add: vis_def)
  moreover have "vis t (g k) = vis t (f k)" using assms(3) by (simp add: still_def)
  ultimately show "g k = f k" by (simp only:)
qed

lemma exec_unlogged:
  assumes "st_inv b st" "exec ev n prog st = Some (st', m, r)" "silent P prog" "P r" "no_ttl (store_ks st)"
  shows "store_ks st' = store_ks st"
  using exec_silent [OF assms(1-4), of "- 1"] by (intro still_no_ttl [OF assms(5)]) auto

section \<open>Logged commands do not depend on the connection\<close>

lemma write_dispatch:
  assumes "is_write_command (upper (argv ! 0))"
  obtains prog where "\<And>cs. dispatch fl cfg argv cs = plain cs prog"
proof -
  let ?name = "upper (argv ! 0)"
  have "?name \<noteq> ''HGETALL''" and ne: "?name \<noteq> ''PING''" "?name \<noteq> ''ECHO''" "?name \<noteq> ''HELLO''" "?name \<noteq> ''QUIT''" "?name \<noteq> ''SELECT''"
      "?name \<noteq> ''AUTH''" "?name \<noteq> ''COMMAND''" "?name \<noteq> ''CONFIG''" "?name \<noteq> ''CLIENT''" "?name \<noteq> ''INFO''" "?name \<noteq> ''DBSIZE''"
    using assms unfolding is_write_command_def by auto
  then have h: "dispatch_hashes ?name argv cs els = dispatch_hashes ?name argv conn_internal els" for cs els
    by (simp only: dispatch_hashes_def if_False simp_thms)
  show thesis
  proof (cases "?name = ''FLUSHALL'' \<or> ?name = ''FLUSHDB''")
    case True
    then have "dispatch fl cfg argv cs = plain cs (q_flush_all (Done (outcome_w reply_ok)))" for cs
      using ne unfolding dispatch_def dispatch_conn_def plain_def Let_def by (simp add: comp_def)
    then show thesis by (rule that)
  next
    case False
    then have "dispatch fl cfg argv cs = plain cs (dispatch_data fl ?name argv conn_internal)" for cs
      using ne h unfolding dispatch_def dispatch_conn_def dispatch_data_def Let_def by (simp only: if_False simp_thms) (subst h, rule refl)
    then show thesis by (rule that)
  qed
qed

section \<open>One command and its trace in the log\<close>

lemma ks_exec_map:
  "ks_exec limited ev n f (map_prog h prog) g m r \<longleftrightarrow> (\<exists>r'. ks_exec limited ev n f prog g m r' \<and> r = h r')"
  by (auto simp: map_prog_bind ks_exec_bind)

lemma silent_serve_fast: "silent (\<lambda>r. \<forall>out w. r = Some (out, Some w) \<longrightarrow> \<not> w) (serve_fast cs argv out)"
  by (auto simp: serve_fast_def fast_incr_def Let_def writers split: sum.splits)

text \<open>What a logged command did to the data is what replaying it does, at any time and on any connection.\<close>

definition replays :: "floats \<Rightarrow> config \<Rightarrow> bytes list list \<Rightarrow> keyspace \<Rightarrow> keyspace \<Rightarrow> bool" where
  "replays fl cfg cmds f g \<longleftrightarrow> (\<forall>ev i cs h m r. ks_exec False ev i f (run_commands fl cfg cmds cs) h m r \<longrightarrow> h = g)"

lemma replays_Nil: "replays fl cfg [] f f"
  by (simp add: replays_def)

lemma replays_Cons:
  assumes "\<And>ev i cs h m r. ks_exec False ev i f (dispatch fl cfg argv cs) h m r \<Longrightarrow> h = f1" "replays fl cfg cmds f1 g"
  shows "replays fl cfg (argv # cmds) f g"
  unfolding replays_def
proof (intro allI impI)
  fix ev i cs h m r
  assume "ks_exec False ev i f (run_commands fl cfg (argv # cmds) cs) h m r"
  then obtain h1 i1 x where "ks_exec False ev i f (dispatch fl cfg argv cs) h1 i1 x" "ks_exec False ev i1 h1 (run_commands fl cfg cmds (fst x)) h m r"
    by (auto simp: ks_exec_bind split_def)
  with assms show "h = g" unfolding replays_def by blast
qed

lemma fast_write_replays:
  assumes inv: "st_inv 0 st" and ttl: "no_ttl (store_ks st)"
    and run: "exec ev n (serve_fast cs argv out) st = Some (st', m, Some (out', Some True))"
  shows "no_ttl (store_ks st')" "ks_exec False ev' i (store_ks st) (dispatch fl cfg argv cs') h m' r \<Longrightarrow> h = store_ks st'"
proof -
  have ks: "ks_exec False ev n (store_ks st) (serve_fast cs argv out) (store_ks st') m (Some (out', Some True))"
    using exec_allowed [OF inv, of ev n "serve_fast cs argv out"] run by (simp add: returns_iff)
  obtain op where op: "\<not> sets_expiry op" "store_ks st' = fst (ks_step (ev_clock ev n) op (store_ks st))"
    "\<And>ev' i h m' r. ks_exec False ev' i (store_ks st) (dispatch fl cfg argv cs') h m' r \<Longrightarrow> \<exists>t. h = fst (ks_step t op (store_ks st))"
  proof -
    let ?name = "upper (argv ! 0)"
    consider (set) "?name = ''SET'' \<and> length argv = 3"
      | (incr) d :: int where "?name = ''INCR'' \<and> d = 1 \<or> ?name = ''DECR'' \<and> d = - 1" "length argv = 2"
      using ks by (auto simp: serve_fast_def Let_def ks_exec_Ask eq_commute [of "Some x" "map_option f y" for x f y] split: if_splits)
    then show thesis
    proof cases
      case set
      then show thesis using ks
        by (intro that [of "S_Set (argv ! 1) (argv ! 2) default_options"])
           (auto simp: serve_fast_def dispatch_defs set_cmd_def set_finish_def ks_exec_Ask default_options_def split_def Let_def)
    next
      case incr
      then show thesis using ks
        by (intro that [of "S_IncrBy (argv ! 1) d"])
           (auto simp: serve_fast_def fast_incr_def dispatch_defs incr_cmd_def incr_run_cmd_def ks_exec_Ask split_def Let_def split: sum.splits)
    qed
  qed
  show "no_ttl (store_ks st')" unfolding op(2) by (rule ks_step_timeless(2) [OF ttl op(1)])
  show "h = store_ks st'" if "ks_exec False ev' i (store_ks st) (dispatch fl cfg argv cs') h m' r"
    using op(3) [OF that] ks_step_timeless(1) [OF ttl op(1)] unfolding op(2) by metis
qed

lemma dispatch_write_replays:
  assumes inv: "st_inv 0 st" and ttl: "no_ttl (store_ks st)" and run: "exec ev n (dispatch fl cfg argv cs) st = Some (st', m, cs1, oc)"
    and log: "oc_persist oc" and unt: "is_write_command (upper (argv ! 0)) \<Longrightarrow> untimed (dispatch fl cfg argv conn_internal)"
  shows "no_ttl (store_ks st')" "ks_exec False ev' i (store_ks st) (dispatch fl cfg argv cs') h m' r \<Longrightarrow> h = store_ks st'"
proof -
  have w: "is_write_command (upper (argv ! 0))"
    using exec_yieldsD [OF run yields_dispatch] log by fastforce
  from write_dispatch [OF w] obtain prog where prog: "\<And>cs. dispatch fl cfg argv cs = plain cs prog" by blast
  have ks: "ks_exec False ev n (store_ks st) (dispatch fl cfg argv cs) (store_ks st') m (cs1, oc)"
    using exec_allowed [OF inv, of ev n "dispatch fl cfg argv cs"] run by (simp add: returns_iff)
  have any: "\<exists>r. ks_exec False ev i f (dispatch fl cfg argv conn_internal) h m r" if "ks_exec False ev i f (dispatch fl cfg argv cs) h m r'" for ev i f h m r' cs
    using that unfolding prog plain_def ks_exec_map by blast
  from any [OF ks] obtain r1 where r1: "ks_exec False ev n (store_ks st) (dispatch fl cfg argv conn_internal) (store_ks st') m r1" by blast
  from untimed_deterministic [OF unt [OF w] ttl r1 r1] show "no_ttl (store_ks st')" by simp
  show "h = store_ks st'" if "ks_exec False ev' i (store_ks st) (dispatch fl cfg argv cs') h m' r"
    using any [OF that] untimed_deterministic [OF unt [OF w] ttl r1] by blast
qed

text \<open>A server whose log is ready, with room for the given commands.\<close>

definition logging :: "server \<Rightarrow> bytes list list \<Rightarrow> bool" where
  "logging sv cmds \<longleftrightarrow> st_inv 0 (sv_store sv) \<and> no_ttl (store_ks (sv_store sv))
     \<and> (\<exists>a. sv_aof sv = Some a \<and> aof_flushed a \<and> length (concat (map resp_command cmds)) \<le> aof_room a)"

definition log_file :: "server \<Rightarrow> bytes" where
  "log_file sv = (case sv_aof sv of Some a \<Rightarrow> aof_file a | None \<Rightarrow> [])"

lemma log_write_logged:
  assumes "sv_aof (se_server s) = Some a" "aof_flushed a" "length (resp_command argv) \<le> aof_room a"
  obtains s' a' where "log_write argv True s = (s', False)" "sv_store (se_server s') = sv_store (se_server s)" "sv_config (se_server s') = sv_config (se_server s)"
    "sv_aof (se_server s') = Some a'" "aof_flushed a'" "aof_file a' = aof_file a @ resp_command argv" "aof_room a' = aof_room a - length (resp_command argv)"
    "se_tick s' = se_tick s"
proof -
  obtain a' where "aof_append a argv = (a', None)" "aof_flushed a'" "aof_file a' = aof_file a @ resp_command argv"
      "aof_room a' = aof_room a - length (resp_command argv)"
    using aof_append_step [OF assms(2), of argv] assms(3) by auto
  with assms(1) that show thesis by (simp add: log_write_def log_append_def log_propagate_def)
qed

lemma execute_logged:
  assumes lg: "logging sv (argv # rest)" and unt: "is_write_command (upper (argv ! 0)) \<Longrightarrow> untimed (dispatch fl (sv_config sv) argv conn_internal)"
    and ok: "loggable argv"
  shows "\<exists>s' quit logged. execute_command fl ev argv \<lparr>se_server = sv, se_tick = n, se_conn = cs, se_out = []\<rparr> = Some (s', quit)
    \<and> logging (se_server s') rest \<and> sv_config (se_server s') = sv_config sv
    \<and> log_file (se_server s') = log_file sv @ concat (map resp_command logged) \<and> list_all loggable logged
    \<and> (\<forall>cmds g. replays fl (sv_config sv) cmds (store_ks (sv_store (se_server s'))) g \<longrightarrow>
          replays fl (sv_config sv) (logged @ cmds) (store_ks (sv_store sv)) g)"
proof -
  let ?s = "\<lparr>se_server = sv, se_tick = n, se_conn = cs, se_out = []\<rparr>"
  from lg obtain a where inv: "st_inv 0 (sv_store sv)" and ttl: "no_ttl (store_ks (sv_store sv))"
    and a: "sv_aof sv = Some a" "aof_flushed a" "length (concat (map resp_command (argv # rest))) \<le> aof_room a" by (auto simp: logging_def)
  have room: "length (resp_command argv) \<le> aof_room a" "length (concat (map resp_command rest)) \<le> aof_room a - length (resp_command argv)"
    using a(3) by simp_all
  have finish: ?thesis
    if ex: "execute_command fl ev argv ?s = (case log_write argv w t of (t', q) \<Rightarrow> Some (t', q0 \<or> q))"
      and t: "se_server t = sv\<lparr>sv_store := st\<rparr>" and st: "st_inv 0 st"
      and eff: "if w then no_ttl (store_ks st) \<and> (\<forall>ev i cs h m r. ks_exec False ev i (store_ks (sv_store sv)) (dispatch fl (sv_config sv) argv cs) h m r \<longrightarrow> h = store_ks st)
        else store_ks st = store_ks (sv_store sv)"
    for w t q0 st
  proof (cases w)
    case True
    have at: "sv_aof (se_server t) = Some a" using t a(1) by simp
    obtain t' a' where t': "log_write argv True t = (t', False)"
      "sv_store (se_server t') = st" "sv_config (se_server t') = sv_config sv" "sv_aof (se_server t') = Some a'" "aof_flushed a'"
      "aof_file a' = aof_file a @ resp_command argv" "aof_room a' = aof_room a - length (resp_command argv)" 
      by (rule log_write_logged [OF at a(2) room(1)], rule that) (simp_all add: t)
    have eff1: "h = store_ks st" if "ks_exec False ev i (store_ks (sv_store sv)) (dispatch fl (sv_config sv) argv cs) h m r" for ev i cs h m r
      using eff that unfolding if_P [OF True] by blast
    have "replays fl (sv_config sv) ([argv] @ cmds) (store_ks (sv_store sv)) g"
      if "replays fl (sv_config sv) cmds (store_ks st) g" for cmds g
      using replays_Cons [OF eff1 that] by simp
    with t' ex True st eff room(2) a(1) ok show ?thesis
      by (intro exI [of _ t'] exI [of _ q0] exI [of _ "[argv]"]) (simp add: logging_def log_file_def)
  next
    case False
    then have "execute_command fl ev argv ?s = Some (t, q0)" using ex by simp
    with False t st eff ttl a room(2) show ?thesis
      by (intro exI [of _ t] exI [of _ q0] exI [of _ "[]"]) (simp add: logging_def log_file_def)
  qed
  obtain st n1 out fast where f: "exec ev n (serve_fast cs argv []) (sv_store sv) = Some (st, n1, Some (out, fast))"
      "st_inv 0 st" "fast = None \<Longrightarrow> out = []"
    using serve_fast_returns [OF inv] by metis
  show ?thesis
  proof (cases fast)
    case (Some w)
    show ?thesis
    proof (rule finish [of False w "\<lparr>se_server = sv\<lparr>sv_store := st\<rparr>, se_tick = n1, se_conn = cs, se_out = out\<rparr>" st])
      show "execute_command fl ev argv ?s = (case log_write argv w \<lparr>se_server = sv\<lparr>sv_store := st\<rparr>, se_tick = n1, se_conn = cs, se_out = out\<rparr> of
          (t', q) \<Rightarrow> Some (t', False \<or> q))"
        using f(1) Some by (simp add: execute_command_def split_def)
      show "if w then no_ttl (store_ks st) \<and> (\<forall>ev i cs h m r. ks_exec False ev i (store_ks (sv_store sv)) (dispatch fl (sv_config sv) argv cs) h m r \<longrightarrow> h = store_ks st)
        else store_ks st = store_ks (sv_store sv)"
        using fast_write_replays [OF inv ttl, of ev n cs argv "[]" st n1 out] exec_unlogged [OF inv f(1) silent_serve_fast _ ttl] f(1) Some
        by (cases w) auto
    qed (use f(2) in simp_all)
  next
    case None
    have fast_none: "store_ks st = store_ks (sv_store sv)" by (rule exec_unlogged [OF inv f(1) silent_serve_fast _ ttl]) (simp add: None)
    obtain st1 n2 cs1 oc where d: "exec ev n1 (dispatch fl (sv_config sv) argv cs) st = Some (st1, n2, cs1, oc)" "st_inv 0 st1"
      using exec_allowed [OF f(2), of ev n1 "dispatch fl (sv_config sv) argv cs"] by (auto simp: returns_iff)
    let ?t = "\<lparr>se_server = sv\<lparr>sv_store := st1\<rparr>, se_tick = n2, se_conn = cs1, se_out = out @ reply_encode (fl_show fl) (cs_resp3 cs1) (oc_reply oc)\<rparr>"
    show ?thesis
    proof (rule finish [of "oc_quit oc" "oc_persist oc" ?t st1])
      show "execute_command fl ev argv ?s = (case log_write argv (oc_persist oc) ?t of (t', q) \<Rightarrow> Some (t', oc_quit oc \<or> q))"
        using f(1) d(1) None by (simp add: execute_command_def Let_def)
      note ttl1 = ttl [folded fast_none]
      show "if oc_persist oc then no_ttl (store_ks st1) \<and> (\<forall>ev i cs h m r. ks_exec False ev i (store_ks (sv_store sv)) (dispatch fl (sv_config sv) argv cs) h m r \<longrightarrow> h = store_ks st1)
        else store_ks st1 = store_ks (sv_store sv)"
        using dispatch_write_replays [OF f(2) ttl1 d(1) _ unt] exec_unlogged [OF f(2) d(1) silent_dispatch _ ttl1] fast_none
        by (cases "oc_persist oc") auto
    qed (use d(2) in simp_all)
  qed
qed

definition recoverable :: "floats \<Rightarrow> config \<Rightarrow> bytes list \<Rightarrow> bool" where
  "recoverable fl cfg argv \<longleftrightarrow>
     loggable argv \<and> (is_write_command (upper (argv ! 0)) \<longrightarrow> untimed (dispatch fl cfg argv conn_internal))"

lemma server_run_logged:
  assumes "logging sv (map snd cmds)" "\<forall>argv \<in> set (map snd cmds). recoverable fl (sv_config sv) argv"
  shows "\<exists>sv' n' logged. server_run fl ev cmds (sv, n) = Some (sv', n') \<and> logging sv' []
    \<and> log_file sv' = log_file sv @ concat (map resp_command logged) \<and> list_all loggable logged
    \<and> replays fl (sv_config sv) logged (store_ks (sv_store sv)) (store_ks (sv_store sv'))"
  using assms
proof (induction cmds arbitrary: sv n)
  case Nil
  then show ?case by (intro exI [of _ sv] exI [of _ n] exI [of _ "[]"]) (simp add: replays_Nil)
next
  case (Cons c cmds)
  obtain cs argv where c: "c = (cs, argv)" by (cases c)
  have "logging sv (argv # map snd cmds)" "recoverable fl (sv_config sv) argv" using Cons.prems by (simp_all add: c)
  then obtain s quit now where s: "execute_command fl ev argv \<lparr>se_server = sv, se_tick = n, se_conn = cs, se_out = []\<rparr> = Some (s, quit)"
      "logging (se_server s) (map snd cmds)" "sv_config (se_server s) = sv_config sv"
      "log_file (se_server s) = log_file sv @ concat (map resp_command now)" "list_all loggable now"
      "\<And>cmds g. replays fl (sv_config sv) cmds (store_ks (sv_store (se_server s))) g \<Longrightarrow> replays fl (sv_config sv) (now @ cmds) (store_ks (sv_store sv)) g"
    using execute_logged [of sv argv "map snd cmds" fl ev n cs] unfolding recoverable_def by blast
  obtain sv' n' newer where n: "server_run fl ev cmds (se_server s, se_tick s) = Some (sv', n')" "logging sv' []"
      "log_file sv' = log_file (se_server s) @ concat (map resp_command newer)" "list_all loggable newer"
      "replays fl (sv_config sv) newer (store_ks (sv_store (se_server s))) (store_ks (sv_store sv'))"
    using Cons.IH [OF s(2), of "se_tick s"] Cons.prems(2) unfolding s(3) by auto
  then show ?case using s n by (intro exI [of _ sv'] exI [of _ n'] exI [of _ "now @ newer"]) (simp add: c)
qed

lemma new_store:
  assumes "shards \<le> 2 ^ 63"
  shows "st_inv 0 (store_new router hs shards 0)" "store_ks (store_new router hs shards 0) = Map.empty"
  using store_new_inv(1) [OF assms, of 0 router hs] store_new_inv(2) [OF assms] by (simp_all add: budget_of_def)

lemma bootstrap_fresh:
  assumes "cf_appendonly cfg" "cf_maxmemory cfg = 0" "cf_shards cfg \<le> 2 ^ 63"
    and "dk_aof disk \<in> {Absent, Contents []}" "dk_snapshot disk = Absent" "dk_open_error disk = None"
    and "length (concat (map resp_command cmds)) \<le> dk_room disk"
  shows "\<exists>sv. bootstrap fl ev n router hs cfg disk = Some (n, Inr sv) \<and> logging sv cmds \<and> sv_config sv = cfg \<and> log_file sv = []
    \<and> store_ks (sv_store sv) = Map.empty"
proof -
  note new = new_store [OF assms(3), of router hs]
  have "recover fl cfg disk = Done (Inr 0)"
    using assms(1,4,5) by (auto simp: recover_def load_aof_def replay_file_def replay_loop.simps)
  with assms new show ?thesis
    by (auto simp: bootstrap_def open_log_def logging_def log_file_def aof_defs aof_open_def no_ttl_def deadline_def)
qed

lemma bootstrap_replays:
  assumes "cf_appendonly cfg" "cf_maxmemory cfg = 0" "cf_shards cfg \<le> 2 ^ 63" "dk_open_error disk = None"
    and "dk_aof disk = Contents (concat (map resp_command logged))" "list_all loggable logged" "replays fl cfg logged Map.empty g"
  shows "\<exists>sv m. bootstrap fl ev n router hs cfg disk = Some (m, Inr sv) \<and> store_ks (sv_store sv) = g"
proof -
  note new = new_store [OF assms(3), of router hs]
  have rec: "recover fl cfg disk = prog_bind (run_commands fl cfg logged conn_internal) (\<lambda>_. Done (Inr (length logged)))"
    using replay_commands [OF assms(6), of fl cfg "[]" conn_internal 0] assms(1,5)
    by (simp add: recover_def load_aof_def replay_file_def map_prog_bind prog_bind_assoc replay_loop.simps)
  obtain st m cs where st: "exec ev n (run_commands fl cfg logged conn_internal) (store_new router hs (cf_shards cfg) 0) = Some (st, m, cs)"
      "ks_exec False ev n Map.empty (run_commands fl cfg logged conn_internal) (store_ks st) m cs"
    using exec_allowed [OF new(1), of ev n "run_commands fl cfg logged conn_internal"] unfolding new(2) by (auto simp: returns_iff)
  have "store_ks st = g" using assms(7) st(2) unfolding replays_def by blast
  with st(1) rec assms(1,2,4,5) show ?thesis by (auto simp: bootstrap_def exec_bind open_log_def)
qed

section \<open>Properties\<close>



end
