(* ===== verification/Uring.thy ===== *)
theory Uring
  imports Server
begin

text \<open>
  \<^verbatim>\<open>crates/server/src/runtime_uring.rs\<close>: the connection loop of the io_uring build, which repeats the loop of
  \<^verbatim>\<open>conn.rs\<close> on asynchronous reads and writes, and its accept loops. The runtime of the executors is not part of the
  repository: a stream is again a list of read results and a sink, and the connections that the executors are
  handed come in one order. The property is that the two loops do the same up to a \<^verbatim>\<open>SYNC\<close>.
\<close>

section \<open>The connection loop\<close>

definition uring_command :: "floats \<Rightarrow> environ \<Rightarrow> bytes list \<Rightarrow> session \<Rightarrow> (session \<times> bool) option" where
  "uring_command fl ev argv s =
     (let name = upper (argv ! 0); sv = se_server s in
      if \<not> cs_authenticated (se_conn s) \<and> \<not> (name \<in> {''AUTH'', ''HELLO'', ''QUIT'', ''PING''}) then
        Some (s\<lparr>se_out := write_error (se_out s) ''NOAUTH Authentication required.''\<rparr>, False)
      else if sv_read_only sv \<and> is_write_command name then
        Some (s\<lparr>se_out := write_error (se_out s) (''READONLY You can'' @ [CHR 0x27] @ ''t write against a read only replica.'')\<rparr>, False)
      else do {
        (st, n, handled) \<leftarrow> exec ev (se_tick s) (serve_fast (se_conn s) argv (se_out s)) (sv_store sv);
        (out, fast) \<leftarrow> handled;
        (s, is_write, quit) \<leftarrow>
          (case fast of
             Some w \<Rightarrow> Some (s\<lparr>se_server := sv\<lparr>sv_store := st\<rparr>, se_tick := n, se_out := out\<rparr>, w, False)
           | None \<Rightarrow> do {
               (st, n, cs, oc) \<leftarrow> exec ev n (dispatch fl (sv_config sv) argv (se_conn s)) st;
               Some (\<lparr>se_server = sv\<lparr>sv_store := st\<rparr>, se_tick = n, se_conn = cs,
                 se_out = out @ reply_encode (fl_show fl) (cs_resp3 cs) (oc_reply oc)\<rparr>, oc_persist oc, oc_quit oc)
             });
        if is_write \<and> (sv_aof (se_server s) \<noteq> None \<or> has_replicas (sv_repl (se_server s))) then
          let (s, failed) = log_append argv s in Some (log_propagate argv s, quit \<or> failed)
        else Some (s, quit)
      })"

function uring_buffer :: "floats \<Rightarrow> environ \<Rightarrow> bytes \<Rightarrow> session \<Rightarrow> (session \<times> bytes option) option" where
  "uring_buffer fl ev buf s =
     (case parse_command_ranges buf of
        Inl e \<Rightarrow> Some (s\<lparr>se_out := write_error (se_out s) (''ERR Protocol error: '' @ protocol_error_display e)\<rparr>, None)
      | Inr None \<Rightarrow> Some (s, Some buf)
      | Inr (Some (ranges, consumed)) \<Rightarrow>
          if ranges = [] then uring_buffer fl ev (drop consumed buf) s
          else
            let argv = map (\<lambda>(off, len). slice off (off + len) buf) ranges; name = upper (argv ! 0) in
            if name = ''SYNC'' \<or> name = ''PSYNC'' then
              Some (s\<lparr>se_out := write_error (se_out s) ''ERR replication SYNC is served by the portable listener''\<rparr>, None)
            else case uring_command fl ev argv s of
              None \<Rightarrow> None
            | Some (s, quit) \<Rightarrow> if quit then Some (s, None) else uring_buffer fl ev (drop consumed buf) s)"
  by pat_completeness auto
termination
  by (relation "measure (\<lambda>(fl, ev, buf, s). length buf)") (auto dest: parse_ranges_bounds)

declare uring_buffer.simps [simp del]

fun uring_reads ::
  "floats \<Rightarrow> environ \<Rightarrow> read_result list \<Rightarrow> bytes \<Rightarrow> session \<Rightarrow> sink \<Rightarrow> (session \<times> sink \<times> string option) option"
where
  "uring_reads fl ev [] inbuf s stream = Some (s, stream, None)"
| "uring_reads fl ev (Failed e # reads) inbuf s stream = Some (s, stream, Some e)"
| "uring_reads fl ev (Data chunk # reads) inbuf s stream =
     (if chunk = [] then Some (s, stream, None)
      else case uring_buffer fl ev (inbuf @ chunk) s of
        None \<Rightarrow> None
      | Some (s, rest) \<Rightarrow>
          (case (if se_out s = [] then (stream, None) else write_all stream (se_out s)) of
             (stream, Some e) \<Rightarrow> Some (s, stream, Some e)
           | (stream, None) \<Rightarrow>
               let s = s\<lparr>se_out := []\<rparr> in
               (case rest of
                  Some inbuf \<Rightarrow> uring_reads fl ev reads inbuf s stream
                | None \<Rightarrow> Some (s, stream, None))))"

definition handle_conn ::
  "floats \<Rightarrow> environ \<Rightarrow> u64 \<Rightarrow> read_result list \<Rightarrow> server \<Rightarrow> nat \<Rightarrow> sink \<Rightarrow> (session \<times> sink \<times> string option) option"
where
  "handle_conn fl ev cid reads sv n stream =
     (let authed = (cf_requirepass (sv_config sv) = None)
      in uring_reads fl ev reads [] \<lparr>se_server = sv, se_tick = n, se_conn = conn_new cid authed, se_out = []\<rparr> stream)"

section \<open>The accept loops\<close>

text \<open>What the accepts of all executors answer, in one order, each with the executor; the counter of connection numbers
  is shared. An executor whose accept fails leaves its loop, and nothing is accepted there again.\<close>

fun uring_accepts :: "nat list \<Rightarrow> u64 \<Rightarrow> (nat \<times> (string + 'a)) list \<Rightarrow> (u64 \<times> 'a) list" where
  "uring_accepts stopped next_id [] = []"
| "uring_accepts stopped next_id ((executor, r) # incoming) =
     (if executor \<in> set stopped then uring_accepts stopped next_id incoming
      else case r of
        Inr stream \<Rightarrow> (next_id, stream) # uring_accepts stopped (next_id + 1) incoming
      | Inl e \<Rightarrow> uring_accepts (executor # stopped) next_id incoming)"

section \<open>The two loops\<close>

lemma log_write_let:
  "(if w \<and> (sv_aof (se_server s) \<noteq> None \<or> has_replicas (sv_repl (se_server s))) then
      let (s, failed) = log_append argv s in Some (log_propagate argv s, quit \<or> failed) else Some (s, quit)) =
    Some (let (s, failed) = log_write argv w s in (s, quit \<or> failed))"
  by (auto simp: log_write_def Let_def split_def)

lemma uring_command_portable: "uring_command fl ev argv s = run_command fl ev argv s"
proof -
  have pre: "name \<in> {''AUTH'', ''HELLO'', ''QUIT'', ''PING''} \<longleftrightarrow> is_preauth_ok name" for name
    by (simp add: is_preauth_ok_def)
  have "(case fast of
      Some w \<Rightarrow> Some (s\<lparr>se_server := sv\<lparr>sv_store := st\<rparr>, se_tick := n, se_out := out\<rparr>, w, False)
    | None \<Rightarrow> do {
        (st, n, cs, oc) \<leftarrow> exec ev n (dispatch fl (sv_config sv) argv (se_conn s)) st;
        Some (\<lparr>se_server = sv\<lparr>sv_store := st\<rparr>, se_tick = n, se_conn = cs,
          se_out = out @ reply_encode (fl_show fl) (cs_resp3 cs) (oc_reply oc)\<rparr>, oc_persist oc, oc_quit oc)
      }) \<bind> (\<lambda>(s, w, quit). Some (let (s, failed) = log_write argv w s in (s, quit \<or> failed))) =
    (case fast of
      Some w \<Rightarrow> Some (log_write argv w (s\<lparr>se_server := sv\<lparr>sv_store := st\<rparr>, se_tick := n, se_out := out\<rparr>))
    | None \<Rightarrow> do {
        (st, n, cs, oc) \<leftarrow> exec ev n (dispatch fl (sv_config sv) argv (se_conn s)) st;
        let out = out @ reply_encode (fl_show fl) (cs_resp3 cs) (oc_reply oc);
            (s, quit) = log_write argv (oc_persist oc) \<lparr>se_server = sv\<lparr>sv_store := st\<rparr>, se_tick = n, se_conn = cs, se_out = out\<rparr>
        in Some (s, oc_quit oc \<or> quit) })" for sv fast st n out
    by (cases fast; cases "exec ev n (dispatch fl (sv_config sv) argv (se_conn s)) st") (simp_all add: Let_def split_def)
  then show ?thesis
    unfolding uring_command_def run_command_def execute_command_def pre log_write_let by (simp only: Let_def)
qed

text \<open>The loop up to a \<^verbatim>\<open>SYNC\<close>: how it stopped, with the reads that are left at a \<^verbatim>\<open>SYNC\<close>.\<close>

datatype stop = Closed "string option" | At_Sync "read_result list"

fun serve_reads ::
  "floats \<Rightarrow> environ \<Rightarrow> read_result list \<Rightarrow> bytes \<Rightarrow> session \<Rightarrow> sink \<Rightarrow> (session \<times> sink \<times> stop) option"
where
  "serve_reads fl ev [] inbuf s stream = Some (s, stream, Closed None)"
| "serve_reads fl ev (Failed e # reads) inbuf s stream = Some (s, stream, Closed (Some e))"
| "serve_reads fl ev (Data chunk # reads) inbuf s stream =
     (if chunk = [] then Some (s, stream, Closed None)
      else case run_buffer fl ev (inbuf @ chunk) s of
        None \<Rightarrow> None
      | Some (s, Sync) \<Rightarrow> Some (s, stream, At_Sync reads)
      | Some (s, r) \<Rightarrow>
          (case write_all stream (se_out s) of
             (stream, Some e) \<Rightarrow> Some (s, stream, Closed (Some e))
           | (stream, None) \<Rightarrow>
               (case r of
                  More inbuf \<Rightarrow> serve_reads fl ev reads inbuf (s\<lparr>se_out := []\<rparr>) stream
                | _ \<Rightarrow> Some (s\<lparr>se_out := []\<rparr>, stream, Closed None))))"

text \<open>What the io_uring loop does at a \<^verbatim>\<open>SYNC\<close>: the pending output is sent with an error, and the connection is closed.\<close>

definition sync_refused :: "session \<Rightarrow> session" where
  "sync_refused s = s\<lparr>se_out := write_error (se_out s) ''ERR replication SYNC is served by the portable listener''\<rparr>"

definition refuse_sync :: "session \<Rightarrow> sink \<Rightarrow> session \<times> sink \<times> string option" where
  "refuse_sync s stream =
     (case write_all stream (se_out (sync_refused s)) of
        (stream, Some e) \<Rightarrow> (sync_refused s, stream, Some e)
      | (stream, None) \<Rightarrow> (s\<lparr>se_out := []\<rparr>, stream, None))"

lemma uring_buffer_portable:
  "uring_buffer fl ev buf s =
     map_option (\<lambda>(s', r). case r of More rest \<Rightarrow> (s', Some rest) | Quit \<Rightarrow> (s', None) | Sync \<Rightarrow> (sync_refused s', None)) (run_buffer fl ev buf s)"
proof (induction fl ev buf s rule: run_buffer.induct)
  case (1 fl ev buf s)
  show ?case
    by (subst run_buffer.simps, subst uring_buffer.simps)
       (use 1 in \<open>auto simp: uring_command_portable sync_refused_def Let_def split: sum.split option.split\<close>)
qed

lemma portable_reads:
  "run_reads fl ev raw reads inbuf s stream =
     map_option (\<lambda>(s, stream, e). case e of Closed e \<Rightarrow> (s, stream, e) | At_Sync reads \<Rightarrow> start_sync fl ev raw s stream reads)
       (serve_reads fl ev reads inbuf s stream)"
  by (induction fl ev reads inbuf s stream rule: serve_reads.induct)
     (auto simp: write_nothing Let_def split: option.split drained.split prod.split)

lemma uring_reads_portable:
  "uring_reads fl ev reads inbuf s stream =
     map_option (\<lambda>(s, stream, e). case e of Closed e \<Rightarrow> (s, stream, e) | At_Sync reads \<Rightarrow> refuse_sync s stream)
       (serve_reads fl ev reads inbuf s stream)"
  by (induction fl ev reads inbuf s stream rule: serve_reads.induct)
     (auto simp: write_nothing uring_buffer_portable refuse_sync_def sync_refused_def Let_def split: option.split drained.split prod.split)

section \<open>Properties\<close>

text \<open>C0: The io_uring loop mirrors the portable one. On every connection, whatever it delivers, both loops do
  the same, on the server, on the session and on the bytes sent, until the client sends \<^verbatim>\<open>SYNC\<close>. There the portable loop
  starts a feed, and the io_uring loop sends an error after the pending replies and closes, leaving the server as it is.\<close>

theorem uring_mirrors_portable:
  "let served = serve_reads fl ev reads [] (new_session cid sv n) stream in
    run_conn fl ev raw cid reads sv n stream =
      map_option (\<lambda>(s, stream, e). case e of Closed e \<Rightarrow> (s, stream, e) | At_Sync reads \<Rightarrow> start_sync fl ev raw s stream reads) served
    \<and> handle_conn fl ev cid reads sv n stream =
      map_option (\<lambda>(s, stream, e). case e of Closed e \<Rightarrow> (s, stream, e) | At_Sync reads \<Rightarrow> refuse_sync s stream) served
    \<and> (\<forall>s. se_server (fst (refuse_sync s stream)) = se_server s)"
  unfolding Let_def
proof (intro conjI allI)
  show "se_server (fst (refuse_sync s stream)) = se_server s" for s
    by (simp add: refuse_sync_def sync_refused_def split: prod.split option.split)
qed (simp_all add: run_conn_def handle_conn_def new_session_def portable_reads uring_reads_portable)

text \<open>C0: The accept loops do not behave the same. After a failed accept the portable listener goes on and numbers
  the next connection; an executor of the io_uring runtime has left its loop, and every connection handed to it later is
  never served.\<close>

theorem uring_accept_stops:
  "accept_loop cid (map Inr served @ Inl e # map Inr rest) = accept_loop cid (map Inr (served @ rest))
    \<and> uring_accepts [] cid (map (\<lambda>c. (x, Inr c)) served @ (x, Inl e) # map (\<lambda>c. (x, Inr c)) rest) = accept_loop cid (map Inr served)"
proof
  show "accept_loop cid (map Inr served @ Inl e # map Inr rest) = accept_loop cid (map Inr (served @ rest))"
    by (induction served arbitrary: cid) simp_all
  have "uring_accepts [x] cid (map (\<lambda>c. (x, Inr c)) rest) = []" for cid :: u64 by (induction rest) simp_all
  then show "uring_accepts [] cid (map (\<lambda>c. (x, Inr c)) served @ (x, Inl e) # map (\<lambda>c. (x, Inr c)) rest) = accept_loop cid (map Inr served)"
    by (induction served arbitrary: cid) simp_all
qed

section \<open>Every input is served\<close>

definition feeds :: "session \<Rightarrow> nat" where
  "feeds s = length (rp_replicas (sv_repl (se_server s)))"

lemma log_write_feeds: "feeds (fst (log_write argv w s)) \<le> feeds s"
proof -
  have p: "length (rp_replicas (propagate r b)) \<le> length (rp_replicas r)" for r b
    using length_filter_le by (auto simp: propagate_def Let_def intro: order_trans [OF length_filter_le])
  have "feeds (log_propagate argv t) \<le> feeds t" for t by (simp add: log_propagate_def feeds_def p)
  moreover have "feeds (fst (log_append argv s)) = feeds s" by (auto simp: log_append_def feeds_def split: option.split prod.split)
  ultimately show ?thesis by (simp add: log_write_def Let_def split_def) (metis)
qed

lemma execute_command_feeds:
  assumes "execute_command fl ev argv s = Some (s', quit)"
  shows "feeds s' \<le> feeds s"
proof -
  obtain st n out fast where f: "exec ev (se_tick s) (serve_fast (se_conn s) argv (se_out s)) (sv_store (se_server s)) = Some (st, n, Some (out, fast))"
    using assms by (force simp: execute_command_def Let_def bind_eq_Some_conv)
  show ?thesis
  proof (cases fast)
    case (Some w)
    with assms f log_write_feeds [of argv w "s\<lparr>se_server := (se_server s)\<lparr>sv_store := st\<rparr>, se_tick := n, se_out := out\<rparr>"] show ?thesis
      by (simp add: execute_command_def feeds_def)
  next
    case None
    with assms f obtain st1 n1 cs oc where d: "exec ev n (dispatch fl (sv_config (se_server s)) argv (se_conn s)) st = Some (st1, n1, cs, oc)"
      by (force simp: execute_command_def Let_def bind_eq_Some_conv)
    let ?t = "\<lparr>se_server = (se_server s)\<lparr>sv_store := st1\<rparr>, se_tick = n1, se_conn = cs, se_out = out @ reply_encode (fl_show fl) (cs_resp3 cs) (oc_reply oc)\<rparr>"
    from assms f d None log_write_feeds [of argv "oc_persist oc" ?t] show ?thesis
      by (auto simp: execute_command_def feeds_def Let_def split_def)
  qed
qed

lemma run_command_feeds: "run_command fl ev argv s = Some (s', quit) \<Longrightarrow> feeds s' \<le> feeds s"
  using execute_command_feeds by (auto simp: run_command_def feeds_def Let_def split: if_splits)

text \<open>What serving a connection keeps of a server.\<close>

definition serves :: "nat \<Rightarrow> session \<Rightarrow> session \<Rightarrow> bool" where
  "serves b s s' \<longleftrightarrow> st_inv b (sv_store (se_server s')) \<and> same_server (se_server s) (se_server s') \<and> feeds s' \<le> feeds s"

lemma serves_out: "st_inv b (sv_store (se_server s)) \<Longrightarrow> serves b s (s\<lparr>se_out := out\<rparr>)" "serves b s (s'\<lparr>se_out := out\<rparr>) = serves b s s'"
  by (simp_all add: serves_def same_server_def feeds_def)

lemma serves_trans: "serves b s1 s2 \<Longrightarrow> serves b s2 s3 \<Longrightarrow> serves b s1 s3"
  by (simp add: serves_def same_server_def)

lemma run_buffer_serves:
  "st_inv b (sv_store (se_server s)) \<Longrightarrow> returns (run_buffer fl ev buf s) (\<lambda>(s', r). serves b s s')"
proof (induction fl ev buf s rule: run_buffer.induct)
  case (1 fl ev buf s)
  have self: "serves b s s" using serves_out(1) [OF 1(3), of "se_out s"] by simp
  show ?case
  proof (cases "parse_command_ranges buf")
    case (Inl e)
    then show ?thesis using serves_out(1) [OF 1(3)] by (subst run_buffer.simps) simp
  next
    case (Inr p)
    show ?thesis
    proof (cases p)
      case None
      with Inr self show ?thesis by (subst run_buffer.simps) simp
    next
      case (Some rc)
      obtain rs consumed where rc: "rc = (rs, consumed)" by (cases rc)
      let ?argv = "map (\<lambda>(off, len). slice off (off + len) buf) rs"
      obtain s1 q where 1: "run_command fl ev ?argv s = Some (s1, q)" "serves b s s1"
        using run_command_returns [OF 1(3), of fl ev ?argv] run_command_feeds [of fl ev ?argv s] by (auto simp: returns_iff serves_def answered_def)
      have "returns (run_buffer fl ev (drop consumed buf) s1) (\<lambda>(s', r). serves b s s')" if "rs \<noteq> []" "\<not> is_sync ?argv" "\<not> q"
      proof -
        have "returns (run_buffer fl ev (drop consumed buf) s1) (\<lambda>(s', r). serves b s1 s')"
          using "1.IH"(2) [OF Inr Some rc [symmetric] that(1) refl refl _ 1(1) refl that(3)] that(2) 1(2) by (simp add: is_sync_def serves_def)
        then show ?thesis using serves_trans [OF 1(2)] by (auto simp: returns_iff)
      qed
      with 1 self "1.IH"(1) [OF Inr Some rc [symmetric]] "1.prems" show ?thesis
        by (subst run_buffer.simps) (simp add: Inr Some rc Let_def is_sync_def)
    qed
  qed
qed

lemma serve_reads_serves:
  "st_inv b (sv_store (se_server s)) \<Longrightarrow> returns (serve_reads fl ev reads inbuf s stream) (\<lambda>(s', _). serves b s s')"
proof (induction fl ev reads inbuf s stream rule: serve_reads.induct)
  case (3 fl ev chunk reads inbuf s stream)
  have self: "serves b s s" using serves_out(1) [OF "3.prems", of "se_out s"] by simp
  obtain s1 r where 1: "run_buffer fl ev (inbuf @ chunk) s = Some (s1, r)" "serves b s s1"
    using run_buffer_serves [OF "3.prems", of fl ev "inbuf @ chunk"] by (auto simp: returns_iff)
  obtain stream1 e where w: "write_all stream (se_out s1) = (stream1, e)" by (cases "write_all stream (se_out s1)")
  have "returns (serve_reads fl ev reads buf (s1\<lparr>se_out := []\<rparr>) stream1) (\<lambda>(s', _). serves b s s')"
    if "chunk \<noteq> []" "r = More buf" "e = None" for buf
  proof -
    have "returns (serve_reads fl ev reads buf (s1\<lparr>se_out := []\<rparr>) stream1) (\<lambda>(s', _). serves b (s1\<lparr>se_out := []\<rparr>) s')"
      using "3.IH"(1) [OF that(1) 1(1) refl that(2) w [symmetric] that(3) refl] 1(2) by (simp add: serves_def)
    moreover have "serves b s (s1\<lparr>se_out := []\<rparr>)" using 1(2) by (simp add: serves_out(2))
    ultimately show ?thesis using serves_trans by (fastforce simp: returns_iff)
  qed
  with self 1 w show ?case by (auto simp: serves_out split: drained.split option.split)
qed (use serves_out(1) in \<open>auto simp: serves_def same_server_def\<close>)

lemma run_conn_serves:
  assumes "st_inv b (sv_store sv)"
  shows "returns (run_conn fl ev raw cid reads sv n stream) (\<lambda>(s, _). st_inv b (sv_store (se_server s)) \<and> same_server sv (se_server s)
      \<and> (raw = None \<longrightarrow> feeds s \<le> length (rp_replicas (sv_repl sv))))"
    and "returns (handle_conn fl ev cid reads sv n stream) (\<lambda>(s, _). st_inv b (sv_store (se_server s)) \<and> same_server sv (se_server s)
      \<and> feeds s \<le> length (rp_replicas (sv_repl sv)))"
proof -
  let ?s = "new_session cid sv n"
  have new: "se_server ?s = sv" "feeds ?s = length (rp_replicas (sv_repl sv))" by (simp_all add: new_session_def feeds_def)
  obtain s stream1 e where r: "serve_reads fl ev reads [] ?s stream = Some (s, stream1, e)" "serves b ?s s"
    using serve_reads_serves [of b ?s fl ev reads "[]" stream] assms by (auto simp: new returns_iff)
  have "st_inv b (sv_store (se_server (fst (start_sync fl ev raw s stream1 reads')))) \<and> same_server sv (se_server (fst (start_sync fl ev raw s stream1 reads')))
      \<and> (raw = None \<longrightarrow> feeds (fst (start_sync fl ev raw s stream1 reads')) \<le> feeds s)" for reads'
    using r(2) by (auto simp: start_sync_def serves_def new same_server_def feeds_def Let_def split: prod.split option.split)
  with r show "returns (run_conn fl ev raw cid reads sv n stream) (\<lambda>(s, _). st_inv b (sv_store (se_server s)) \<and> same_server sv (se_server s)
      \<and> (raw = None \<longrightarrow> feeds s \<le> length (rp_replicas (sv_repl sv))))"
    unfolding run_conn_def new_session_def [symmetric] Let_def portable_reads
    by (cases e) (auto simp: serves_def new split_def intro: order_trans)
  have "st_inv b (sv_store (se_server (fst (refuse_sync s stream1)))) \<and> same_server sv (se_server (fst (refuse_sync s stream1)))
      \<and> feeds (fst (refuse_sync s stream1)) \<le> feeds s"
    using r(2) by (auto simp: refuse_sync_def sync_refused_def serves_def new same_server_def feeds_def split: prod.split option.split)
  with r show "returns (handle_conn fl ev cid reads sv n stream) (\<lambda>(s, _). st_inv b (sv_store (se_server s)) \<and> same_server sv (se_server s)
      \<and> feeds s \<le> length (rp_replicas (sv_repl sv)))"
    unfolding handle_conn_def new_session_def [symmetric] Let_def uring_reads_portable
    by (cases e) (auto simp: serves_def new split_def intro: order_trans)
qed

text \<open>C0: No input brings a connection down. Whatever bytes a client sends, cut into whatever reads and ending in
  whatever error, and however much of the replies the socket takes, both connection loops return without
  a panic and leave a well-formed store; the configuration is untouched.\<close>

theorem connection_survives_input:
  assumes "st_inv b (sv_store sv)"
  shows "\<exists>s stream' e t stream'' e'.
    run_conn fl ev raw cid reads sv n stream = Some (s, stream', e) \<and> st_inv b (sv_store (se_server s)) \<and> sv_config (se_server s) = sv_config sv
    \<and> handle_conn fl ev cid reads sv n stream = Some (t, stream'', e') \<and> st_inv b (sv_store (se_server t)) \<and> sv_config (se_server t) = sv_config sv"
  using run_conn_serves(1) [OF assms, of fl ev raw cid reads n stream] run_conn_serves(2) [OF assms, of fl ev cid reads n stream]
  by (auto simp: returns_iff same_server_def)

theorem connection_survives_input_witness:
  "\<exists>s stream' e. run_conn no_floats still_env (Some True) 1 [Data ''*1'', Data (CRLF @ ''$x''), Failed ''reset''] guarded_server 0
      \<lparr>sk_data = [], sk_room = 3, sk_error = ''closed''\<rparr> = Some (s, stream', e) \<and> st_inv 0 (sv_store (se_server s))"
  using connection_survives_input [OF guarded_inv(1), of no_floats still_env "Some True" 1 "[Data ''*1'', Data (CRLF @ ''$x''), Failed ''reset'']" 0
    "\<lparr>sk_data = [], sk_room = 3, sk_error = ''closed''\<rparr>"] by blast

end
