(* ===== verification/Tls.thy ===== *)
theory Tls
  imports Uring Config
begin

text \<open>
  \<^verbatim>\<open>crates/server/src/tls.rs\<close> and what the other files do with it: building the acceptor, the choice of the
  configuration at start-up (\<^verbatim>\<open>server.rs\<close>), the entry of a connection (\<^verbatim>\<open>conn.rs\<close>) and the start of the process
  (\<^verbatim>\<open>main.rs\<close>). The TLS library is a record of parameters; the reads and the sink of a TLS connection are those of the
  decrypted stream.
\<close>

section \<open>The acceptor\<close>

text \<open>What the code calls of the library: the certificates and the private key of a file in PEM format, the
  configuration built from them, and a new server connection, which may be refused.\<close>

record ('cert, 'key, 'config) tls_library =
  tl_certs :: "bytes \<Rightarrow> string + 'cert list"
  tl_private_key :: "bytes \<Rightarrow> string + 'key option"
  tl_with_single_cert :: "'cert list \<Rightarrow> 'key \<Rightarrow> string + 'config"
  tl_connection :: "'config \<Rightarrow> string option"

definition open_file :: "file_state \<Rightarrow> string + bytes" where
  "open_file f =
     (case f of Absent \<Rightarrow> Inl ''No such file or directory (os error 2)'' | Unreadable e \<Rightarrow> Inl e | Contents data \<Rightarrow> Inr data)"

definition tls_acceptor_new :: "('cert, 'key, 'config) tls_library \<Rightarrow> file_state \<Rightarrow> file_state \<Rightarrow> string + 'config" where
  "tls_acceptor_new lib cert_file key_file =
     (case open_file cert_file of
        Inl e \<Rightarrow> Inl e
      | Inr pem \<Rightarrow>
          (case tl_certs lib pem of
             Inl e \<Rightarrow> Inl e
           | Inr certs \<Rightarrow>
               if certs = [] then Inl ''no certificates in cert file''
               else case open_file key_file of
                 Inl e \<Rightarrow> Inl e
               | Inr pem \<Rightarrow>
                   (case tl_private_key lib pem of
                      Inl e \<Rightarrow> Inl e
                    | Inr None \<Rightarrow> Inl ''no private key found''
                    | Inr (Some key) \<Rightarrow> tl_with_single_cert lib certs key)))"

definition tls_accept :: "('cert, 'key, 'config) tls_library \<Rightarrow> 'config \<Rightarrow> string option" where
  "tls_accept lib acceptor = tl_connection lib acceptor"

section \<open>Start-up with TLS\<close>

definition tls_setup ::
  "('cert, 'key, 'config) tls_library \<Rightarrow> (string \<Rightarrow> file_state) \<Rightarrow> config \<Rightarrow> string + 'config option"
where
  "tls_setup lib files cfg =
     (case (cf_tls_cert cfg, cf_tls_key cfg) of
        (Some cert, Some key) \<Rightarrow>
          (case tls_acceptor_new lib (files cert) (files key) of Inl e \<Rightarrow> Inl e | Inr acceptor \<Rightarrow> Inr (Some acceptor))
      | (None, None) \<Rightarrow> Inr None
      | _ \<Rightarrow> Inl ''both --tls-cert and --tls-key are required for TLS'')"

definition bootstrap_tls ::
  "('cert, 'key, 'config) tls_library \<Rightarrow> (string \<Rightarrow> file_state) \<Rightarrow> floats \<Rightarrow> environ \<Rightarrow> nat \<Rightarrow> (bytes \<Rightarrow> u64) \<Rightarrow> (nat \<Rightarrow> hashers)
    \<Rightarrow> config \<Rightarrow> disk \<Rightarrow> (nat \<times> (string + server \<times> 'config option)) option"
where
  "bootstrap_tls lib files fl ev n router hs cfg disk =
     do {
       (n, r) \<leftarrow> bootstrap fl ev n router hs cfg disk;
       Some (n, case r of
           Inl e \<Rightarrow> Inl e
         | Inr sv \<Rightarrow> (case tls_setup lib files cfg of Inl e \<Rightarrow> Inl e | Inr tls \<Rightarrow> Inr (sv, tls)))
     }"

text \<open>The process: it prints the help text, exits with a status, or has a server to run.\<close>

datatype 'config process = Help_Printed | Exit nat | Serving server "'config option"

definition main_start ::
  "('cert, 'key, 'config) tls_library \<Rightarrow> (string \<Rightarrow> file_state) \<Rightarrow> floats \<Rightarrow> environ \<Rightarrow> (bytes \<Rightarrow> u64) \<Rightarrow> (nat \<Rightarrow> hashers)
    \<Rightarrow> string list \<Rightarrow> disk \<Rightarrow> (nat \<times> 'config process) option"
where
  "main_start lib files fl ev router hs args disk =
     (case from_args args of
        Inl e \<Rightarrow> Some (0, if e = ''help'' then Help_Printed else Exit 2)
      | Inr cfg \<Rightarrow>
          do {
            (n, r) \<leftarrow> bootstrap_tls lib files fl ev 0 router hs cfg disk;
            Some (n, case r of Inl e \<Rightarrow> Exit 1 | Inr (sv, tls) \<Rightarrow> Serving sv tls)
          })"

section \<open>A connection\<close>

text \<open>\<open>clones\<close> says whether the two calls of \<^verbatim>\<open>try_clone\<close> on the socket succeed. The errors of \<^verbatim>\<open>run\<close> are dropped.\<close>

definition handle ::
  "('cert, 'key, 'config) tls_library \<Rightarrow> 'config option \<Rightarrow> bool \<times> bool \<Rightarrow> floats \<Rightarrow> environ \<Rightarrow> u64 \<Rightarrow> read_result list \<Rightarrow> server \<Rightarrow> nat \<Rightarrow> sink
    \<Rightarrow> (server \<times> nat \<times> sink) option"
where
  "handle lib tls clones fl ev cid reads sv n stream =
     (let run = (\<lambda>raw. map_option (\<lambda>(s, stream, e). (se_server s, se_tick s, stream)) (run_conn fl ev raw cid reads sv n stream)) in
      case tls of
        Some acceptor \<Rightarrow> (case tls_accept lib acceptor of None \<Rightarrow> run None | Some e \<Rightarrow> Some (sv, n, stream))
      | None \<Rightarrow> run (if fst clones then Some (snd clones) else None))"

section \<open>Properties\<close>

text \<open>C0: With TLS on nothing is fed to replicas. Whatever clients send on a connection to a server that was started with a
  certificate and a key, the connection is served to its end and does not add a feed, so no dump and no
  later write leaves the server on a socket that TLS does not protect.\<close>

theorem tls_never_feeds:
  assumes "st_inv b (sv_store sv)" "tls_setup lib files cfg = Inr tls" "cf_tls_cert cfg \<noteq> None"
  shows "\<exists>sv' n' stream'. handle lib tls clones fl ev cid reads sv n stream = Some (sv', n', stream') \<and> st_inv b (sv_store sv')
    \<and> length (rp_replicas (sv_repl sv')) \<le> length (rp_replicas (sv_repl sv))"
proof -
  obtain acceptor where "tls = Some acceptor" using assms(2,3) by (auto simp: tls_setup_def split: option.splits sum.splits)
  with run_conn_serves(1) [OF assms(1), of fl ev None cid reads n stream] assms(1) show ?thesis
    by (auto simp: handle_def feeds_def returns_iff split: option.split)
qed

definition sample_library :: "(nat, nat, nat) tls_library" where
  "sample_library = \<lparr>tl_certs = \<lambda>pem. Inr [length pem], tl_private_key = \<lambda>pem. Inr (Some (length pem)),
     tl_with_single_cert = \<lambda>certs key. Inr key, tl_connection = \<lambda>_. None\<rparr>"

theorem tls_never_feeds_witness:
  "\<exists>tls sv' n' stream'. tls_setup sample_library (\<lambda>_. Contents ''pem'') (config_default\<lparr>cf_tls_cert := Some ''c'', cf_tls_key := Some ''k''\<rparr>) = Inr tls
    \<and> handle sample_library tls (True, True) no_floats still_env 1 [Data (resp_command [''SYNC''])] guarded_server 0 \<lparr>sk_data = [], sk_room = 100, sk_error = []\<rparr>
        = Some (sv', n', stream') \<and> rp_replicas (sv_repl sv') = []"
proof -
  let ?cfg = "config_default\<lparr>cf_tls_cert := Some ''c'', cf_tls_key := Some ''k''\<rparr>"
  have "tls_setup sample_library (\<lambda>_. Contents ''pem'') ?cfg = Inr (Some 3)"
    by (simp add: tls_setup_def tls_acceptor_new_def open_file_def sample_library_def)
  with tls_never_feeds [OF guarded_inv(1) this, of "(True, True)" no_floats still_env 1 "[Data (resp_command [''SYNC''])]" 0
      "\<lparr>sk_data = [], sk_room = 100, sk_error = []\<rparr>"]
  show ?thesis by (auto simp: guarded_server_def replication_new_def)
qed

end
