(* ===== verification/Interleaving.thy ===== *)
theory Interleaving
  imports Server
begin

text \<open>
  The threads of the server (\<^verbatim>\<open>conn.rs\<close>, \<^verbatim>\<open>server.rs\<close>) running at the same time. A thread holds a lock for one store
  operation, one append to the log, one propagation or one registration of a replica; between these points any
  other thread may run. A world is the shared server and what each thread is about to do; a step is one such
  point of one thread. Walks over all shards (\<^verbatim>\<open>KEYS\<close>, a flush, a dump, a reaper round) are one step here.
\<close>

section \<open>Threads\<close>

text \<open>A command up to its reply: the fast path, else \<^verbatim>\<open>dispatch\<close>. The result is the state of the connection, the
  output, whether the command is a write, and whether the connection closes.\<close>

definition command_prog :: "floats \<Rightarrow> config \<Rightarrow> conn_state \<Rightarrow> bytes list \<Rightarrow> bytes \<Rightarrow> (conn_state \<times> bytes \<times> bool \<times> bool) option prog" where
  "command_prog fl cfg cs argv out =
     prog_bind (serve_fast cs argv out) (\<lambda>handled.
       case handled of
         None \<Rightarrow> Done None
       | Some (out, Some w) \<Rightarrow> Done (Some (cs, out, w, False))
       | Some (out, None) \<Rightarrow>
           map_prog (\<lambda>(cs, oc). Some (cs, out @ reply_encode (fl_show fl) (cs_resp3 cs) (oc_reply oc), oc_persist oc, oc_quit oc))
             (dispatch fl cfg argv cs))"

text \<open>A thread waits for input, runs a command, is about to append a write to the log, is about to send it to the replicas,
  or has taken the dump for a replica that is not registered yet.\<close>

datatype task =
    Idle
  | Running "bytes list" "(conn_state \<times> bytes \<times> bool \<times> bool) option prog"
  | Appending "bytes list"
  | Feeding "bytes list"
  | Dumped sink bytes

record world =
  wd_server :: server
  wd_tick :: nat
  wd_tasks :: "task list"
  wd_executed :: "bytes list list"
  wd_logged :: "bytes list list"

definition permitted :: "server \<Rightarrow> conn_state \<Rightarrow> bytes list \<Rightarrow> bool" where
  "permitted sv cs argv \<longleftrightarrow> (cs_authenticated cs \<or> is_preauth_ok (upper (argv ! 0)))
     \<and> \<not> (sv_read_only sv \<and> is_write_command (upper (argv ! 0))) \<and> \<not> is_sync argv"

definition on_server :: "(session \<Rightarrow> session) \<Rightarrow> server \<Rightarrow> server" where
  "on_server f sv = se_server (f \<lparr>se_server = sv, se_tick = 0, se_conn = conn_internal, se_out = []\<rparr>)"

abbreviation turn :: "world \<Rightarrow> nat \<Rightarrow> task \<Rightarrow> bool" where
  "turn w i t \<equiv> i < length (wd_tasks w) \<and> wd_tasks w ! i = t"

abbreviation becomes :: "world \<Rightarrow> nat \<Rightarrow> task \<Rightarrow> world" where
  "becomes w i t \<equiv> w\<lparr>wd_tasks := (wd_tasks w)[i := t]\<rparr>"

inductive thread_step :: "floats \<Rightarrow> environ \<Rightarrow> world \<Rightarrow> world \<Rightarrow> bool" for fl ev where
  receive: "turn w i Idle \<Longrightarrow> permitted (wd_server w) cs argv \<Longrightarrow>
    thread_step fl ev w (becomes w i (Running argv (command_prog fl (sv_config (wd_server w)) cs argv [])))"
| request: "turn w i (Running argv (Ask q k)) \<Longrightarrow> serve ev (wd_tick w) q (sv_store (wd_server w)) = Some (st, p) \<Longrightarrow>
    thread_step fl ev w ((becomes w i (Running argv (k p)))\<lparr>wd_server := (wd_server w)\<lparr>sv_store := st\<rparr>, wd_tick := Suc (wd_tick w)\<rparr>)"
| read_done: "turn w i (Running argv (Done (Some (cs, out, False, quit)))) \<Longrightarrow> thread_step fl ev w (becomes w i Idle)"
| write_done: "turn w i (Running argv (Done (Some (cs, out, True, quit)))) \<Longrightarrow>
    thread_step fl ev w ((becomes w i (Appending argv))\<lparr>wd_executed := wd_executed w @ [argv]\<rparr>)"
| append: "turn w i (Appending argv) \<Longrightarrow> sv_aof (wd_server w) \<noteq> None \<Longrightarrow>
    thread_step fl ev w ((becomes w i (Feeding argv))\<lparr>wd_server := on_server (fst \<circ> log_append argv) (wd_server w), wd_logged := wd_logged w @ [argv]\<rparr>)"
| no_append: "turn w i (Appending argv) \<Longrightarrow> sv_aof (wd_server w) = None \<Longrightarrow> has_replicas (sv_repl (wd_server w)) \<Longrightarrow>
    thread_step fl ev w (becomes w i (Feeding argv))"
| no_log: "turn w i (Appending argv) \<Longrightarrow> sv_aof (wd_server w) = None \<Longrightarrow> \<not> has_replicas (sv_repl (wd_server w)) \<Longrightarrow>
    thread_step fl ev w (becomes w i Idle)"
| feed: "turn w i (Feeding argv) \<Longrightarrow>
    thread_step fl ev w ((becomes w i Idle)\<lparr>wd_server := on_server (log_propagate argv) (wd_server w)\<rparr>)"
| dump: "turn w i Idle \<Longrightarrow>
    thread_step fl ev w ((becomes w i (Dumped stream (dump_commands (fl_show fl) (ev_clock ev (wd_tick w)) (sv_store (wd_server w)))))
      \<lparr>wd_tick := Suc (wd_tick w)\<rparr>)"
| subscribe: "turn w i (Dumped stream snapshot) \<Longrightarrow>
    thread_step fl ev w ((becomes w i Idle)\<lparr>wd_server := (wd_server w)\<lparr>sv_repl := add_replica_with_snapshot (sv_repl (wd_server w)) stream snapshot\<rparr>\<rparr>)"
| reap: "reaper_round ev (wd_tick w) (wd_server w) = Some (sv, n) \<Longrightarrow> thread_step fl ev w (w\<lparr>wd_server := sv, wd_tick := n\<rparr>)"

text \<open>A thread left alone does what the sequential connection loop does with the command.\<close>

lemma execute_command_prog:
  "execute_command fl ev argv s =
     do {
       (st, n, r) \<leftarrow> exec ev (se_tick s) (command_prog fl (sv_config (se_server s)) (se_conn s) argv (se_out s)) (sv_store (se_server s));
       (cs, out, w, quit) \<leftarrow> r;
       let (s, failed) = log_write argv w \<lparr>se_server = (se_server s)\<lparr>sv_store := st\<rparr>, se_tick = n, se_conn = cs, se_out = out\<rparr>
       in Some (s, quit \<or> failed)
     }"
proof -
  have frame: "s\<lparr>se_server := sv, se_tick := n, se_out := out\<rparr> = \<lparr>se_server = sv, se_tick = n, se_conn = se_conn s, se_out = out\<rparr>" for sv n out
    by simp
  show ?thesis
  proof (cases "exec ev (se_tick s) (serve_fast (se_conn s) argv (se_out s)) (sv_store (se_server s))")
    case (Some r)
    obtain st n handled where r: "r = (st, n, handled)" by (cases r)
    show ?thesis
    proof (cases handled)
      case h: (Some hd)
      obtain out fast where hd: "hd = (out, fast)" by (cases hd)
      show ?thesis
        by (cases fast; cases "exec ev n (dispatch fl (sv_config (se_server s)) argv (se_conn s)) st")
           (simp_all add: execute_command_def command_prog_def exec_bind exec_map Some r h hd frame split_def Let_def)
    qed (simp add: execute_command_def command_prog_def exec_bind Some r)
  qed (simp add: execute_command_def command_prog_def exec_bind)
qed

section \<open>The invariant\<close>

fun pending :: "task \<Rightarrow> bytes list list" where
  "pending (Appending argv) = [argv]"
| "pending _ = []"

fun task_ok :: "task \<Rightarrow> bool" where
  "task_ok (Running argv prog) \<longleftrightarrow> yields (\<lambda>r. \<not> Option.is_none r) prog"
| "task_ok _ \<longleftrightarrow> True"

definition world_inv :: "nat \<Rightarrow> aof \<Rightarrow> world \<Rightarrow> bool" where
  "world_inv b a w \<longleftrightarrow> st_inv b (sv_store (wd_server w)) \<and> sv_aof (wd_server w) = Some (append_all a (wd_logged w))
     \<and> mset (wd_executed w) = mset (wd_logged w) + mset (concat (map pending (wd_tasks w))) \<and> list_all task_ok (wd_tasks w)"

lemma pending_update:
  "i < length ts \<Longrightarrow> mset (concat (map pending (ts[i := t]))) + mset (pending (ts ! i)) = mset (concat (map pending ts)) + mset (pending t)"
proof (induction ts arbitrary: i)
  case (Cons u ts)
  then show ?case by (cases i) (auto simp: ac_simps)
qed simp

lemma tasks_update: "list_all task_ok ts \<Longrightarrow> task_ok t \<Longrightarrow> list_all task_ok (ts[i := t])"
  by (auto simp: list_all_iff dest: set_update_subset_insert [THEN subsetD])

lemma yields_bind: "yields (\<lambda>r. yields P (k r)) prog \<Longrightarrow> yields P (prog_bind prog k)"
  by (induction prog) auto

lemma yields_mono: "yields P prog \<Longrightarrow> (\<And>r. P r \<Longrightarrow> Q r) \<Longrightarrow> yields Q prog"
  by (induction prog) auto

lemma command_prog_yields: "yields (\<lambda>r. \<not> Option.is_none r) (command_prog fl cfg cs argv out)"
proof -
  have "yields (\<lambda>r. \<not> Option.is_none r) (serve_fast cs argv out)"
    by (auto simp: serve_fast_def fast_incr_def Let_def writers split: str_read.split sum.split)
  moreover have "yields (\<lambda>_. True) (prog :: (conn_state \<times> outcome) prog)" for prog by (induction prog) auto
  ultimately show ?thesis unfolding command_prog_def
    by (intro yields_bind) (erule yields_mono, auto split: option.split simp: comp_def split_def Option.is_none_def)
qed

lemma thread_step_inv:
  assumes "thread_step fl ev w w'" "world_inv b a w"
  shows "world_inv b a w'"
  using assms
proof (induction rule: thread_step.induct)
  case (receive w i cs argv)
  then show ?case using pending_update [of i "wd_tasks w"] by (simp add: world_inv_def tasks_update command_prog_yields)
next
  case (request w i argv q k st p)
  have "st_inv b st" using serve_allowed [of b "sv_store (wd_server w)" ev "wd_tick w" q] request by (auto simp: world_inv_def returns_iff)
  moreover have "task_ok (Running argv (k p))" using request by (auto simp: world_inv_def list_all_length)
  ultimately show ?case using request pending_update [of i "wd_tasks w"] by (simp add: world_inv_def tasks_update)
next
  case (write_done w i argv cs out quit)
  then show ?case using pending_update [of i "wd_tasks w" "Appending argv"] by (simp add: world_inv_def tasks_update)
next
  case (append w i argv)
  then have "on_server (fst \<circ> log_append argv) (wd_server w) = (wd_server w)\<lparr>sv_aof := Some (append_all a (wd_logged w @ [argv]))\<rparr>"
    by (auto simp: on_server_def log_append_def append_all_def world_inv_def split: prod.split option.split)
  then show ?case using append pending_update [of i "wd_tasks w" "Feeding argv"] by (simp add: world_inv_def tasks_update ac_simps)
next
  case (reap w sv n)
  then have "\<exists>st. sv = (wd_server w)\<lparr>sv_store := st\<rparr> \<and> st_inv b st"
    using purge_expiredE [of b "sv_store (wd_server w)" "ev_clock ev (wd_tick w)"]
    by (fastforce simp: reaper_round_def world_inv_def bind_eq_Some_conv)
  then show ?case using reap by (auto simp: world_inv_def)
qed (use pending_update in \<open>fastforce simp: world_inv_def tasks_update on_server_def log_propagate_def\<close>)+


lemma run_inv: "(thread_step fl ev)\<^sup>*\<^sup>* w w' \<Longrightarrow> world_inv b a w \<Longrightarrow> world_inv b a w'"
  by (induction rule: rtranclp_induct) (auto intro: thread_step_inv)

section \<open>Threads finish\<close>

text \<open>A thread can always go on, and left alone it becomes idle.\<close>

lemma command_finishes:
  "world_inv b a w \<Longrightarrow> turn w i (Running argv prog) \<Longrightarrow>
    \<exists>w'. (thread_step fl ev)\<^sup>*\<^sup>* w w' \<and> (\<exists>t. wd_tasks w' = (wd_tasks w)[i := t] \<and> (t = Idle \<or> t = Appending argv))"
proof (induction prog arbitrary: w)
  case (Done r)
  then have "\<not> Option.is_none r" by (auto simp: world_inv_def list_all_length)
  then obtain cs out wr quit where "r = Some (cs, out, wr, quit)" by (cases r) auto
  then show ?case using read_done [of i w argv cs out quit fl ev] write_done [of i w argv cs out quit fl ev] Done.prems(2)
    by (cases wr) (fastforce intro!: r_into_rtranclp)+
next
  case (Ask q k)
  obtain st p where p: "serve ev (wd_tick w) q (sv_store (wd_server w)) = Some (st, p)"
    using serve_allowed [of b "sv_store (wd_server w)" ev "wd_tick w" q] Ask.prems(1) by (auto simp: world_inv_def returns_iff)
  let ?w = "(becomes w i (Running argv (k p)))\<lparr>wd_server := (wd_server w)\<lparr>sv_store := st\<rparr>, wd_tick := Suc (wd_tick w)\<rparr>"
  have step: "thread_step fl ev w ?w" by (rule request [OF Ask.prems(2) p])
  have "turn ?w i (Running argv (k p))" using Ask.prems(2) by simp
  from Ask.IH [OF rangeI thread_step_inv [OF step Ask.prems(1)] this] obtain w' t where
    "(thread_step fl ev)\<^sup>*\<^sup>* ?w w'" "wd_tasks w' = (wd_tasks w)[i := t]" "t = Idle \<or> t = Appending argv" by auto
  with converse_rtranclp_into_rtranclp [of "thread_step fl ev", OF step] show ?case by blast
qed

lemma feeding_finishes:
  assumes "turn w i (Feeding argv)"
  shows "\<exists>w'. (thread_step fl ev)\<^sup>*\<^sup>* w w' \<and> wd_tasks w' = (wd_tasks w)[i := Idle]"
  using feed [OF assms, of fl ev] by (fastforce intro!: r_into_rtranclp)

lemma appending_finishes:
  assumes "world_inv b a w" "turn w i (Appending argv)"
  shows "\<exists>w'. (thread_step fl ev)\<^sup>*\<^sup>* w w' \<and> wd_tasks w' = (wd_tasks w)[i := Idle]"
proof -
  let ?w = "(becomes w i (Feeding argv))\<lparr>wd_server := on_server (fst \<circ> log_append argv) (wd_server w), wd_logged := wd_logged w @ [argv]\<rparr>"
  have step: "thread_step fl ev w ?w" using assms by (intro append) (simp_all add: world_inv_def)
  have "turn ?w i (Feeding argv)" using assms(2) by simp
  from feeding_finishes [OF this, of fl ev] obtain w' where "(thread_step fl ev)\<^sup>*\<^sup>* ?w w'" "wd_tasks w' = (wd_tasks w)[i := Idle]" by auto
  with converse_rtranclp_into_rtranclp [of "thread_step fl ev", OF step] show ?thesis by blast
qed

lemma task_finishes:
  assumes inv: "world_inv b a w" and i: "i < length (wd_tasks w)"
  shows "\<exists>w'. (thread_step fl ev)\<^sup>*\<^sup>* w w' \<and> wd_tasks w' = (wd_tasks w)[i := Idle]"
proof (cases "wd_tasks w ! i")
  case Idle
  then show ?thesis using list_update_id [of "wd_tasks w" i] by (metis rtranclp.rtrancl_refl)
next
  case (Running argv prog)
  with command_finishes [OF inv, of i argv prog fl ev] i obtain w1 t where 1: "(thread_step fl ev)\<^sup>*\<^sup>* w w1" "wd_tasks w1 = (wd_tasks w)[i := t]"
    "t = Idle \<or> t = Appending argv" by auto
  show ?thesis
  proof (cases "t = Idle")
    case False
    with 1 i have "turn w1 i (Appending argv)" by simp
    from appending_finishes [OF run_inv [OF 1(1) inv] this, of fl ev] 1 show ?thesis by (auto intro: rtranclp_trans)
  qed (use 1 in auto)
next
  case (Appending argv)
  with appending_finishes [OF inv] i show ?thesis by blast
next
  case (Feeding argv)
  with feeding_finishes i show ?thesis by blast
next
  case (Dumped stream snapshot)
  with i subscribe [of i w stream snapshot fl ev] show ?thesis by (fastforce intro!: r_into_rtranclp)
qed

lemma threads_finish:
  assumes "world_inv b a w" "n \<le> length (wd_tasks w)"
  shows "\<exists>w'. (thread_step fl ev)\<^sup>*\<^sup>* w w' \<and> length (wd_tasks w') = length (wd_tasks w) \<and> (\<forall>i < n. wd_tasks w' ! i = Idle)"
  using assms(2)
proof (induction n)
  case (Suc n)
  then obtain w1 where 1: "(thread_step fl ev)\<^sup>*\<^sup>* w w1" "length (wd_tasks w1) = length (wd_tasks w)" "\<forall>i < n. wd_tasks w1 ! i = Idle" by auto
  have n: "n < length (wd_tasks w1)" using 1(2) Suc.prems by simp
  from task_finishes [OF run_inv [OF 1(1) assms(1)] n, of fl ev] obtain w2 where "(thread_step fl ev)\<^sup>*\<^sup>* w1 w2"
    "wd_tasks w2 = (wd_tasks w1)[n := Idle]" by blast
  with 1 n show ?case by (intro exI [of _ w2]) (auto simp: nth_list_update less_Suc_eq intro: rtranclp_trans)
qed auto

section \<open>Properties\<close>

text \<open>A server at rest: no thread has anything to do, and nothing was executed or logged yet.\<close>

definition at_rest :: "nat \<Rightarrow> aof \<Rightarrow> world \<Rightarrow> bool" where
  "at_rest b a w \<longleftrightarrow> st_inv b (sv_store (wd_server w)) \<and> sv_aof (wd_server w) = Some a \<and> set (wd_tasks w) \<subseteq> {Idle}
     \<and> wd_executed w = [] \<and> wd_logged w = []"

lemma at_rest_inv: "at_rest b a w \<Longrightarrow> world_inv b a w"
proof -
  assume r: "at_rest b a w"
  then have "concat (map pending (wd_tasks w)) = []" "list_all task_ok (wd_tasks w)" by (auto simp: at_rest_def list_all_iff)
  with r show ?thesis by (simp add: at_rest_def world_inv_def append_all_def)
qed

text \<open>C0: No interleaving of the threads loses or duplicates a write in the log, and none gets stuck. In every state that
  threads running in any order reach from rest, the store is well-formed, the log is the result of appending the writes that
  reached it, and the writes executed so far are those, as a multiset, and the ones whose threads are about to append. From every
  such state the threads can finish what they do; then exactly the executed writes have been appended.\<close>

theorem interleaved_log_complete:
  assumes "at_rest b a w0" "(thread_step fl ev)\<^sup>*\<^sup>* w0 w"
  shows "st_inv b (sv_store (wd_server w)) \<and> sv_aof (wd_server w) = Some (append_all a (wd_logged w))
    \<and> mset (wd_executed w) = mset (wd_logged w) + mset (concat (map pending (wd_tasks w)))
    \<and> (\<exists>w'. (thread_step fl ev)\<^sup>*\<^sup>* w w' \<and> set (wd_tasks w') \<subseteq> {Idle} \<and> mset (wd_executed w') = mset (wd_logged w'))"
proof -
  have inv: "world_inv b a w" by (rule run_inv [OF assms(2) at_rest_inv [OF assms(1)]])
  from threads_finish [OF inv order_refl, of fl ev] obtain w' where w': "(thread_step fl ev)\<^sup>*\<^sup>* w w'"
    "length (wd_tasks w') = length (wd_tasks w)" "\<forall>i < length (wd_tasks w). wd_tasks w' ! i = Idle" by blast
  then have idle: "set (wd_tasks w') \<subseteq> {Idle}" by (auto simp: in_set_conv_nth)
  then have "concat (map pending (wd_tasks w')) = []" by auto
  with run_inv [OF w'(1) inv] have "mset (wd_executed w') = mset (wd_logged w')" by (simp add: world_inv_def)
  with inv w'(1) idle show ?thesis by (auto simp: world_inv_def)
qed

section \<open>Races\<close>

lemma command_runs:
  "turn w i (Running argv prog) \<Longrightarrow> exec ev (wd_tick w) prog (sv_store (wd_server w)) = Some (st, n, Some (cs, out, True, quit)) \<Longrightarrow>
    (thread_step fl ev)\<^sup>*\<^sup>* w ((becomes w i (Appending argv))
      \<lparr>wd_server := (wd_server w)\<lparr>sv_store := st\<rparr>, wd_tick := n, wd_executed := wd_executed w @ [argv]\<rparr>)"
proof (induction prog arbitrary: w)
  case (Done r)
  then show ?case using write_done [of i w argv cs out quit fl ev] by (auto intro!: r_into_rtranclp)
next
  case (Ask q k)
  then obtain st1 p where p: "serve ev (wd_tick w) q (sv_store (wd_server w)) = Some (st1, p)"
    "exec ev (Suc (wd_tick w)) (k p) st1 = Some (st, n, Some (cs, out, True, quit))" by (auto simp: bind_eq_Some_conv)
  let ?w = "(becomes w i (Running argv (k p)))\<lparr>wd_server := (wd_server w)\<lparr>sv_store := st1\<rparr>, wd_tick := Suc (wd_tick w)\<rparr>"
  have "thread_step fl ev w ?w" by (rule request [OF Ask.prems(1) p(1)])
  moreover have "turn ?w i (Running argv (k p))" using Ask.prems(1) by simp
  ultimately show ?case using Ask.IH [OF rangeI, of ?w] p(2) by (auto intro: converse_rtranclp_into_rtranclp)
qed

lemma upper_SET: "upper ''SET'' = ''SET''"
  by code_simp

lemma set_replayed:
  "ks_exec False ev i f (dispatch fl cfg [''SET'', k, v] cs) h m r \<Longrightarrow> h = f(k \<mapsto> \<lparr>en_value = VStr v, en_expire_at = None\<rparr>)"
  by (auto simp: upper_SET dispatch_defs set_cmd_def set_finish_def ks_exec_Ask ks_step_def ans_def set_cell_def default_options_def Let_def split_def)

lemma set_served:
  "ks_exec False ev i f (command_prog fl cfg cs [''SET'', k, v] out) h m r \<Longrightarrow>
     h = f(k \<mapsto> \<lparr>en_value = VStr v, en_expire_at = None\<rparr>) \<and> (\<exists>out. r = Some (cs, out, True, False))"
  by (auto simp: command_prog_def serve_fast_def upper_SET ks_exec_Ask ks_step_def ans_def set_cell_def default_options_def Let_def split_def)

text \<open>One thread sets a key, up to the point where it is about to append the command.\<close>

lemma set_runs:
  assumes "turn w i Idle" "st_inv 0 (sv_store (wd_server w))" "permitted (wd_server w) cs [''SET'', k, v]"
  obtains st n where "(thread_step fl ev)\<^sup>*\<^sup>* w ((becomes w i (Appending [''SET'', k, v]))
      \<lparr>wd_server := (wd_server w)\<lparr>sv_store := st\<rparr>, wd_tick := n, wd_executed := wd_executed w @ [[''SET'', k, v]]\<rparr>)"
    "st_inv 0 st" "store_ks st = (store_ks (sv_store (wd_server w)))(k \<mapsto> \<lparr>en_value = VStr v, en_expire_at = None\<rparr>)"
proof -
  let ?argv = "[''SET'', k, v]" and ?prog = "command_prog fl (sv_config (wd_server w)) cs [''SET'', k, v] []"
  let ?w = "becomes w i (Running ?argv ?prog)"
  obtain st n r where run: "exec ev (wd_tick w) ?prog (sv_store (wd_server w)) = Some (st, n, r)" "st_inv 0 st"
      "ks_exec False ev (wd_tick w) (store_ks (sv_store (wd_server w))) ?prog (store_ks st) n r"
    using exec_allowed [OF assms(2), of ev "wd_tick w" ?prog] by (auto simp: returns_iff)
  from set_served [OF run(3)] obtain out where r: "r = Some (cs, out, True, False)"
    "store_ks st = (store_ks (sv_store (wd_server w)))(k \<mapsto> \<lparr>en_value = VStr v, en_expire_at = None\<rparr>)" by blast
  have "thread_step fl ev w ?w" by (rule receive [OF assms(1,3)])
  moreover have "turn ?w i (Running ?argv ?prog)" using assms(1) by simp
  ultimately show thesis using command_runs [of i ?w ?argv ?prog ev st n cs out False fl] run r assms(1)
    by (intro that) (auto intro: converse_rtranclp_into_rtranclp)
qed

text \<open>It appends the command, and there is no replica to send it to.\<close>

lemma append_runs:
  assumes "turn w i (Appending argv)" "sv_aof (wd_server w) = Some a" "\<not> has_replicas (sv_repl (wd_server w))"
  shows "(thread_step fl ev)\<^sup>*\<^sup>* w ((becomes w i Idle)
      \<lparr>wd_server := (wd_server w)\<lparr>sv_aof := Some (fst (aof_append a argv))\<rparr>, wd_logged := wd_logged w @ [argv]\<rparr>)"
proof -
  let ?w = "(becomes w i (Feeding argv))\<lparr>wd_server := (wd_server w)\<lparr>sv_aof := Some (fst (aof_append a argv))\<rparr>, wd_logged := wd_logged w @ [argv]\<rparr>"
  have "on_server (fst \<circ> log_append argv) (wd_server w) = (wd_server w)\<lparr>sv_aof := Some (fst (aof_append a argv))\<rparr>"
    using assms(2) by (auto simp: on_server_def log_append_def split: prod.split option.split)
  then have 1: "thread_step fl ev w ?w" using append [OF assms(1), of fl ev] assms(2) by simp
  have "on_server (log_propagate argv) (wd_server ?w) = wd_server ?w" using assms(3) by (simp add: on_server_def log_propagate_def)
  then have "thread_step fl ev ?w ((becomes w i Idle)\<lparr>wd_server := wd_server ?w, wd_logged := wd_logged w @ [argv]\<rparr>)"
    using feed [of i ?w argv fl ev] assms(1) by (cases w) simp
  with 1 show ?thesis by (auto intro: converse_rtranclp_into_rtranclp)
qed

text \<open>The worlds of the examples: a server with a password, whose connections have given it.\<close>

definition site :: "aof \<Rightarrow> replication \<Rightarrow> store \<Rightarrow> nat \<Rightarrow> task list \<Rightarrow> bytes list list \<Rightarrow> bytes list list \<Rightarrow> world" where
  "site a repl st n tasks executed logged = \<lparr>wd_server = \<lparr>sv_store = st, sv_config = sv_config guarded_server,
     sv_aof = Some a, sv_repl = repl, sv_read_only = False\<rparr>, wd_tick = n, wd_tasks = tasks, wd_executed = executed, wd_logged = logged\<rparr>"

lemma site_set:
  assumes "i < length tasks" "tasks ! i = Idle" "st_inv 0 st"
  shows "\<exists>st' n'. (thread_step fl ev)\<^sup>*\<^sup>* (site a repl st n tasks executed logged)
      (site a repl st' n' (tasks[i := Appending [''SET'', k, v]]) (executed @ [[''SET'', k, v]]) logged)
    \<and> st_inv 0 st' \<and> store_ks st' = (store_ks st)(k \<mapsto> \<lparr>en_value = VStr v, en_expire_at = None\<rparr>)"
proof (rule set_runs [of i "site a repl st n tasks executed logged" "conn_new 1 True" k v fl ev])
  show "permitted (wd_server (site a repl st n tasks executed logged)) (conn_new 1 True) [''SET'', k, v]"
    by (simp add: permitted_def conn_new_def is_sync_def guarded_server_def upper_SET site_def)
qed (use assms in \<open>auto simp: site_def\<close>)

lemma site_append:
  assumes "i < length tasks" "tasks ! i = Appending argv" "\<not> has_replicas repl"
  shows "(thread_step fl ev)\<^sup>*\<^sup>* (site a repl st n tasks executed logged)
    (site (fst (aof_append a argv)) repl st n (tasks[i := Idle]) executed (logged @ [argv]))"
  using append_runs [of i "site a repl st n tasks executed logged" argv a fl ev] assms by (simp add: site_def)

definition resting_world :: world where
  "resting_world = site (empty_aof 100) replication_new (sv_store guarded_server) 0 [Idle, Idle] [] []"

lemma resting_world: "at_rest 0 (empty_aof 100) resting_world"
  using guarded_inv by (simp add: at_rest_def resting_world_def site_def)

lemma no_replicas: "\<not> has_replicas replication_new"
  by (simp add: has_replicas_def replication_new_def)

lemma recovered_order:
  assumes "loggable [''SET'', k, v1]" "loggable [''SET'', k, v2]" "cf_appendonly cfg" "cf_maxmemory cfg = 0" "cf_shards cfg \<le> 2 ^ 63"
    and "dk_aof disk = Contents (concat (map resp_command [[''SET'', k, v1], [''SET'', k, v2]]))" "dk_open_error disk = None"
  shows "\<exists>sv m. bootstrap fl ev n router hs cfg disk = Some (m, Inr sv) \<and> store_ks (sv_store sv) = [k \<mapsto> \<lparr>en_value = VStr v2, en_expire_at = None\<rparr>]"
proof (rule bootstrap_replays [OF assms(3-5,7,6)])
  have "replays fl cfg [[''SET'', k, v2]] [k \<mapsto> \<lparr>en_value = VStr v1, en_expire_at = None\<rparr>] [k \<mapsto> \<lparr>en_value = VStr v2, en_expire_at = None\<rparr>]"
    by (rule replays_Cons [OF _ replays_Nil], drule set_replayed) simp
  then show "replays fl cfg [[''SET'', k, v1], [''SET'', k, v2]] Map.empty [k \<mapsto> \<lparr>en_value = VStr v2, en_expire_at = None\<rparr>]"
    by (rule replays_Cons [rotated]) (rule set_replayed)
qed (use assms(1,2) in simp)

theorem interleaved_log_complete_witness:
  "\<exists>w w'. (thread_step no_floats still_env)\<^sup>*\<^sup>* resting_world w \<and> wd_executed w = [[''SET'', ''k'', ''1'']] \<and> wd_logged w = []
    \<and> (thread_step no_floats still_env)\<^sup>*\<^sup>* w w' \<and> set (wd_tasks w') \<subseteq> {Idle} \<and> mset (wd_executed w') = mset (wd_logged w')"
proof -
  let ?w = "\<lambda>st n. site (empty_aof 100) replication_new st n [Appending [''SET'', ''k'', ''1''], Idle] [[''SET'', ''k'', ''1'']] []"
  obtain st n where run: "(thread_step no_floats still_env)\<^sup>*\<^sup>* resting_world (?w st n)"
    using site_set [of 0 "[Idle, Idle]" "sv_store guarded_server" no_floats still_env "empty_aof 100" replication_new 0 "[]" "[]" "''k''" "''1''"]
      guarded_inv(1) unfolding resting_world_def by auto
  from interleaved_log_complete [OF resting_world run] obtain w' where "(thread_step no_floats still_env)\<^sup>*\<^sup>* (?w st n) w'"
    "set (wd_tasks w') \<subseteq> {Idle}" "mset (wd_executed w') = mset (wd_logged w')" by blast
  with run show ?thesis by (intro exI [of _ "?w st n"] exI [of _ w']) (simp add: site_def)
qed

text \<open>C0: The log can end up in another order than the commands were executed in. Two connections set the same key;
  the one that is executed first is appended last, since nothing is held between the store operation and the append.
  Both are answered, the server holds the second value, and a restart on its log recovers the first.\<close>

theorem log_order_diverges:
  "\<exists>w sv m. (thread_step no_floats still_env)\<^sup>*\<^sup>* resting_world w \<and> set (wd_tasks w) \<subseteq> {Idle}
    \<and> wd_executed w = [[''SET'', ''k'', ''1''], [''SET'', ''k'', ''2'']] \<and> wd_logged w = [[''SET'', ''k'', ''2''], [''SET'', ''k'', ''1'']]
    \<and> store_ks (sv_store (wd_server w)) = [''k'' \<mapsto> \<lparr>en_value = VStr ''2'', en_expire_at = None\<rparr>]
    \<and> bootstrap no_floats still_env 0 (\<lambda>_. 7) zero_hashers (config_default\<lparr>cf_appendonly := True, cf_shards := 2\<rparr>)
        \<lparr>dk_aof = Contents (log_file (wd_server w)), dk_snapshot = Absent, dk_room = 0, dk_write_error = [], dk_open_error = None\<rparr> = Some (m, Inr sv)
    \<and> store_ks (sv_store sv) = [''k'' \<mapsto> \<lparr>en_value = VStr ''1'', en_expire_at = None\<rparr>]"
proof -
  let ?A = "[''SET'', ''k'', ''1'']" and ?B = "[''SET'', ''k'', ''2'']" and ?run = "(thread_step no_floats still_env)\<^sup>*\<^sup>*"
  let ?site = "\<lambda>a. site a replication_new" and ?a = "empty_aof 100"
  let ?b = "fst (aof_append ?a ?B)"
  obtain st1 n1 where 1: "?run resting_world (?site ?a st1 n1 [Appending ?A, Idle] [?A] [])" "st_inv 0 st1"
      "store_ks st1 = [''k'' \<mapsto> \<lparr>en_value = VStr ''1'', en_expire_at = None\<rparr>]"
    using site_set [of 0 "[Idle, Idle]" "sv_store guarded_server" no_floats still_env ?a replication_new 0 "[]" "[]" "''k''" "''1''"]
      guarded_inv unfolding resting_world_def by auto
  obtain st2 n2 where 2: "?run (?site ?a st1 n1 [Appending ?A, Idle] [?A] []) (?site ?a st2 n2 [Appending ?A, Appending ?B] [?A, ?B] [])"
      "store_ks st2 = [''k'' \<mapsto> \<lparr>en_value = VStr ''2'', en_expire_at = None\<rparr>]"
    using site_set [of 1 "[Appending ?A, Idle]" st1 no_floats still_env ?a replication_new n1 "[?A]" "[]" "''k''" "''2''"] 1(2,3) by auto
  have 3: "?run (?site ?a st2 n2 [Appending ?A, Appending ?B] [?A, ?B] []) (?site ?b st2 n2 [Appending ?A, Idle] [?A, ?B] [?B])"
    using site_append [of 1 "[Appending ?A, Appending ?B]" ?B replication_new no_floats still_env ?a st2 n2 "[?A, ?B]" "[]"] no_replicas by simp
  let ?w = "?site (fst (aof_append ?b ?A)) st2 n2 [Idle, Idle] [?A, ?B] [?B, ?A]"
  have 4: "?run (?site ?b st2 n2 [Appending ?A, Idle] [?A, ?B] [?B]) ?w"
    using site_append [of 0 "[Appending ?A, Idle]" ?A replication_new no_floats still_env ?b st2 n2 "[?A, ?B]" "[?B]"] no_replicas by simp
  have run: "?run resting_world ?w" using 1(1) 2(1) 3 4 by (meson rtranclp_trans)
  have len: "length (resp_command ?A) = 27" "length (resp_command ?B) = 27" and ok: "loggable ?A" "loggable ?B" by code_simp+
  have "aof_flushed ?a" "aof_file ?a = []" "aof_room ?a = 100" by (simp_all add: aof_defs empty_aof_def aof_open_def)
  then have "log_file (wd_server ?w) = concat (map resp_command [?B, ?A])"
    using append_all_file [of ?a "[?B, ?A]"] len by (simp add: append_all_def log_file_def site_def)
  then obtain sv m where "bootstrap no_floats still_env 0 (\<lambda>_. 7) zero_hashers (config_default\<lparr>cf_appendonly := True, cf_shards := 2\<rparr>)
        \<lparr>dk_aof = Contents (log_file (wd_server ?w)), dk_snapshot = Absent, dk_room = 0, dk_write_error = [], dk_open_error = None\<rparr> = Some (m, Inr sv)"
      "store_ks (sv_store sv) = [''k'' \<mapsto> \<lparr>en_value = VStr ''1'', en_expire_at = None\<rparr>]"
    using recovered_order [OF ok(2,1), of "config_default\<lparr>cf_appendonly := True, cf_shards := 2\<rparr>"
      "\<lparr>dk_aof = Contents (log_file (wd_server ?w)), dk_snapshot = Absent, dk_room = 0, dk_write_error = [], dk_open_error = None\<rparr>"
      no_floats still_env 0 "\<lambda>_. 7" zero_hashers] by (auto simp: config_default_def)
  with run 2(2) show ?thesis by (intro exI [of _ ?w] exI [of _ sv] exI [of _ m]) (simp add: site_def)
qed

text \<open>C0: A write that races the handshake of a replica can be lost on it. A thread takes the dump for a replica; before the
  replica is registered another thread sets a key and finds no replica to send the command to. At the end both
  threads are idle, the primary holds the key, and the registered replica was sent nothing at all.\<close>

theorem sync_race_loses_write:
  "\<exists>w. (thread_step no_floats still_env)\<^sup>*\<^sup>* resting_world w \<and> set (wd_tasks w) \<subseteq> {Idle}
    \<and> store_ks (sv_store (wd_server w)) = [''k'' \<mapsto> \<lparr>en_value = VStr ''1'', en_expire_at = None\<rparr>]
    \<and> map sk_data (rp_replicas (sv_repl (wd_server w))) = [[]]"
proof -
  let ?A = "[''SET'', ''k'', ''1'']" and ?run = "(thread_step no_floats still_env)\<^sup>*\<^sup>*" and ?a = "empty_aof 100"
  let ?stream = "\<lparr>sk_data = [], sk_room = 100, sk_error = []\<rparr>" and ?st = "sv_store guarded_server"
  let ?site = "\<lambda>a. site a replication_new" and ?b = "fst (aof_append ?a ?A)"
  have "dump_commands (fl_show no_floats) 5 ?st = []" by (simp add: guarded_server_def) code_simp
  then have 1: "?run resting_world (?site ?a ?st 1 [Dumped ?stream [], Idle] [] [])"
    using dump [of 0 resting_world no_floats still_env ?stream] by (auto simp: resting_world_def site_def still_env_def)
  obtain st n where 2: "?run (?site ?a ?st 1 [Dumped ?stream [], Idle] [] []) (?site ?a st n [Dumped ?stream [], Appending ?A] [?A] [])"
      "store_ks st = [''k'' \<mapsto> \<lparr>en_value = VStr ''1'', en_expire_at = None\<rparr>]"
    using site_set [of 1 "[Dumped ?stream [], Idle]" ?st no_floats still_env ?a replication_new 1 "[]" "[]" "''k''" "''1''"] guarded_inv by auto
  have 3: "?run (?site ?a st n [Dumped ?stream [], Appending ?A] [?A] []) (?site ?b st n [Dumped ?stream [], Idle] [?A] [?A])"
    using site_append [of 1 "[Dumped ?stream [], Appending ?A]" ?A replication_new no_floats still_env ?a st n "[?A]" "[]"] no_replicas by simp
  let ?w = "site ?b \<lparr>rp_replicas = [?stream], rp_count = 1\<rparr> st n [Idle, Idle] [?A] [?A]"
  have "?run (?site ?b st n [Dumped ?stream [], Idle] [?A] [?A]) ?w"
    using subscribe [of 0 "?site ?b st n [Dumped ?stream [], Idle] [?A] [?A]" ?stream "[]" no_floats still_env]
    by (auto simp: site_def add_replica_with_snapshot_def write_all_def replication_new_def)
  with 1 2(1) 3 have "?run resting_world ?w" by (meson rtranclp_trans)
  with 2(2) show ?thesis by (intro exI [of _ ?w]) (simp add: site_def)
qed

end
