(* ===== verification/Spec2Isabelle.thy ===== *)
theory Spec2Isabelle
  imports Tls Interleaving
begin

text \<open>
  Verification of In-mem0, a Redis-compatible in-memory cache.
\<close>

end
